(* ===== verification/Prelude.thy ===== *)
theory Prelude
  imports Main "HOL-Library.Word"
begin

text \<open>
  Shared vocabulary of the development: the C types of types.h as words, byte arrays and
  memory, the result type of kernel functions (a function of the kernel can return, panic,
  go to sleep on a channel, or loop), little-endian encodings of the structures the code
  overlays on bytes, the first-fit scans of its tables, and the doubly linked lists with a
  sentinel that bio.c uses. It also holds the collections of rewrite rules the components share
  and the interfaces (locales) that more than one component implements.
\<close>

unbundle bit_operations_syntax

section \<open>Types\<close>

type_synonym u8 = "8 word"     \<comment> \<open>uchar, and the bytes of a char array\<close>
type_synonym u16 = "16 word"   \<comment> \<open>ushort and short\<close>
type_synonym u32 = "32 word"   \<comment> \<open>uint, pointers, and int where it can wrap\<close>

type_synonym block = "nat \<Rightarrow> u8"   \<comment> \<open>a byte array, by offset\<close>
type_synonym mem = "u32 \<Rightarrow> u8"     \<comment> \<open>byte-addressed memory\<close>

text \<open>The kernel objects whose addresses are used as sleep channels (\<open>void *chan\<close>).\<close>

datatype chan =
    ChBuf nat       \<comment> \<open>a struct buf of the cache\<close>
  | ChInode nat     \<comment> \<open>a struct inode of the cache\<close>
  | ChLog           \<comment> \<open>the log\<close>
  | ChTicks         \<comment> \<open>the tick counter\<close>
  | ChProc nat      \<comment> \<open>a struct proc (a parent in wait)\<close>
  | ChPipeR u32     \<comment> \<open>the nread field of the pipe at an address\<close>
  | ChPipeW u32     \<comment> \<open>the nwrite field of the pipe at an address\<close>
  | ChInput         \<comment> \<open>the read index of the console input buffer\<close>

section \<open>Results of kernel functions\<close>

text \<open>
  A kernel function either returns (\<open>Inr\<close>) or stops: it calls \<open>panic\<close> with a message,
  it would sleep on a channel, or a loop of it does not end.
\<close>

datatype kstop = Panic string | Sleep chan | Diverge | Overrun string

type_synonym 'a kres = "kstop + 'a"

named_theorems kres "case analysis of kernel results that are known to be returns"
named_theorems flag_simps "reading a flag bit of a word after setting or clearing flags"

definition kbind :: "'a kres \<Rightarrow> ('a \<Rightarrow> 'b kres) \<Rightarrow> 'b kres" where
  "kbind m f = (case m of Inl e \<Rightarrow> Inl e | Inr x \<Rightarrow> f x)"

lemma kbind_Inr [simp]: "kbind (Inr x) f = f x"
  by (simp add: kbind_def)

lemma kbind_Inl [simp]: "kbind (Inl e) f = Inl e"
  by (simp add: kbind_def)

lemma kbind_returns [kres]: "kbind m f = Inr y \<longleftrightarrow> (\<exists>x. m = Inr x \<and> f x = Inr y)"
  by (cases m) simp_all

lemma kbind_stops: "kbind m f = Inl e \<longleftrightarrow> m = Inl e \<or> (\<exists>x. m = Inr x \<and> f x = Inl e)"
  by (cases m) simp_all

lemma kbind_assoc: "kbind (kbind m f) g = kbind m (\<lambda>x. kbind (f x) g)"
  by (cases m) simp_all

lemma kbind_cong [fundef_cong]:
  assumes "m = m'" and "\<And>x. m' = Inr x \<Longrightarrow> f x = g x"
  shows "kbind m f = kbind m' g"
  using assms by (cases m') simp_all

lemma if_Inl_returns [kres]:
  "(if c then Inl e else m) = Inr y \<longleftrightarrow> \<not> c \<and> m = Inr y"
  by simp

text \<open>A counted loop whose body cannot leave early: one call per element, state threaded.\<close>

fun kfold :: "('a \<Rightarrow> 's \<Rightarrow> 's kres) \<Rightarrow> 'a list \<Rightarrow> 's \<Rightarrow> 's kres" where
  "kfold f [] s = Inr s"
| "kfold f (x # xs) s = kbind (f x s) (kfold f xs)"

lemma kfold_append: "kfold f (xs @ ys) s = kbind (kfold f xs s) (kfold f ys)"
  by (induction xs arbitrary: s) (auto simp: kbind_assoc intro: kbind_cong)

lemma kfold_invariant:
  assumes "kfold f xs s = Inr t" and "P s"
    and "\<And>x u v. x \<in> set xs \<Longrightarrow> P u \<Longrightarrow> f x u = Inr v \<Longrightarrow> P v"
  shows "P t"
  using assms by (induction xs arbitrary: s) (auto simp: kres)

section \<open>First-fit scans\<close>

text \<open>
  The tables of the kernel (processes, files, inodes, descriptors) are searched by
  \<open>for(i = 0; i < N; i++) if(P(i)) ...\<close>; the scan is \<open>find P [0..<N]\<close>.
\<close>

lemma find_upt_Some:
  "List.find P [0..<n] = Some i \<longleftrightarrow> i < n \<and> P i \<and> (\<forall>j<i. \<not> P j)"
  by (auto simp: find_Some_iff)

lemma find_upt_None: "List.find P [0..<n] = None \<longleftrightarrow> (\<forall>i<n. \<not> P i)"
  by (auto simp: find_None_iff)

section \<open>Little-endian encodings\<close>

definition byte_of :: "nat \<Rightarrow> u32 \<Rightarrow> u8" where
  "byte_of k w = ucast (drop_bit (8 * k) w)"

definition le32 :: "u8 \<Rightarrow> u8 \<Rightarrow> u8 \<Rightarrow> u8 \<Rightarrow> u32" where
  "le32 b0 b1 b2 b3 =
     ucast b0 OR push_bit 8 (ucast b1) OR push_bit 16 (ucast b2) OR push_bit 24 (ucast b3)"

definition le16 :: "u8 \<Rightarrow> u8 \<Rightarrow> u16" where
  "le16 b0 b1 = ucast b0 OR push_bit 8 (ucast b1)"

lemma le32_bytes [simp]:
  "le32 (byte_of 0 w) (byte_of (Suc 0) w) (byte_of 2 w) (byte_of 3 w) = w"
proof (rule bit_word_eqI)
  fix n assume "n < LENGTH(32)"
  then have "n < 8 \<or> (8 \<le> n \<and> n < 16) \<or> (16 \<le> n \<and> n < 24) \<or> (24 \<le> n \<and> n < 32)"
    by auto
  then show "bit (le32 (byte_of 0 w) (byte_of (Suc 0) w) (byte_of 2 w) (byte_of 3 w)) n = bit w n"
    by (auto simp: le32_def byte_of_def bit_simps)
qed

lemma le16_bytes [simp]: "le16 (ucast w) (ucast (drop_bit 8 w)) = w" for w :: u16
proof (rule bit_word_eqI)
  fix n assume "n < LENGTH(16)"
  then have "n < 8 \<or> (8 \<le> n \<and> n < 16)" by auto
  then show "bit (le16 (ucast w) (ucast (drop_bit 8 w))) n = bit w n"
    by (auto simp: le16_def bit_simps)
qed

text \<open>A \<open>uint\<close> or \<open>short\<close> stored at an offset of a byte array, as a cast pointer reads it.\<close>

definition get32 :: "block \<Rightarrow> nat \<Rightarrow> u32" where
  "get32 d i = le32 (d i) (d (i + 1)) (d (i + 2)) (d (i + 3))"

definition put32 :: "nat \<Rightarrow> u32 \<Rightarrow> block \<Rightarrow> block" where
  "put32 i w d = d(i := byte_of 0 w, i + 1 := byte_of 1 w, i + 2 := byte_of 2 w, i + 3 := byte_of 3 w)"

definition get16 :: "block \<Rightarrow> nat \<Rightarrow> u16" where
  "get16 d i = le16 (d i) (d (i + 1))"

definition put16 :: "nat \<Rightarrow> u16 \<Rightarrow> block \<Rightarrow> block" where
  "put16 i w d = d(i := ucast w, i + 1 := ucast (drop_bit 8 w))"

lemma get32_put32_same [simp]: "get32 (put32 i w d) i = w"
  by (simp add: get32_def put32_def)

lemma get16_put16_same [simp]: "get16 (put16 i w d) i = w"
  by (simp add: get16_def put16_def)

lemma get32_put32_other [simp]: "i + 4 \<le> j \<or> j + 4 \<le> i \<Longrightarrow> get32 (put32 i w d) j = get32 d j"
  by (auto simp: get32_def put32_def)

lemma get16_put16_other [simp]: "i + 2 \<le> j \<or> j + 2 \<le> i \<Longrightarrow> get16 (put16 i w d) j = get16 d j"
  by (auto simp: get16_def put16_def)

lemma get32_put16_other [simp]: "i + 2 \<le> j \<or> j + 4 \<le> i \<Longrightarrow> get32 (put16 i w d) j = get32 d j"
  by (auto simp: get32_def put16_def)

lemma get16_put32_other [simp]: "i + 4 \<le> j \<or> j + 2 \<le> i \<Longrightarrow> get16 (put32 i w d) j = get16 d j"
  by (auto simp: get16_def put32_def)

lemma put32_outside: "j < i \<or> i + 4 \<le> j \<Longrightarrow> put32 i w d j = d j"
  by (auto simp: put32_def)

lemma put16_outside: "j < i \<or> i + 2 \<le> j \<Longrightarrow> put16 i w d j = d j"
  by (auto simp: put16_def)

lemma get32_zero [simp]: "get32 (\<lambda>_. 0) i = 0"
  by (simp add: get32_def le32_def)

lemma get16_zero [simp]: "get16 (\<lambda>_. 0) i = 0"
  by (simp add: get16_def le16_def)

text \<open>\<open>memmove\<close> into a byte array from another one (no overlap: different objects).\<close>

definition blit :: "nat \<Rightarrow> nat \<Rightarrow> block \<Rightarrow> block \<Rightarrow> block" where
  "blit off n src d = (\<lambda>i. if off \<le> i \<and> i < off + n then src (i - off) else d i)"

lemma blit_inside [simp]: "i < n \<Longrightarrow> blit off n src d (off + i) = src i"
  by (simp add: blit_def)

lemma blit_outside: "i < off \<or> off + n \<le> i \<Longrightarrow> blit off n src d i = d i"
  by (auto simp: blit_def)

lemma blit_0 [simp]: "blit off 0 src d = d"
  by (auto simp: blit_def fun_eq_iff)

section \<open>Flag bits\<close>

lemma and_flag_iff: "w AND 2 ^ n = 0 \<longleftrightarrow> \<not> bit w n" for w :: u32
  by (simp add: and_exp_eq_0_iff_not_bit)

lemmas and_1_iff [flag_simps] = and_flag_iff [of _ 0, simplified]
lemmas and_2_iff [flag_simps] = and_flag_iff [of _ 1, simplified]
lemmas and_4_iff [flag_simps] = and_flag_iff [of _ 2, simplified]

lemma and_flag_eq: "w AND 2 ^ n = (if bit w n then 2 ^ n else 0)" for w :: u32
  by (rule bit_word_eqI) (auto simp: bit_simps)

lemma and_6_eq_2_iff [flag_simps]: "w AND 6 = 2 \<longleftrightarrow> bit w 1 \<and> \<not> bit w 2" for w :: u32
proof -
  have "(6 :: u32) = 2 ^ 1 OR 2 ^ 2" by simp
  then have "w AND 6 = (w AND 2 ^ 1) OR (w AND 2 ^ 2)"
    by (simp only: bit.conj_disj_distrib)
  then show ?thesis by (simp only: and_flag_eq) simp
qed

declare bit_or_iff [flag_simps] bit_and_iff [flag_simps]

section \<open>Circular doubly linked lists with a sentinel\<close>

text \<open>
  \<open>nx\<close> and \<open>pv\<close> are the next and prev fields by node, \<open>h\<close> is the sentinel, and the
  nodes from \<open>h\<close>'s next to \<open>h\<close>'s prev are the list.
\<close>

fun links :: "('a \<Rightarrow> 'a) \<Rightarrow> ('a \<Rightarrow> 'a) \<Rightarrow> 'a list \<Rightarrow> bool" where
  "links nx pv (x # y # zs) \<longleftrightarrow> nx x = y \<and> pv y = x \<and> links nx pv (y # zs)"
| "links nx pv _ \<longleftrightarrow> True"

definition dll :: "('a \<Rightarrow> 'a) \<Rightarrow> ('a \<Rightarrow> 'a) \<Rightarrow> 'a \<Rightarrow> 'a list \<Rightarrow> bool" where
  "dll nx pv h xs \<longleftrightarrow> distinct (h # xs) \<and> links nx pv (h # xs @ [h])"

lemma links_append:
  "links nx pv (as @ x # bs) \<longleftrightarrow> links nx pv (as @ [x]) \<and> links nx pv (x # bs)"
proof (induction as)
  case Nil
  then show ?case by simp
next
  case (Cons a as)
  then show ?case by (cases as) auto
qed

lemma links_upd_nx: "u \<notin> set (butlast xs) \<Longrightarrow> links (nx(u := v)) pv xs = links nx pv xs"
  by (induction nx pv xs rule: links.induct) auto

lemma links_upd_pv: "u \<notin> set (tl xs) \<Longrightarrow> links nx (pv(u := v)) xs = links nx pv xs"
  by (induction nx pv xs rule: links.induct) auto

lemma links_snoc: "links nx pv (xs @ [x, y]) \<longleftrightarrow> links nx pv (xs @ [x]) \<and> nx x = y \<and> pv y = x"
  using links_append [of nx pv xs x "[y]"] by simp

lemma links_rev: "links nx pv (rev xs) = links pv nx xs"
  by (induction pv nx xs rule: links.induct) (auto simp: links_snoc)

lemma dll_flip: "dll nx pv h xs \<longleftrightarrow> dll pv nx h (rev xs)"
  using links_rev [of pv nx "h # xs @ [h]"] by (simp add: dll_def)

lemma dll_unlink:
  assumes "dll nx pv h (as @ b # bs)"
  shows "dll (nx(pv b := nx b)) (pv(nx b := pv b)) h (as @ bs)"
proof -
  obtain p ps where p: "h # as = ps @ [p]" by (metis append_butlast_last_id list.distinct(1))
  obtain q qs where q: "bs @ [h] = q # qs" by (cases bs) auto
  have d: "distinct (h # as @ b # bs)" and l: "links nx pv ((ps @ [p]) @ b # q # qs)"
    using assms p [symmetric] q [symmetric] by (simp_all add: dll_def)
  have l1: "links nx pv (ps @ [p])" and pb: "nx p = b" "pv b = p" "nx b = q" "pv q = b"
    and l2: "links nx pv (q # qs)"
    using l links_append [of nx pv ps p "b # q # qs"] by auto
  have tl: "tl (ps @ [p]) = as" and bl: "butlast (q # qs) = bs"
    using p q by (metis list.sel(3), metis butlast_snoc)
  have p_in: "p \<in> set (h # as)" and q_in: "q \<in> set (bs @ [h])"
    using p q by simp_all
  have dp: "distinct (ps @ [p])" using d unfolding p [symmetric] by simp
  have dq: "distinct (q # qs)" using d unfolding q [symmetric] by auto
  have "links (nx(p := q)) (pv(q := p)) (ps @ [p])"
    using l1 dp q_in d tl by (subst links_upd_nx, simp, subst links_upd_pv) auto
  moreover have "links (nx(p := q)) (pv(q := p)) (q # qs)"
    using l2 dq p_in d bl by (subst links_upd_nx, simp only: bl, force, subst links_upd_pv) auto
  ultimately have "links (nx(p := q)) (pv(q := p)) (ps @ p # q # qs)"
    by (subst links_append) simp
  moreover have "h # (as @ bs) @ [h] = ps @ p # q # qs"
    using p q by simp
  ultimately show ?thesis using d pb by (auto simp: dll_def)
qed

lemma dll_push:
  assumes "dll nx pv h xs" and "b \<notin> set (h # xs)"
  shows "dll (nx(b := nx h, h := b)) (pv(b := h, nx h := b)) h (b # xs)"
proof -
  obtain q qs where q: "xs @ [h] = q # qs" by (cases xs) auto
  have d: "distinct (h # xs)" and l: "links nx pv (h # q # qs)"
    using assms(1) q by (simp_all add: dll_def)
  have bl: "butlast (q # qs) = xs" using q by (metis butlast_snoc)
  have dq: "distinct (q # qs)" using d unfolding q [symmetric] by auto
  have q_in: "set (q # qs) = insert h (set xs)" unfolding q [symmetric] by simp
  have "links (nx(b := q, h := b)) (pv(b := h, q := b)) (q # qs)"
    using l dq assms(2) d q_in
    by (subst links_upd_nx, simp only: bl, simp, subst links_upd_nx, simp only: bl, simp,
        subst links_upd_pv, simp, subst links_upd_pv) auto
  moreover have "q \<noteq> b" using q_in assms(2) by auto
  ultimately show ?thesis using l assms(2) d q by (auto simp: dll_def)
qed

lemma dll_no_self:
  assumes "dll nx pv h xs" "b \<in> set xs"
  shows "nx b \<noteq> b" "pv b \<noteq> b"
proof -
  have *: "nx b \<noteq> b" if "dll nx pv h xs" "b \<in> set xs" for nx pv :: "'a \<Rightarrow> 'a" and xs
  proof -
    from that obtain as bs where xs: "xs = as @ b # bs" by (metis split_list)
    with that(1) have "links nx pv ((h # as) @ b # bs @ [h])" and d: "distinct (h # as @ b # bs)"
      by (simp_all add: dll_def)
    then have "links nx pv (b # bs @ [h])"
      using links_append [of nx pv "h # as" b "bs @ [h]"] by blast
    with d show ?thesis by (cases bs) auto
  qed
  show "nx b \<noteq> b" "pv b \<noteq> b"
    using * [OF assms] * [of pv nx "rev xs"] assms by (simp_all add: dll_flip [of nx pv])
qed

text \<open>A list scan \<open>for(b = h->next; b != h; b = b->next) if(P(b)) ...\<close>, with a bound on its steps.\<close>

fun scan :: "nat \<Rightarrow> ('a \<Rightarrow> 'a) \<Rightarrow> ('a \<Rightarrow> bool) \<Rightarrow> 'a \<Rightarrow> 'a \<Rightarrow> 'a option kres" where
  "scan 0 nx P h b = Inl Diverge"
| "scan (Suc k) nx P h b =
     (if b = h then Inr None else if P b then Inr (Some b) else scan k nx P h (nx b))"

lemma scan_links:
  assumes "links nx pv (b # xs @ [h])" and "h \<notin> set (b # xs)" and "Suc (length xs) < k"
  shows "scan k nx P h b = Inr (List.find P (b # xs))"
  using assms
proof (induction xs arbitrary: b k)
  case Nil
  then obtain k' where "k = Suc (Suc k')" by (auto dest!: less_imp_Suc_add)
  with Nil show ?case by simp
next
  case (Cons x xs)
  then obtain k' where k: "k = Suc k'" by (cases k) auto
  with Cons.prems Cons.IH [of x k'] show ?case by auto
qed

lemma scan_next:
  assumes "dll nx pv h xs" and "length xs < k"
  shows "scan k nx P h (nx h) = Inr (List.find P xs)"
proof (cases xs)
  case Nil
  with assms show ?thesis by (cases k) (auto simp: dll_def)
next
  case (Cons y ys)
  with assms have "links nx pv (y # ys @ [h])" "h \<notin> set (y # ys)" "nx h = y"
    by (auto simp: dll_def)
  with scan_links [of nx pv y ys h k P] assms Cons show ?thesis by simp
qed

lemma scan_prev:
  assumes "dll nx pv h xs" and "length xs < k"
  shows "scan k pv P h (pv h) = Inr (List.find P (rev xs))"
  using scan_next [of pv nx h "rev xs" k P] assms by (simp add: dll_flip [of nx pv])

declare scan.simps [simp del]

end
