(* ===== verification/Cstring.thy ===== *)
theory Cstring
  imports Prelude
begin

text \<open>
  The C string library of the kernel (string.c), together with the x86 string instructions of
  x86.h it uses.
  \<open>memset\<close> and \<open>memmove\<close> are modelled on byte-addressed memory with 32-bit addresses, since
  alignment, overlap and wrap-around matter there. A function that only reads a string takes
  the bytes from its pointer on, as a function of the offset; a function that fills a
  character array returns the array.
\<close>

section \<open>Memory and the x86 string instructions\<close>

definition load32 :: "mem \<Rightarrow> u32 \<Rightarrow> u32" where
  "load32 m a = le32 (m a) (m (a + 1)) (m (a + 2)) (m (a + 3))"

definition store32 :: "u32 \<Rightarrow> u32 \<Rightarrow> mem \<Rightarrow> mem" where
  "store32 a w m = m(a := byte_of 0 w, a + 1 := byte_of 1 w, a + 2 := byte_of 2 w, a + 3 := byte_of 3 w)"

fun stosb :: "u32 \<Rightarrow> u8 \<Rightarrow> nat \<Rightarrow> mem \<Rightarrow> mem" where
  "stosb a v 0 m = m"
| "stosb a v (Suc n) m = stosb (a + 1) v n (m(a := v))"

fun stosl :: "u32 \<Rightarrow> u32 \<Rightarrow> nat \<Rightarrow> mem \<Rightarrow> mem" where
  "stosl a v 0 m = m"
| "stosl a v (Suc n) m = stosl (a + 4) v n (store32 a v m)"

section \<open>memset and memmove\<close>

definition memset :: "u32 \<Rightarrow> u32 \<Rightarrow> u32 \<Rightarrow> mem \<Rightarrow> mem" where
  "memset dst c n m =
     (if dst mod 4 = 0 \<and> n mod 4 = 0 then
        let c = c AND 0xFF in
        stosl dst (push_bit 24 c OR push_bit 16 c OR push_bit 8 c OR c) (unat (n div 4)) m
      else stosb dst (ucast c) (unat n) m)"

fun copy_down :: "u32 \<Rightarrow> u32 \<Rightarrow> nat \<Rightarrow> mem \<Rightarrow> mem" where
  "copy_down d s 0 m = m"
| "copy_down d s (Suc n) m = copy_down (d - 1) (s - 1) n (m(d - 1 := m (s - 1)))"

fun copy_up :: "u32 \<Rightarrow> u32 \<Rightarrow> nat \<Rightarrow> mem \<Rightarrow> mem" where
  "copy_up d s 0 m = m"
| "copy_up d s (Suc n) m = copy_up (d + 1) (s + 1) n (m(d := m s))"

definition memmove :: "u32 \<Rightarrow> u32 \<Rightarrow> u32 \<Rightarrow> mem \<Rightarrow> mem" where
  "memmove dst src n m =
     (if src < dst \<and> src + n > dst then copy_down (dst + n) (src + n) (unat n) m
      else copy_up dst src (unat n) m)"

definition memcpy :: "u32 \<Rightarrow> u32 \<Rightarrow> u32 \<Rightarrow> mem \<Rightarrow> mem" where
  "memcpy dst src n m = memmove dst src n m"

section \<open>Comparison and string copies\<close>

fun memcmp :: "block \<Rightarrow> block \<Rightarrow> nat \<Rightarrow> int" where
  "memcmp s1 s2 0 = 0"
| "memcmp s1 s2 (Suc n) =
     (if s1 0 \<noteq> s2 0 then uint (s1 0) - uint (s2 0)
      else memcmp (\<lambda>i. s1 (Suc i)) (\<lambda>i. s2 (Suc i)) n)"

fun strncmp :: "block \<Rightarrow> block \<Rightarrow> nat \<Rightarrow> int" where
  "strncmp p q 0 = 0"
| "strncmp p q (Suc n) =
     (if p 0 \<noteq> 0 \<and> p 0 = q 0 then strncmp (\<lambda>i. p (Suc i)) (\<lambda>i. q (Suc i)) n
      else uint (p 0) - uint (q 0))"

text \<open>The two loops of \<open>strncpy\<close> at position \<open>i\<close> of the destination, \<open>n\<close> bytes to go.\<close>

fun strncpy_pad :: "nat \<Rightarrow> nat \<Rightarrow> block \<Rightarrow> block" where
  "strncpy_pad i 0 d = d"
| "strncpy_pad i (Suc n) d = strncpy_pad (Suc i) n (d(i := 0))"

fun strncpy_from :: "nat \<Rightarrow> nat \<Rightarrow> block \<Rightarrow> block \<Rightarrow> block" where
  "strncpy_from i 0 t d = d"
| "strncpy_from i (Suc n) t d =
     (if t i \<noteq> 0 then strncpy_from (Suc i) n t (d(i := t i))
      else strncpy_pad (Suc i) n (d(i := t i)))"

definition strncpy :: "block \<Rightarrow> block \<Rightarrow> nat \<Rightarrow> block" where
  "strncpy d t n = strncpy_from 0 n t d"

fun safestrcpy_from :: "nat \<Rightarrow> nat \<Rightarrow> block \<Rightarrow> block \<Rightarrow> block" where
  "safestrcpy_from i 0 t d = d(i := 0)"
| "safestrcpy_from i (Suc n) t d =
     (if t i \<noteq> 0 then safestrcpy_from (Suc i) n t (d(i := t i))
      else (d(i := t i))(Suc i := 0))"

definition safestrcpy :: "block \<Rightarrow> block \<Rightarrow> nat \<Rightarrow> block" where
  "safestrcpy d t n = (if n = 0 then d else safestrcpy_from 0 (n - 1) t d)"

text \<open>\<open>strlen\<close> runs until it finds a zero byte: \<open>None\<close> when there is none.\<close>

partial_function (option) strlen_from :: "nat \<Rightarrow> block \<Rightarrow> nat option" where
  "strlen_from n s = (if s n = 0 then Some n else strlen_from (Suc n) s)"

definition strlen :: "block \<Rightarrow> nat option" where
  "strlen s = strlen_from 0 s"

section \<open>memset fills, whatever the alignment\<close>

lemma unat_lt2p_u32: "unat w < 2 ^ 32" for w :: u32
  using unsigned_less [where 'a = nat, of w] by simp

lemma unat_pred: "y \<noteq> 0 \<Longrightarrow> unat (y - 1) = unat y - 1" for y :: u32
  by (metis One_nat_def unat_minus_one)

lemma stosb_at:
  "k \<le> 2 ^ 32 \<Longrightarrow> stosb a v k m x = (if unat (x - a) < k then v else m x)"
proof (induction k arbitrary: a m)
  case 0
  then show ?case by simp
next
  case (Suc k)
  have "unat (x - (a + 1)) < k \<longleftrightarrow> unat (x - a) < Suc k" if "x \<noteq> a"
    using unat_pred [of "x - a"] that Suc.prems by (cases "unat (x - a)") (auto simp: algebra_simps unat_eq_0)
  with Suc show ?case by auto
qed

lemma bit_low_byte: "bit (c AND 0xFF) i \<longleftrightarrow> i < 8 \<and> bit c i" for c :: u32
proof -
  have "(0xFF :: u32) = mask 8" by (simp add: mask_eq_exp_minus_1)
  then show ?thesis by (simp only: bit_and_iff bit_mask_iff) auto
qed

lemma byte_of_rep:
  assumes "k < 4"
  shows "byte_of k (push_bit 24 (c AND 0xFF) OR push_bit 16 (c AND 0xFF) OR push_bit 8 (c AND 0xFF) OR (c AND 0xFF)) = ucast c"
proof -
  define e where "e = c AND 0xFF"
  have e: "bit e i \<longleftrightarrow> i < 8 \<and> bit c i" for i unfolding e_def by (rule bit_low_byte)
  have "byte_of k (push_bit 24 e OR push_bit 16 e OR push_bit 8 e OR e) = ucast c"
  proof (rule bit_word_eqI)
    fix n assume n: "n < LENGTH(8)"
    from assms have "k = 0 \<or> k = 1 \<or> k = 2 \<or> k = 3" by auto
    then show "bit (byte_of k (push_bit 24 e OR push_bit 16 e OR push_bit 8 e OR e)) n
        = bit (ucast c :: u8) n"
      using n by (elim disjE) (auto simp: byte_of_def bit_simps e)
  qed
  then show ?thesis by (simp only: e_def)
qed

lemma unat_numeral4: "unat (4 :: u32) = 4"
  by simp

lemma stosl_stosb:
  assumes "\<And>k. k < 4 \<Longrightarrow> byte_of k w = v"
  shows "stosl a w n m = stosb a v (4 * n) m"
proof (induction n arbitrary: a m)
  case 0
  then show ?case by simp
next
  case (Suc n)
  have "store32 a w m = m(a := v, a + 1 := v, a + 2 := v, a + 3 := v)"
    using assms by (simp add: store32_def)
  moreover have "4 * Suc n = Suc (Suc (Suc (Suc (4 * n))))" by simp
  moreover have "a + 1 + 1 = a + 2" "a + 2 + 1 = a + 3" "a + 3 + 1 = a + 4" by simp_all
  ultimately show ?case by (simp only: stosl.simps stosb.simps Suc.IH)
qed

lemma memset_at: "memset dst c n m x = (if x - dst < n then ucast c else m x)"
proof -
  have n: "unat n \<le> 2 ^ 32" by (metis less_imp_le unat_lt2p_u32)
  have fill: "stosl dst w (unat (n div 4)) m = stosb dst (ucast c) (unat n) m"
    if "n mod 4 = 0" and "\<And>k. k < 4 \<Longrightarrow> byte_of k w = ucast c" for w
  proof -
    have "4 * unat (n div 4) = unat n"
      using that(1) by (metis add.right_neutral div_mult_mod_eq mult.commute unat_0 unat_div_distrib unat_mod_distrib unat_numeral4)
    with stosl_stosb [OF that(2)] show ?thesis by simp
  qed
  have "memset dst c n m x = stosb dst (ucast c) (unat n) m x"
  proof (cases "dst mod 4 = 0 \<and> n mod 4 = 0")
    case True
    then show ?thesis
      unfolding memset_def Let_def if_P [OF True] by (simp only: fill [OF conjunct2 [OF True] byte_of_rep])
  qed (auto simp: memset_def)
  also have "\<dots> = (if x - dst < n then ucast c else m x)"
    using stosb_at [OF n] by (simp add: word_less_nat_alt)
  finally show ?thesis .
qed

section \<open>memmove copies, whatever the overlap\<close>

lemma address_split: "x = d + of_nat (unat (x - d))" for x :: u32
  by simp

lemma unat_add_nat:
  "unat d + j < 2 ^ 32 \<Longrightarrow> unat (d + of_nat j :: u32) = unat d + j"
  by (simp add: unat_word_ariths unat_of_nat)

lemma copy_up_at:
  assumes "unat s + n \<le> 2 ^ 32" "unat d + n \<le> 2 ^ 32" "unat d \<le> unat s \<or> unat s + n \<le> unat d"
  shows "copy_up d s n m x = (if unat (x - d) < n then m (s + (x - d)) else m x)"
  using assms
proof (induction n arbitrary: d s m)
  case 0
  then show ?case by simp
next
  case (Suc n)
  show ?case
  proof (cases "n = 0")
    case True
    then show ?thesis by (auto simp: unat_eq_0)
  next
    case False
    then have s1: "unat (s + 1) = unat s + 1" "unat (d + 1) = unat d + 1"
      using Suc.prems unat_add_nat [of s 1] unat_add_nat [of d 1] by auto
    have "copy_up (d + 1) (s + 1) n (m(d := m s)) x =
        (if unat (x - (d + 1)) < n then (m(d := m s)) (s + 1 + (x - (d + 1))) else (m(d := m s)) x)"
      by (rule Suc.IH) (use Suc.prems s1 in auto)
    moreover have "unat (x - (d + 1)) < n \<longleftrightarrow> unat (x - d) < Suc n \<and> x \<noteq> d"
      if "x \<noteq> d" 
      using unat_pred [of "x - d"] that by (cases "unat (x - d)") (auto simp: algebra_simps unat_eq_0)
    moreover have "\<not> unat (x - (d + 1)) < n" if "x = d"
      using that Suc.prems by (simp add: unsigned_minus_1_eq_mask mask_eq_exp_minus_1)
    moreover have "s + (x - d) \<noteq> d" if "unat (x - d) < Suc n" "x \<noteq> d"
    proof -
      define j where "j = unat (x - d)"
      have j: "0 < j" "j < Suc n" using that by (auto simp: j_def unat_gt_0)
      then have "unat (s + (x - d)) = unat s + j"
        using unat_add_nat [of s j] Suc.prems by (simp add: j_def)
      then have "unat (s + (x - d)) \<noteq> unat d" using j Suc.prems by linarith
      then show ?thesis by metis
    qed
    ultimately show ?thesis by (auto simp: algebra_simps)
  qed
qed

lemma copy_down_at:
  assumes "unat s + n \<le> 2 ^ 32" "unat d + n \<le> 2 ^ 32" "unat s < unat d"
  shows "copy_down (d + of_nat n) (s + of_nat n) n m x =
    (if unat (x - d) < n then m (s + (x - d)) else m x)"
  using assms
proof (induction n arbitrary: m)
  case 0
  then show ?case by simp
next
  case (Suc n)
  let ?m = "m(d + of_nat n := m (s + of_nat n))"
  have "copy_down (d + of_nat (Suc n)) (s + of_nat (Suc n)) (Suc n) m x =
      (if unat (x - d) < n then ?m (s + (x - d)) else ?m x)"
    using Suc by simp
  moreover have "x = d + of_nat n \<longleftrightarrow> unat (x - d) = n"
    using address_split [of x d] unat_add_nat [of 0 n] Suc.prems by (auto simp: algebra_simps)
  moreover have "s + (x - d) \<noteq> d + of_nat n" if "unat (x - d) < n"
  proof -
    define j where "j = unat (x - d)"
    have "unat (s + (x - d)) = unat s + j" "unat (d + of_nat n) = unat d + n"
      using unat_add_nat [of s j] unat_add_nat [of d n] Suc.prems that by (auto simp: j_def)
    then have "unat (s + (x - d)) \<noteq> unat (d + of_nat n)" using that Suc.prems by (simp add: j_def)
    then show ?thesis by metis
  qed
  ultimately show ?case by (auto simp: less_Suc_eq)
qed

lemma memmove_at:
  assumes "unat src + unat n < 2 ^ 32" and "unat dst + unat n < 2 ^ 32"
  shows "memmove dst src n m x = (if x - dst < n then m (src + (x - dst)) else m x)"
proof -
  have sum: "unat (src + n) = unat src + unat n"
    using unat_add_nat [of src "unat n"] assms by simp
  show ?thesis
  proof (cases "src < dst \<and> src + n > dst")
    case True
    with copy_down_at [of src "unat n" dst m x] assms show ?thesis
      by (simp add: memmove_def word_less_nat_alt)
  next
    case False
    with sum have "unat dst \<le> unat src \<or> unat src + unat n \<le> unat dst"
      by (auto simp: word_less_nat_alt)
    with copy_up_at [of src "unat n" dst m x] assms have
      "copy_up dst src (unat n) m x = (if x - dst < n then m (src + (x - dst)) else m x)"
      by (simp add: word_less_nat_alt)
    with False show ?thesis by (auto simp: memmove_def)
  qed
qed

section \<open>Strings\<close>

text \<open>The C string held in the first \<open>n\<close> bytes of an array: up to the first zero byte.\<close>

definition cstr :: "nat \<Rightarrow> block \<Rightarrow> u8 list" where
  "cstr n p = takeWhile (\<lambda>c. c \<noteq> 0) (map p [0..<n])"

lemma cstr_Suc: "cstr (Suc n) p = (if p 0 = 0 then [] else p 0 # cstr n (\<lambda>i. p (Suc i)))"
  by (simp add: cstr_def upt_conv_Cons map_Suc_upt [symmetric] comp_def del: upt_Suc)

lemma cstr_0 [simp]: "cstr 0 p = []"
  by (simp add: cstr_def)

lemma strncmp_eq_0: "strncmp p q n = 0 \<longleftrightarrow> cstr n p = cstr n q"
proof (induction n arbitrary: p q)
  case (Suc n)
  then show ?case
    by (auto simp: cstr_Suc unsigned_eq_0_iff dest: unsigned_word_eqI)
qed simp

lemma memcmp_eq_0: "memcmp p q n = 0 \<longleftrightarrow> (\<forall>i<n. p i = q i)"
proof (induction n arbitrary: p q)
  case (Suc n)
  then show ?case by (auto simp: All_less_Suc2 dest: unsigned_word_eqI)
qed simp

lemma strncpy_pad_at: "strncpy_pad i n d j = (if i \<le> j \<and> j < i + n then 0 else d j)"
  by (induction n arbitrary: i d) auto

lemma strncpy_from_at:
  "strncpy_from i n t d j =
     (if i \<le> j \<and> j < i + n then (if \<exists>k. i \<le> k \<and> k \<le> j \<and> t k = 0 then 0 else t j) else d j)"
proof (induction n arbitrary: i d)
  case (Suc n)
  have split: "(\<exists>k. i \<le> k \<and> k \<le> j \<and> t k = 0) \<longleftrightarrow> i \<le> j \<and> t i = 0 \<or> (\<exists>k. Suc i \<le> k \<and> k \<le> j \<and> t k = 0)"
  proof -
    have "{k. i \<le> k \<and> k \<le> j} = (if i \<le> j then insert i {k. Suc i \<le> k \<and> k \<le> j} else {})"
      by auto
    then have "(\<exists>k \<in> {k. i \<le> k \<and> k \<le> j}. t k = 0) \<longleftrightarrow>
        i \<le> j \<and> t i = 0 \<or> (\<exists>k \<in> {k. Suc i \<le> k \<and> k \<le> j}. t k = 0)"
      by (auto split: if_splits)
    then show ?thesis by simp
  qed
  show ?case
    unfolding split by (auto simp: Suc.IH strncpy_pad_at)
qed auto

lemma strncpy_at:
  "strncpy d t n j = (if j < n then (if \<exists>k\<le>j. t k = 0 then 0 else t j) else d j)"
  by (simp add: strncpy_def strncpy_from_at)

lemma cstr_cong: "(\<And>i. i < n \<Longrightarrow> p i = q i) \<Longrightarrow> cstr n p = cstr n q"
  unfolding cstr_def by (rule arg_cong [where f = "takeWhile _"]) simp

lemma ex_le_Suc: "(\<exists>k\<le>Suc i. P k) \<longleftrightarrow> P 0 \<or> (\<exists>k\<le>i. P (Suc k))"
  using Ex_less_Suc2 [of "Suc i" P] by (simp add: less_Suc_eq_le)

lemma cstr_strncpy: "cstr n (strncpy d t n) = cstr n t"
proof (induction n arbitrary: d t)
  case (Suc n)
  have "cstr n (\<lambda>i. strncpy d t (Suc n) (Suc i)) = cstr n (\<lambda>i. t (Suc i))" if "t 0 \<noteq> 0"
  proof -
    have "cstr n (\<lambda>i. strncpy d t (Suc n) (Suc i)) = cstr n (strncpy d (\<lambda>i. t (Suc i)) n)"
      by (rule cstr_cong) (use that in \<open>auto simp: strncpy_at ex_le_Suc\<close>)
    then show ?thesis by (simp add: Suc.IH)
  qed
  then show ?case by (auto simp: cstr_Suc strncpy_at)
qed simp

text \<open>\<open>safestrcpy\<close> leaves a terminated string in the array: at most \<open>n - 1\<close> bytes of the source.\<close>

lemma safestrcpy_from_cstr:
  "\<exists>k\<le>i + n. safestrcpy_from i n t d k = 0 \<and> i \<le> k \<and> (\<forall>j. i \<le> j \<and> j < k \<longrightarrow> safestrcpy_from i n t d j = t j \<and> t j \<noteq> 0)
     \<and> (\<forall>j<i. safestrcpy_from i n t d j = d j) \<and> (k < i + n \<longrightarrow> t k = 0)"
proof (induction n arbitrary: i d)
  case 0
  then show ?case by (intro exI [of _ i]) auto
next
  case (Suc n)
  show ?case
  proof (cases "t i = 0")
    case True
    then show ?thesis by (intro exI [of _ i]) auto
  next
    case False
    from Suc.IH [of "Suc i" "d(i := t i)"] obtain k where k: "k \<le> Suc i + n" "Suc i \<le> k"
      "safestrcpy_from (Suc i) n t (d(i := t i)) k = 0"
      "\<forall>j. Suc i \<le> j \<and> j < k \<longrightarrow> safestrcpy_from (Suc i) n t (d(i := t i)) j = t j \<and> t j \<noteq> 0"
      "\<forall>j<Suc i. safestrcpy_from (Suc i) n t (d(i := t i)) j = (d(i := t i)) j"
      "k < Suc i + n \<longrightarrow> t k = 0"
      by blast
    show ?thesis
    proof (intro exI [of _ k] conjI allI impI)
      fix j assume "i \<le> j \<and> j < k"
      then show "safestrcpy_from i (Suc n) t d j = t j" "t j \<noteq> 0"
        using k False by (cases "j = i"; force)+
    qed (use k False in auto)
  qed
qed

lemma cstr_upto_nul:
  assumes "k < n" and "p k = 0" and "\<forall>j<k. p j = t j \<and> t j \<noteq> 0"
  shows "cstr n p = map t [0..<k]"
  using assms
proof (induction k arbitrary: n p t)
  case 0
  then show ?case by (cases n) (auto simp: cstr_Suc)
next
  case (Suc k)
  then obtain m where m: "n = Suc m" by (cases n) auto
  with Suc.prems Suc.IH [of m "\<lambda>i. p (Suc i)" "\<lambda>i. t (Suc i)"]
  have "cstr m (\<lambda>i. p (Suc i)) = map (\<lambda>i. t (Suc i)) [0..<k]" by simp
  moreover have "p 0 = t 0" "t 0 \<noteq> 0" using Suc.prems by auto
  ultimately show ?case
    by (simp add: m cstr_Suc upt_conv_Cons map_Suc_upt [symmetric] comp_def del: upt_Suc)
qed

lemma cstr_safestrcpy:
  assumes "0 < n"
  shows "cstr n (safestrcpy d t n) = cstr (n - 1) t"
proof -
  obtain k where k: "k \<le> n - 1" "safestrcpy d t n k = 0"
    "\<forall>j<k. safestrcpy d t n j = t j \<and> t j \<noteq> 0" "k < n - 1 \<longrightarrow> t k = 0"
    using safestrcpy_from_cstr [of 0 "n - 1" t d] assms by (auto simp: safestrcpy_def)
  have "cstr n (safestrcpy d t n) = map t [0..<k]"
    by (rule cstr_upto_nul) (use k assms in auto)
  moreover have "cstr (n - 1) t = map t [0..<k]"
  proof (cases "k < n - 1")
    case True
    then show ?thesis by (intro cstr_upto_nul) (use k in auto)
  next
    case False
    with k have "k = n - 1" by simp
    then show ?thesis using k(3) by (simp add: cstr_def takeWhile_eq_all_conv)
  qed
  ultimately show ?thesis by simp
qed

lemma strlen_at:
  assumes "s k = 0" and "\<forall>j<k. s j \<noteq> 0"
  shows "strlen s = Some k"
proof -
  have "strlen_from i s = Some k" if "i \<le> k" for i
    using that
  proof (induction "k - i" arbitrary: i)
    case 0
    with assms show ?case by (simp add: strlen_from.simps)
  next
    case (Suc n)
    with assms show ?case by (subst strlen_from.simps) auto
  qed
  then show ?thesis by (simp add: strlen_def)
qed

section \<open>Properties\<close>

text \<open>
  C31: \<open>memmove\<close> copies \<open>n\<close> bytes correctly for every overlap of source and destination, when
  neither range runs past the end of the address space, and changes nothing else.
\<close>

theorem memmove_overlap:
  assumes "unat src + unat n < 2 ^ 32" "unat dst + unat n < 2 ^ 32"
  shows "memmove dst src n m x = (if x - dst < n then m (src + (x - dst)) else m x)"
  using assms by (rule memmove_at)

theorem memmove_overlap_witness:
  "memmove 0x1002 0x1000 6 (\<lambda>a. ucast a) 0x1005 = 3 \<and> memmove 0x1000 0x1002 6 (\<lambda>a. ucast a) 0x1005 = 7"
  using memmove_overlap [of "0x1000" 6 "0x1002" "\<lambda>a. ucast a" "0x1005"]
    memmove_overlap [of "0x1002" 6 "0x1000" "\<lambda>a. ucast a" "0x1005"]
  by simp

text \<open>
  C32: \<open>memset\<close> fills exactly the \<open>n\<close> bytes from \<open>dst\<close>, in the word-at-a-time case as in the
  byte-at-a-time one, wrapping at the end of the address space.
\<close>

theorem memset_fills: "memset dst c n m x = (if x - dst < n then ucast c else m x)"
  by (rule memset_at)

text \<open>
  C33: \<open>strncpy\<close> stores a name that \<open>strncmp\<close> then finds equal, whatever its length, and touches
  the \<open>n\<close> bytes of the array only; \<open>safestrcpy\<close> keeps what fits and always terminates it.
\<close>

theorem string_copies:
  "strncmp (strncpy d t n) t n = 0 \<and> (\<forall>i\<ge>n. strncpy d t n i = d i) \<and>
   cstr (Suc n) (safestrcpy d t (Suc n)) = cstr n t"
  by (simp add: strncmp_eq_0 cstr_strncpy cstr_safestrcpy strncpy_at)

theorem string_copies_witness:
  "strncmp (strncpy (\<lambda>_. 9) (\<lambda>i. if i < 3 then 65 else 0) 14) (\<lambda>i. if i < 3 then 65 else 0) 14 = 0"
  using string_copies [of "\<lambda>_. 9" "\<lambda>i. if i < 3 then 65 else 0" 14] by simp

end
