(* ===== verification/Kalloc.thy ===== *)
theory Kalloc
  imports Cstring
begin

text \<open>
  The physical page allocator (kalloc.c), with the address arithmetic of memlayout.h and mmu.h it
  uses. The free list is kept the way the code keeps it, inside the free pages: the first four
  bytes of a free page hold the address of the next one. The state is the base of the kernel
  state record that later components extend.
\<close>

section \<open>Addresses\<close>

definition PGSIZE :: u32 where "PGSIZE = 4096"
definition EXTMEM :: u32 where "EXTMEM = 0x100000"
definition PHYSTOP :: u32 where "PHYSTOP = 0xE000000"
definition KERNBASE :: u32 where "KERNBASE = 0x80000000"
definition DEVSPACE :: u32 where "DEVSPACE = 0xFE000000"

definition v2p :: "u32 \<Rightarrow> u32" where "v2p a = a - KERNBASE"
definition p2v :: "u32 \<Rightarrow> u32" where "p2v a = a + KERNBASE"

definition PGROUNDUP :: "u32 \<Rightarrow> u32" where
  "PGROUNDUP sz = (sz + PGSIZE - 1) AND NOT (PGSIZE - 1)"

definition PGROUNDDOWN :: "u32 \<Rightarrow> u32" where
  "PGROUNDDOWN a = a AND NOT (PGSIZE - 1)"

section \<open>The allocator\<close>

record kmem_state =
  mem :: mem          \<comment> \<open>memory, by kernel virtual address\<close>
  kernel_end :: u32   \<comment> \<open>\<open>end\<close>: first address after the kernel, fixed by the linker\<close>
  use_lock :: bool    \<comment> \<open>\<open>kmem.use_lock\<close>\<close>
  freelist :: u32     \<comment> \<open>\<open>kmem.freelist\<close>\<close>

definition kfree :: "u32 \<Rightarrow> 'a kmem_state_scheme \<Rightarrow> 'a kmem_state_scheme kres" where
  "kfree v s =
     (if v mod PGSIZE \<noteq> 0 \<or> v < kernel_end s \<or> v2p v \<ge> PHYSTOP then Inl (Panic ''kfree'')
      else let s = s\<lparr>mem := memset v 1 PGSIZE (mem s)\<rparr>;
               s = s\<lparr>mem := store32 v (freelist s) (mem s)\<rparr>
           in Inr (s\<lparr>freelist := v\<rparr>))"

definition kalloc :: "'a kmem_state_scheme \<Rightarrow> u32 \<times> 'a kmem_state_scheme" where
  "kalloc s =
     (let r = freelist s
      in (r, if r \<noteq> 0 then s\<lparr>freelist := load32 (mem s) r\<rparr> else s))"

fun freerange_loop :: "nat \<Rightarrow> u32 \<Rightarrow> u32 \<Rightarrow> 'a kmem_state_scheme \<Rightarrow> 'a kmem_state_scheme kres" where
  "freerange_loop 0 p vend s = Inl Diverge"
| "freerange_loop (Suc k) p vend s =
     (if p + PGSIZE \<le> vend then kbind (kfree p s) (freerange_loop k (p + PGSIZE) vend) else Inr s)"

definition freerange :: "u32 \<Rightarrow> u32 \<Rightarrow> 'a kmem_state_scheme \<Rightarrow> 'a kmem_state_scheme kres" where
  "freerange vstart vend s = freerange_loop (2 ^ 20) (PGROUNDUP vstart) vend s"

definition kinit1 :: "u32 \<Rightarrow> u32 \<Rightarrow> 'a kmem_state_scheme \<Rightarrow> 'a kmem_state_scheme kres" where
  "kinit1 vstart vend s = freerange vstart vend (s\<lparr>use_lock := False\<rparr>)"

definition kinit2 :: "u32 \<Rightarrow> u32 \<Rightarrow> 'a kmem_state_scheme \<Rightarrow> 'a kmem_state_scheme kres" where
  "kinit2 vstart vend s = kbind (freerange vstart vend s) (\<lambda>s. Inr (s\<lparr>use_lock := True\<rparr>))"

section \<open>The free list as a list of pages\<close>

definition valid_page :: "'a kmem_state_scheme \<Rightarrow> u32 \<Rightarrow> bool" where
  "valid_page s v \<longleftrightarrow> v mod PGSIZE = 0 \<and> kernel_end s \<le> v \<and> v2p v < PHYSTOP"

fun chain :: "mem \<Rightarrow> u32 \<Rightarrow> u32 list \<Rightarrow> bool" where
  "chain m p [] \<longleftrightarrow> p = 0"
| "chain m p (q # qs) \<longleftrightarrow> p = q \<and> q \<noteq> 0 \<and> chain m (load32 m q) qs"

definition kmem_inv :: "u32 list \<Rightarrow> 'a kmem_state_scheme \<Rightarrow> bool" where
  "kmem_inv ps s \<longleftrightarrow> chain (mem s) (freelist s) ps \<and> distinct ps \<and> (\<forall>v \<in> set ps. valid_page s v)"

lemma chain_unique: "chain m p ps \<Longrightarrow> chain m p qs \<Longrightarrow> ps = qs"
proof (induction ps arbitrary: p qs)
  case Nil
  then show ?case by (cases qs) auto
next
  case (Cons x xs)
  then show ?case by (cases qs) auto
qed

lemma load32_store32_same [simp]: "load32 (store32 a w m) a = w"
  by (simp add: load32_def store32_def)

lemma chain_cong:
  assumes "\<And>q. q \<in> set ps \<Longrightarrow> load32 m' q = load32 m q"
  shows "chain m' p ps = chain m p ps"
  using assms by (induction ps arbitrary: p) auto

text \<open>Distinct aligned pages do not overlap.\<close>

lemma unat_4096: "unat (4096 :: u32) = 4096"
  by simp

lemma pages_apart:
  fixes q v j :: u32
  assumes "q mod 4096 = 0" "v mod 4096 = 0" "q \<noteq> v" "j < 4096"
  shows "\<not> q + j - v < 4096"
proof -
  define d where "d = q - v"
  have "4096 dvd unat q" "4096 dvd unat v"
    using assms(1,2) unat_mod_distrib [of q 4096] unat_mod_distrib [of v 4096]
    by (simp_all add: dvd_eq_mod_eq_0)
  moreover have "(4096 :: nat) dvd 2 ^ 32" by simp
  ultimately have dvd: "4096 dvd unat d"
    unfolding d_def unat_sub_if' by (simp add: dvd_diff_nat)
  moreover have "unat d \<noteq> 0" using assms(3) by (simp add: d_def unat_eq_0)
  ultimately have d: "4096 \<le> unat d" by (simp add: dvd_imp_le)
  from dvd obtain k where k: "unat d = 4096 * k" ..
  with unat_lt2p_u32 [of d] have "k < 2 ^ 20" by simp
  with k have "unat d \<le> 2 ^ 32 - 4096" by simp
  moreover have j: "unat j < 4096" using assms(4) by (simp add: word_less_nat_alt)
  ultimately have "unat (d + of_nat (unat j)) = unat d + unat j"
    by (intro unat_add_nat) simp
  then have "4096 \<le> unat (d + j)" using d by simp
  moreover have "q + j - v = d + j" by (simp add: d_def)
  ultimately show ?thesis by (metis not_less unat_4096 word_less_nat_alt)
qed

lemma in_page_0: "unat j < 4096 \<Longrightarrow> v + j - v < (4096 :: u32)"
  by (simp add: word_less_nat_alt)

lemma word_lt_4: "(0 :: u32) < 4" "(1 :: u32) < 4" "(2 :: u32) < 4" "(3 :: u32) < 4"
  by simp_all

lemma load32_cong: "(\<And>j. j < 4 \<Longrightarrow> m' (a + j) = m (a + j)) \<Longrightarrow> load32 m' a = load32 m a"
  by (metis add.right_neutral load32_def word_lt_4(1-4))

definition page_of :: "u32 \<Rightarrow> u32 set" where
  "page_of v = {x. x - v < PGSIZE}"

lemma store32_outside: "x \<notin> page_of v \<Longrightarrow> store32 v w m x = m x"
  by (auto simp: store32_def page_of_def PGSIZE_def)

lemma kfree_mem_outside:
  assumes "kfree v s = Inr s'" and "x \<notin> page_of v"
  shows "mem s' x = mem s x"
  using assms by (auto simp: kfree_def store32_outside memset_at page_of_def kres Let_def)

lemma load32_other_page:
  assumes "q mod PGSIZE = 0" "v mod PGSIZE = 0" "q \<noteq> v" "\<And>x. x \<notin> page_of v \<Longrightarrow> m' x = m x"
  shows "load32 m' q = load32 m q"
proof (rule load32_cong)
  fix j :: u32 assume "j < 4"
  then have "j < 4096" by (simp add: word_less_nat_alt)
  with pages_apart [of q v j] assms(1-3) have "q + j \<notin> page_of v"
    by (simp add: page_of_def PGSIZE_def)
  with assms(4) show "m' (q + j) = m (q + j)" by blast
qed

lemma valid_page_nonzero: "valid_page s v \<Longrightarrow> v \<noteq> 0"
  by (auto simp: valid_page_def v2p_def KERNBASE_def PHYSTOP_def)

lemma kfree_ok:
  assumes "kmem_inv ps s" "valid_page s v" "v \<notin> set ps"
  shows "\<exists>s'. kfree v s = Inr s' \<and> kmem_inv (v # ps) s' \<and> freelist s' = v"
proof -
  define s' where "s' = s\<lparr>mem := store32 v (freelist s) (memset v 1 PGSIZE (mem s)), freelist := v\<rparr>"
  then have s': "kfree v s = Inr s'" "freelist s' = v" "kernel_end s' = kernel_end s"
    "load32 (mem s') v = freelist s"
    using assms(2) by (simp_all add: kfree_def valid_page_def Let_def not_less not_le)
  have "load32 (mem s') q = load32 (mem s) q" if "q \<in> set ps" for q
    by (rule load32_other_page [of q v])
      (use that assms kfree_mem_outside [OF s'(1)] in \<open>auto simp: kmem_inv_def valid_page_def\<close>)
  then have "chain (mem s') p ps = chain (mem s) p ps" for p
    by (rule chain_cong)
  with s' assms valid_page_nonzero [OF assms(2)] show ?thesis
    by (auto simp: kmem_inv_def valid_page_def)
qed

lemma kalloc_ok:
  assumes "kmem_inv ps s"
  shows "kalloc s = (case ps of [] \<Rightarrow> (0, s) | v # _ \<Rightarrow> (v, s\<lparr>freelist := load32 (mem s) v\<rparr>))"
    and "kmem_inv (tl ps) (snd (kalloc s))"
  using assms by (cases ps; auto simp: kalloc_def kmem_inv_def valid_page_def)+

lemma kfree_panics: "kfree v s = Inl e \<longleftrightarrow> \<not> valid_page s v \<and> e = Panic ''kfree''"
  by (auto simp: kfree_def valid_page_def Let_def)

lemma and_not_mask_mod: "(x AND NOT 4095) mod 4096 = 0" for x :: u32
proof -
  have "take_bit 12 (x AND NOT (mask 12)) = 0"
    by (rule bit_word_eqI) (simp add: bit_simps)
  then show ?thesis by (simp add: take_bit_eq_mod mask_eq_exp_minus_1)
qed

lemma PGROUNDUP_aligned: "PGROUNDUP x mod PGSIZE = 0"
  unfolding PGROUNDUP_def PGSIZE_def using and_not_mask_mod [of "x + 4096 - 1"] by simp

text \<open>The pages \<open>freerange\<close> gives to the allocator, in the order it frees them.\<close>

definition range_pages :: "u32 \<Rightarrow> nat \<Rightarrow> u32 list" where
  "range_pages p n = map (\<lambda>i. p + of_nat (4096 * i)) [0..<n]"

lemma range_pages_Suc: "range_pages p (Suc n) = p # range_pages (p + PGSIZE) n"
  unfolding range_pages_def
  by (subst upt_conv_Cons) (simp_all add: map_Suc_upt [symmetric] comp_def PGSIZE_def algebra_simps del: upt_Suc)

lemma freerange_loop_ok:
  assumes "n < k" "kmem_inv ps s" "p mod PGSIZE = 0" "kernel_end s \<le> p"
    "unat KERNBASE \<le> unat p" "unat p + 4096 * n \<le> unat vend" "unat vend < unat p + 4096 * Suc n"
    "unat vend \<le> unat KERNBASE + unat PHYSTOP"
    "set (range_pages p n) \<inter> set ps = {}"
  shows "\<exists>s'. freerange_loop k p vend s = Inr s' \<and> kmem_inv (rev (range_pages p n) @ ps) s'"
  using assms
proof (induction n arbitrary: k p ps s)
  case 0
  obtain k' where "k = Suc k'" using 0 by (cases k) auto
  moreover have "unat (p + PGSIZE) = unat p + 4096"
    using unat_add_nat [of p 4096] 0 by (simp add: PGSIZE_def KERNBASE_def PHYSTOP_def)
  ultimately show ?case using 0 by (simp add: word_le_nat_alt range_pages_def)
next
  case (Suc n)
  obtain k' where k: "k = Suc k'" using Suc.prems by (cases k) auto
  have p1: "unat (p + PGSIZE) = unat p + 4096"
    using unat_add_nat [of p 4096] Suc.prems by (simp add: PGSIZE_def KERNBASE_def PHYSTOP_def)
  have "valid_page s p"
    using Suc.prems by (simp add: valid_page_def v2p_def word_less_nat_alt word_le_nat_alt unat_sub)
  moreover have "p \<notin> set ps" using Suc.prems by (simp add: range_pages_Suc)
  ultimately obtain s' where s': "kfree p s = Inr s'" "kmem_inv (p # ps) s'"
    using kfree_ok [OF Suc.prems(2)] by blast
  have "kernel_end s' = kernel_end s" using s'(1) by (auto simp: kfree_def Let_def kres)
  moreover have "(p + PGSIZE) mod PGSIZE = 0"
  proof -
    have "unat ((p + PGSIZE) mod PGSIZE) = (unat p + 4096) mod 4096"
      using p1 by (simp add: unat_mod_distrib PGSIZE_def)
    also have "\<dots> = unat (p mod PGSIZE)" by (simp add: unat_mod_distrib PGSIZE_def)
    finally show ?thesis using Suc.prems(3) by (simp add: unat_eq_0)
  qed
  moreover have "p \<notin> set (range_pages (p + PGSIZE) n)"
  proof
    assume "p \<in> set (range_pages (p + PGSIZE) n)"
    then obtain i where i: "i < n" "p = p + PGSIZE + of_nat (4096 * i)"
      unfolding range_pages_def by auto
    then have "unat (p + PGSIZE + of_nat (4096 * i)) = unat p + 4096 + 4096 * i"
      using p1 unat_add_nat [of "p + PGSIZE" "4096 * i"] Suc.prems unat_lt2p_u32 [of vend] by simp
    with i(2) have "unat p = unat p + 4096 + 4096 * i" by metis
    then show False by simp
  qed
  ultimately have "\<exists>t. freerange_loop k' (p + PGSIZE) vend s' = Inr t
      \<and> kmem_inv (rev (range_pages (p + PGSIZE) n) @ p # ps) t"
    using Suc.prems s' p1 k
    by (intro Suc.IH) (auto simp: range_pages_Suc word_le_nat_alt)
  then show ?case
    using s' k p1 Suc.prems by (simp add: range_pages_Suc word_le_nat_alt)
qed

lemma freerange_ok:
  assumes "kmem_inv ps s" "kernel_end s \<le> PGROUNDUP vstart"
    "KERNBASE \<le> PGROUNDUP vstart" "PGROUNDUP vstart \<le> vend" "unat vend \<le> unat KERNBASE + unat PHYSTOP"
    and n: "n = (unat vend - unat (PGROUNDUP vstart)) div 4096"
    and "set (range_pages (PGROUNDUP vstart) n) \<inter> set ps = {}"
  shows "\<exists>s'. freerange vstart vend s = Inr s' \<and> kmem_inv (rev (range_pages (PGROUNDUP vstart) n) @ ps) s'"
  unfolding freerange_def
proof (rule freerange_loop_ok)
  have le: "unat (PGROUNDUP vstart) \<le> unat vend" using assms by (simp add: word_le_nat_alt)
  let ?d = "unat vend - unat (PGROUNDUP vstart)"
  have "4096 * n \<le> ?d" "?d < 4096 * Suc n"
    using n by (simp_all add: dividend_less_times_div mult.commute)
  then show "unat (PGROUNDUP vstart) + 4096 * n \<le> unat vend" "unat vend < unat (PGROUNDUP vstart) + 4096 * Suc n"
    using le by linarith+
  then show "n < 2 ^ 20" using unat_lt2p_u32 [of vend] by simp
qed (use assms PGROUNDUP_aligned in \<open>auto simp: word_le_nat_alt\<close>)

section \<open>Properties\<close>

text \<open>
  C29: Freeing a page that is not free puts it on the list, keeps the free pages distinct, aligned and
  outside the kernel, and touches the page only; the next allocation hands it out and leaves the
  rest of the list.
\<close>

theorem kfree_kalloc:
  assumes "kmem_inv ps s" "valid_page s v" "v \<notin> set ps"
  shows "\<exists>s1 s2. kfree v s = Inr s1 \<and> kmem_inv (v # ps) s1 \<and> (\<forall>x. x \<notin> page_of v \<longrightarrow> mem s1 x = mem s x) \<and>
    kalloc s1 = (v, s2) \<and> kmem_inv ps s2 \<and> mem s2 = mem s1"
proof -
  obtain s1 where s1: "kfree v s = Inr s1" "kmem_inv (v # ps) s1" using kfree_ok [OF assms] by blast
  have "kalloc s1 = (v, s1\<lparr>freelist := load32 (mem s1) v\<rparr>)" "kmem_inv ps (snd (kalloc s1))"
    using kalloc_ok [OF s1(2)] by simp_all
  with s1 kfree_mem_outside [OF s1(1)] show ?thesis by auto
qed

definition ex_kmem :: kmem_state where
  "ex_kmem = \<lparr>mem = (\<lambda>_. 0), kernel_end = 0x80110000, use_lock = False, freelist = 0\<rparr>"

theorem kfree_kalloc_witness:
  "\<exists>s1 s2. kfree 0x80200000 ex_kmem = Inr s1 \<and> kmem_inv [0x80200000] s1 \<and>
    (\<forall>x. x \<notin> page_of 0x80200000 \<longrightarrow> mem s1 x = mem ex_kmem x) \<and>
    kalloc s1 = (0x80200000, s2) \<and> kmem_inv [] s2 \<and> mem s2 = mem s1"
  by (rule kfree_kalloc) (simp_all add: kmem_inv_def valid_page_def ex_kmem_def PGSIZE_def v2p_def KERNBASE_def PHYSTOP_def)

text \<open>
  C30: \<open>kinit1\<close> over a range of kernel addresses behind the kernel puts every whole page of the range
  on the free list, highest first, and nothing else: its loop ends.
\<close>

theorem kinit1_frees:
  assumes "kmem_inv [] s" "kernel_end s \<le> PGROUNDUP vstart" "KERNBASE \<le> PGROUNDUP vstart"
    "PGROUNDUP vstart \<le> vend" "unat vend \<le> unat KERNBASE + unat PHYSTOP"
  shows "\<exists>s'. kinit1 vstart vend s = Inr s' \<and>
    kmem_inv (rev (range_pages (PGROUNDUP vstart) ((unat vend - unat (PGROUNDUP vstart)) div 4096))) s'"
proof -
  have "kmem_inv [] (s\<lparr>use_lock := False\<rparr>)" using assms(1) by (simp add: kmem_inv_def)
  from freerange_ok [OF this _ _ _ assms(5) refl, of vstart] assms(2-4) show ?thesis by (simp add: kinit1_def)
qed

theorem kinit1_frees_witness:
  "\<exists>s'. kinit1 0x80110001 0x80114800 ex_kmem = Inr s' \<and> kmem_inv [0x80113000, 0x80112000, 0x80111000] s'"
proof -
  have r: "PGROUNDUP 0x80110001 = 0x80111000" by (simp add: PGROUNDUP_def PGSIZE_def)
  have p: "rev (range_pages 0x80111000 3) = [0x80113000, 0x80112000, 0x80111000]"
    by (simp add: range_pages_def upt_rec)
  show ?thesis using kinit1_frees [of ex_kmem "0x80110001" "0x80114800"]
    by (simp add: r kmem_inv_def [of "[]"] ex_kmem_def KERNBASE_def PHYSTOP_def p)
qed

end
