(* ===== verification/Proc.thy ===== *)
theory Proc
  imports Kalloc
begin

text \<open>
  The process table (proc.h and the part of proc.c that works on the table alone): allocation of
  a slot, wakeup and kill. The table extends the state of the page allocator; the file system and
  the system calls extend it further. The critical sections under \<open>ptable.lock\<close> are steps of the
  machine with several CPUs in the theory of the scheduler.
\<close>

section \<open>Data\<close>

definition NPROC :: nat where "NPROC = 64"
definition KSTACKSIZE :: u32 where "KSTACKSIZE = 4096"
definition NOFILE :: nat where "NOFILE = 16"

datatype procstate = UNUSED | EMBRYO | SLEEPING | RUNNABLE | RUNNING | ZOMBIE

record trapframe =
  tf_edi :: u32
  tf_esi :: u32
  tf_ebp :: u32
  tf_oesp :: u32
  tf_ebx :: u32
  tf_edx :: u32
  tf_ecx :: u32
  tf_eax :: u32
  tf_gs :: u16
  tf_fs :: u16
  tf_es :: u16
  tf_ds :: u16
  tf_trapno :: u32
  tf_err :: u32
  tf_eip :: u32
  tf_cs :: u16
  tf_eflags :: u32
  tf_esp :: u32
  tf_ss :: u16

record kcontext =
  ctx_edi :: u32
  ctx_esi :: u32
  ctx_ebx :: u32
  ctx_ebp :: u32
  ctx_eip :: u32

text \<open>
  The trap frame and the saved context of a process live at the top of its kernel stack, with
  the return address of \<open>forkret\<close> between them; the model keeps the three as fields.
\<close>

record proc =
  sz :: u32
  pgdir :: u32
  kstack :: u32
  state :: procstate
  pid :: u32
  parent :: "nat option"
  tf :: trapframe
  kret :: u32
  ctxt :: kcontext
  chan :: "chan option"
  killed :: bool
  ofile :: "nat \<Rightarrow> nat option"
  cwd :: "nat option"
  pname :: block
  npath :: block
  alarmticks :: u32
  alarmhandler :: u32
  curalarmtick :: u32
  keyboardHandler :: u32

record proc_state = kmem_state +
  ptable :: "nat \<Rightarrow> proc"
  nextpid :: u32
  initproc :: "nat option"
  cur :: "nat option"     \<comment> \<open>\<open>proc\<close>: the process running on this CPU\<close>
  trapret_addr :: u32     \<comment> \<open>the address of \<open>trapret\<close>, fixed by the linker\<close>
  forkret_addr :: u32     \<comment> \<open>the address of \<open>forkret\<close>, fixed by the linker\<close>

definition upd_proc :: "nat \<Rightarrow> (proc \<Rightarrow> proc) \<Rightarrow> 'a proc_state_scheme \<Rightarrow> 'a proc_state_scheme" where
  "upd_proc p f s = s\<lparr>ptable := (ptable s)(p := f (ptable s p))\<rparr>"

section \<open>Operations\<close>

definition wakeup1 :: "chan option \<Rightarrow> 'a proc_state_scheme \<Rightarrow> 'a proc_state_scheme" where
  "wakeup1 c s = s\<lparr>ptable := (\<lambda>p. if p < NPROC \<and> state (ptable s p) = SLEEPING \<and> chan (ptable s p) = c
                             then (ptable s p)\<lparr>state := RUNNABLE\<rparr> else ptable s p)\<rparr>"

definition wakeup :: "chan \<Rightarrow> 'a proc_state_scheme \<Rightarrow> 'a proc_state_scheme" where
  "wakeup c s = wakeup1 (Some c) s"

definition allocproc :: "'a proc_state_scheme \<Rightarrow> nat option \<times> 'a proc_state_scheme" where
  "allocproc s =
     (case List.find (\<lambda>p. state (ptable s p) = UNUSED) [0..<NPROC] of
        None \<Rightarrow> (None, s)
      | Some p \<Rightarrow>
          let s = upd_proc p (\<lambda>q. q\<lparr>state := EMBRYO, pid := nextpid s\<rparr>) s;
              s = s\<lparr>nextpid := nextpid s + 1\<rparr>;
              (k, s) = kalloc s;
              s = upd_proc p (\<lambda>q. q\<lparr>kstack := k\<rparr>) s
          in if k = 0 then (None, upd_proc p (\<lambda>q. q\<lparr>state := UNUSED\<rparr>) s)
             else (Some p, upd_proc p (\<lambda>q. q\<lparr>kret := trapret_addr s,
                     ctxt := \<lparr>ctx_edi = 0, ctx_esi = 0, ctx_ebx = 0, ctx_ebp = 0,
                              ctx_eip = forkret_addr s\<rparr>\<rparr>) s))"

definition kill :: "u32 \<Rightarrow> 'a proc_state_scheme \<Rightarrow> int \<times> 'a proc_state_scheme" where
  "kill n s =
     (case List.find (\<lambda>p. pid (ptable s p) = n) [0..<NPROC] of
        None \<Rightarrow> (-1, s)
      | Some p \<Rightarrow> (0, upd_proc p (\<lambda>q. q\<lparr>killed := True,
                 state := (if state q = SLEEPING then RUNNABLE else state q)\<rparr>) s))"

end
