(* ===== verification/Bio.thy ===== *)
theory Bio
  imports Proc
begin

text \<open>
  The disk (memide.c, the disk of the xv6memfs configuration) and the buffer cache (bio.c, buf.h).
  The cache is modelled with its prev and next pointers: a buffer is its index in \<open>bcache.buf\<close>,
  and index \<open>NBUF\<close> is \<open>bcache.head\<close>. The lemmas relate the pointer structure to the list of
  buffers from most to least recently used, and the cache to the contents of the disk it
  stands for.
\<close>

section \<open>Data\<close>

definition NBUF :: nat where "NBUF = 10"
definition BSIZE :: nat where "BSIZE = 512"

definition B_BUSY :: u32 where "B_BUSY = 0x1"
definition B_VALID :: u32 where "B_VALID = 0x2"
definition B_DIRTY :: u32 where "B_DIRTY = 0x4"

lemmas B_defs [flag_simps] = B_BUSY_def B_VALID_def B_DIRTY_def

record buf =
  b_flags :: u32
  b_dev :: u32
  b_sector :: u32
  b_prev :: nat
  b_next :: nat
  b_data :: block

record bio_state = proc_state +
  bufs :: "nat \<Rightarrow> buf"                \<comment> \<open>\<open>bcache.buf\<close> and, at \<open>NBUF\<close>, \<open>bcache.head\<close>\<close>
  disk :: "u32 \<Rightarrow> block"              \<comment> \<open>\<open>memdisk\<close>, by sector\<close>
  disksize :: u32
  writes :: "(u32 \<times> block) list"      \<comment> \<open>history variable: the sectors written, oldest first\<close>

definition upd_buf :: "nat \<Rightarrow> (buf \<Rightarrow> buf) \<Rightarrow> 'a bio_state_scheme \<Rightarrow> 'a bio_state_scheme" where
  "upd_buf b f s = s\<lparr>bufs := (bufs s)(b := f (bufs s b))\<rparr>"

abbreviation flags_of :: "'a bio_state_scheme \<Rightarrow> nat \<Rightarrow> u32" where
  "flags_of s b \<equiv> b_flags (bufs s b)"

section \<open>memide.c: the disk\<close>

definition iderw :: "nat \<Rightarrow> 'a bio_state_scheme \<Rightarrow> 'a bio_state_scheme kres" where
  "iderw b s =
     (if flags_of s b AND B_BUSY = 0 then Inl (Panic ''iderw: buf not busy'')
      else if flags_of s b AND (B_VALID OR B_DIRTY) = B_VALID then Inl (Panic ''iderw: nothing to do'')
      else if b_dev (bufs s b) \<noteq> 1 then Inl (Panic ''iderw: request not for disk 1'')
      else if b_sector (bufs s b) \<ge> disksize s then Inl (Panic ''iderw: sector out of range'')
      else
        let p = b_sector (bufs s b);
            s = (if flags_of s b AND B_DIRTY \<noteq> 0 then
                   let s = upd_buf b (\<lambda>x. x\<lparr>b_flags := b_flags x AND NOT B_DIRTY\<rparr>) s
                   in s\<lparr>disk := (disk s)(p := b_data (bufs s b)), writes := writes s @ [(p, b_data (bufs s b))]\<rparr>
                 else upd_buf b (\<lambda>x. x\<lparr>b_data := disk s p\<rparr>) s)
        in Inr (upd_buf b (\<lambda>x. x\<lparr>b_flags := b_flags x OR B_VALID\<rparr>) s))"

section \<open>bio.c: the buffer cache\<close>

definition binit_step :: "nat \<Rightarrow> 'a bio_state_scheme \<Rightarrow> 'a bio_state_scheme" where
  "binit_step b s =
     (let s = upd_buf b (\<lambda>x. x\<lparr>b_next := b_next (bufs s NBUF)\<rparr>) s;
          s = upd_buf b (\<lambda>x. x\<lparr>b_prev := NBUF\<rparr>) s;
          s = upd_buf b (\<lambda>x. x\<lparr>b_dev := -1\<rparr>) s;
          s = upd_buf (b_next (bufs s NBUF)) (\<lambda>x. x\<lparr>b_prev := b\<rparr>) s
      in upd_buf NBUF (\<lambda>x. x\<lparr>b_next := b\<rparr>) s)"

definition binit :: "'a bio_state_scheme \<Rightarrow> 'a bio_state_scheme" where
  "binit s =
     (let s = upd_buf NBUF (\<lambda>x. x\<lparr>b_prev := NBUF\<rparr>) s;
          s = upd_buf NBUF (\<lambda>x. x\<lparr>b_next := NBUF\<rparr>) s
      in fold binit_step [0..<NBUF] s)"

definition bget :: "u32 \<Rightarrow> u32 \<Rightarrow> 'a bio_state_scheme \<Rightarrow> (nat \<times> 'a bio_state_scheme) kres" where
  "bget dev sector s =
     kbind (scan (Suc NBUF) (\<lambda>b. b_next (bufs s b))
              (\<lambda>b. b_dev (bufs s b) = dev \<and> b_sector (bufs s b) = sector) NBUF (b_next (bufs s NBUF)))
       (\<lambda>r. case r of
          Some b \<Rightarrow>
            if flags_of s b AND B_BUSY = 0
            then Inr (b, upd_buf b (\<lambda>x. x\<lparr>b_flags := b_flags x OR B_BUSY\<rparr>) s)
            else Inl (Sleep (ChBuf b))
        | None \<Rightarrow>
            kbind (scan (Suc NBUF) (\<lambda>b. b_prev (bufs s b))
                     (\<lambda>b. flags_of s b AND B_BUSY = 0 \<and> flags_of s b AND B_DIRTY = 0)
                     NBUF (b_prev (bufs s NBUF)))
              (\<lambda>r. case r of
                 Some b \<Rightarrow> Inr (b, upd_buf b (\<lambda>x. x\<lparr>b_dev := dev, b_sector := sector, b_flags := B_BUSY\<rparr>) s)
               | None \<Rightarrow> Inl (Panic ''bget: no buffers'')))"

definition bread :: "u32 \<Rightarrow> u32 \<Rightarrow> 'a bio_state_scheme \<Rightarrow> (nat \<times> 'a bio_state_scheme) kres" where
  "bread dev sector s =
     kbind (bget dev sector s) (\<lambda>(b, s).
       if flags_of s b AND B_VALID = 0 then kbind (iderw b s) (\<lambda>s. Inr (b, s)) else Inr (b, s))"

definition bwrite :: "nat \<Rightarrow> 'a bio_state_scheme \<Rightarrow> 'a bio_state_scheme kres" where
  "bwrite b s =
     (if flags_of s b AND B_BUSY = 0 then Inl (Panic ''bwrite'')
      else iderw b (upd_buf b (\<lambda>x. x\<lparr>b_flags := b_flags x OR B_DIRTY\<rparr>) s))"

definition brelse_unlink :: "nat \<Rightarrow> 'a bio_state_scheme \<Rightarrow> 'a bio_state_scheme" where
  "brelse_unlink b s =
     (let s = upd_buf (b_next (bufs s b)) (\<lambda>x. x\<lparr>b_prev := b_prev (bufs s b)\<rparr>) s
      in upd_buf (b_prev (bufs s b)) (\<lambda>x. x\<lparr>b_next := b_next (bufs s b)\<rparr>) s)"

definition brelse_push :: "nat \<Rightarrow> 'a bio_state_scheme \<Rightarrow> 'a bio_state_scheme" where
  "brelse_push b s =
     (let s = upd_buf b (\<lambda>x. x\<lparr>b_next := b_next (bufs s NBUF)\<rparr>) s;
          s = upd_buf b (\<lambda>x. x\<lparr>b_prev := NBUF\<rparr>) s;
          s = upd_buf (b_next (bufs s NBUF)) (\<lambda>x. x\<lparr>b_prev := b\<rparr>) s
      in upd_buf NBUF (\<lambda>x. x\<lparr>b_next := b\<rparr>) s)"

definition brelse :: "nat \<Rightarrow> 'a bio_state_scheme \<Rightarrow> 'a bio_state_scheme kres" where
  "brelse b s =
     (if flags_of s b AND B_BUSY = 0 then Inl (Panic ''brelse'')
      else
        let s = brelse_unlink b s;
            s = brelse_push b s;
            s = upd_buf b (\<lambda>x. x\<lparr>b_flags := b_flags x AND NOT B_BUSY\<rparr>) s
        in Inr (wakeup (ChBuf b) s))"

section \<open>The list of buffers, most recently used first\<close>

definition nx :: "'a bio_state_scheme \<Rightarrow> nat \<Rightarrow> nat" where
  "nx s = (\<lambda>b. b_next (bufs s b))"

definition pv :: "'a bio_state_scheme \<Rightarrow> nat \<Rightarrow> nat" where
  "pv s = (\<lambda>b. b_prev (bufs s b))"

definition mru :: "nat list \<Rightarrow> 'a bio_state_scheme \<Rightarrow> bool" where
  "mru xs s \<longleftrightarrow> dll (nx s) (pv s) NBUF xs \<and> set xs = {..<NBUF}"

lemma nx_upd [simp]:
  "nx (upd_buf c (\<lambda>x. x\<lparr>b_next := v\<rparr>) s) = (nx s)(c := v)"
  "nx (upd_buf c (\<lambda>x. x\<lparr>b_prev := v\<rparr>) s) = nx s"
  "pv (upd_buf c (\<lambda>x. x\<lparr>b_prev := v\<rparr>) s) = (pv s)(c := v)"
  "pv (upd_buf c (\<lambda>x. x\<lparr>b_next := v\<rparr>) s) = pv s"
  by (auto simp: nx_def pv_def upd_buf_def)

lemma mru_length: "mru xs s \<Longrightarrow> length xs = NBUF"
  by (metis card_lessThan distinct.simps(2) distinct_card dll_def mru_def)

lemma upd_buf_apply: "bufs (upd_buf c f s) b = (if b = c then f (bufs s c) else bufs s b)"
  by (simp add: upd_buf_def)

lemma upd_buf_frame [simp]:
  "ptable (upd_buf c f s) = ptable s" "disk (upd_buf c f s) = disk s"
  "disksize (upd_buf c f s) = disksize s" "writes (upd_buf c f s) = writes s"
  by (simp_all add: upd_buf_def)

lemma wakeup_bufs [simp]: "bufs (wakeup c s) = bufs s"
  by (simp add: wakeup_def wakeup1_def)

lemma links_fold:
  "b_next (bufs s c) = nx s c" "b_prev (bufs s c) = pv s c"
  by (simp_all add: nx_def pv_def)

lemma nx_other [simp]:
  "nx (upd_buf c (\<lambda>x. x\<lparr>b_flags := F x\<rparr>) s) = nx s" "pv (upd_buf c (\<lambda>x. x\<lparr>b_flags := F x\<rparr>) s) = pv s"
  "nx (wakeup ch s) = nx s" "pv (wakeup ch s) = pv s"
  by (auto simp: nx_def pv_def upd_buf_def)

text \<open>Everything of a buffer but its links, and everything of the state but the buffers.\<close>

definition core :: "buf \<Rightarrow> u32 \<times> u32 \<times> u32 \<times> block" where
  "core x = (b_flags x, b_dev x, b_sector x, b_data x)"

lemma core_links [simp]:
  "core (bufs (upd_buf c (\<lambda>x. x\<lparr>b_next := v\<rparr>) s) d) = core (bufs s d)"
  "core (bufs (upd_buf c (\<lambda>x. x\<lparr>b_prev := v\<rparr>) s) d) = core (bufs s d)"
  by (simp_all add: core_def upd_buf_def)

lemma core_relink [simp]:
  "core (bufs (brelse_unlink b s) d) = core (bufs s d)"
  "core (bufs (brelse_push b s) d) = core (bufs s d)"
  by (simp_all add: brelse_unlink_def brelse_push_def Let_def)

lemma core_eqD:
  "core x = core y \<Longrightarrow> b_flags x = b_flags y \<and> b_dev x = b_dev y \<and> b_sector x = b_sector y \<and> b_data x = b_data y"
  by (simp add: core_def)

definition bframe :: "'a bio_state_scheme \<Rightarrow> 'a bio_state_scheme \<Rightarrow> bool" where
  "bframe s t \<longleftrightarrow> t = s\<lparr>bufs := bufs t, ptable := ptable t\<rparr>"

lemma bframe_refl [simp, intro]: "bframe s s"
  by (simp add: bframe_def)

lemma bframe_trans: "bframe s t \<Longrightarrow> bframe t u \<Longrightarrow> bframe s u"
  unfolding bframe_def by (metis (no_types) bio_state.surjective bio_state.update_convs(1) proc_state.update_convs(1))

lemma bframe_upd_buf [simp]: "bframe s (upd_buf c f s)"
  by (simp add: bframe_def upd_buf_def)

lemma bframe_wakeup [simp]: "bframe s (wakeup c s)"
  by (simp add: bframe_def wakeup_def wakeup1_def)

lemma bframe_relink [simp]: "bframe s (brelse_unlink b s)" "bframe s (brelse_push b s)"
  unfolding brelse_unlink_def brelse_push_def Let_def by (meson bframe_trans bframe_upd_buf)+

text \<open>\<open>brelse\<close> takes a buffer out of the list and puts it at the front, and clears its busy flag.\<close>

lemma brelse_unlink_dll:
  assumes "dll (nx s) (pv s) NBUF (as @ b # bs)"
  shows "dll (nx (brelse_unlink b s)) (pv (brelse_unlink b s)) NBUF (as @ bs)"
proof -
  have "nx s b \<noteq> b" "pv s b \<noteq> b" using dll_no_self [OF assms, of b] by simp_all
  then have "nx (brelse_unlink b s) = (nx s)(pv s b := nx s b)"
    "pv (brelse_unlink b s) = (pv s)(nx s b := pv s b)"
    by (simp_all add: brelse_unlink_def links_fold Let_def)
  with dll_unlink [OF assms] show ?thesis by simp
qed

lemma brelse_push_dll:
  assumes "dll (nx s) (pv s) NBUF xs" "b \<notin> set (NBUF # xs)"
  shows "dll (nx (brelse_push b s)) (pv (brelse_push b s)) NBUF (b # xs)"
proof -
  have "b \<noteq> NBUF" using assms(2) by simp
  then have "nx (brelse_push b s) = (nx s)(b := nx s NBUF, NBUF := b)"
    "pv (brelse_push b s) = (pv s)(b := NBUF, nx s NBUF := b)"
    by (simp_all add: brelse_push_def links_fold Let_def)
  with dll_push [OF assms] show ?thesis by simp
qed

lemma brelse_mru:
  assumes "mru xs s" "b < NBUF" "brelse b s = Inr s'"
  shows "mru (b # remove1 b xs) s'"
proof -
  from assms have "b \<in> set xs" by (simp add: mru_def)
  then obtain as bs where xs: "xs = as @ b # bs" and nas: "b \<notin> set as" by (metis split_list_first)
  with assms(1) have d: "dll (nx s) (pv s) NBUF (as @ b # bs)" by (simp add: mru_def)
  then have "b \<notin> set (NBUF # as @ bs)" by (auto simp: dll_def)
  from brelse_push_dll [OF brelse_unlink_dll [OF d] this]
  have "dll (nx s') (pv s') NBUF (b # as @ bs)"
    using assms(3) by (auto simp: brelse_def Let_def kres)
  moreover have "remove1 b xs = as @ bs" using xs nas by (simp add: remove1_append)
  ultimately show ?thesis using assms(1) xs by (auto simp: mru_def)
qed

lemma brelse_effect:
  assumes "brelse b s = Inr s'"
  shows "bframe s s'" "flags_of s' c = (if c = b then flags_of s b AND NOT B_BUSY else flags_of s c)"
    "b_dev (bufs s' c) = b_dev (bufs s c)" "b_sector (bufs s' c) = b_sector (bufs s c)"
    "b_data (bufs s' c) = b_data (bufs s c)"
proof -
  define t where "t = brelse_push b (brelse_unlink b s)"
  have s': "s' = wakeup (ChBuf b) (upd_buf b (\<lambda>x. x\<lparr>b_flags := b_flags x AND NOT B_BUSY\<rparr>) t)"
    using assms by (auto simp: brelse_def Let_def kres t_def)
  have "bframe s t" unfolding t_def by (meson bframe_trans bframe_relink)
  then show "bframe s s'" unfolding s' by (meson bframe_trans bframe_upd_buf bframe_wakeup)
  have "core (bufs t c) = core (bufs s c)" "core (bufs t b) = core (bufs s b)" by (simp_all add: t_def)
  note this [THEN core_eqD]
  then show "flags_of s' c = (if c = b then flags_of s b AND NOT B_BUSY else flags_of s c)"
    "b_dev (bufs s' c) = b_dev (bufs s c)" "b_sector (bufs s' c) = b_sector (bufs s c)"
    "b_data (bufs s' c) = b_data (bufs s c)"
    by (simp_all add: s' upd_buf_apply)
qed

section \<open>The cache invariant and the disk the cache stands for\<close>

definition busy :: "'a bio_state_scheme \<Rightarrow> nat \<Rightarrow> bool" where
  "busy s b \<longleftrightarrow> flags_of s b AND B_BUSY \<noteq> 0"

definition valid :: "'a bio_state_scheme \<Rightarrow> nat \<Rightarrow> bool" where
  "valid s b \<longleftrightarrow> flags_of s b AND B_VALID \<noteq> 0"

definition dirty :: "'a bio_state_scheme \<Rightarrow> nat \<Rightarrow> bool" where
  "dirty s b \<longleftrightarrow> flags_of s b AND B_DIRTY \<noteq> 0"

text \<open>Buffer \<open>b\<close> is the one for a sector of disk 1.\<close>

definition holds :: "'a bio_state_scheme \<Rightarrow> nat \<Rightarrow> u32 \<Rightarrow> bool" where
  "holds s b sec \<longleftrightarrow> b < NBUF \<and> b_dev (bufs s b) = 1 \<and> b_sector (bufs s b) = sec"

definition bcache_inv :: "'a bio_state_scheme \<Rightarrow> bool" where
  "bcache_inv s \<longleftrightarrow>
     (\<exists>xs. mru xs s) \<and>
     (\<forall>b<NBUF. b_dev (bufs s b) = 1 \<or> b_dev (bufs s b) = -1 \<and> \<not> busy s b \<and> \<not> valid s b \<and> \<not> dirty s b) \<and>
     (\<forall>a b sec. holds s a sec \<and> holds s b sec \<longrightarrow> a = b) \<and>
     (\<forall>b sec. holds s b sec \<longrightarrow> sec < disksize s \<and> (dirty s b \<longrightarrow> valid s b) \<and> (busy s b \<or> valid s b)) \<and>
     (\<forall>b sec. holds s b sec \<and> \<not> dirty s b \<and> \<not> busy s b \<longrightarrow> b_data (bufs s b) = disk s sec)"

definition bview :: "'a bio_state_scheme \<Rightarrow> u32 \<Rightarrow> block" where
  "bview s sec =
     (case List.find (\<lambda>b. b_dev (bufs s b) = 1 \<and> b_sector (bufs s b) = sec \<and> valid s b) [0..<NBUF] of
        Some b \<Rightarrow> b_data (bufs s b) | None \<Rightarrow> disk s sec)"

lemma bview_cached: "bcache_inv s \<Longrightarrow> holds s b sec \<Longrightarrow> valid s b \<Longrightarrow> bview s sec = b_data (bufs s b)"
proof -
  assume inv: "bcache_inv s" and h: "holds s b sec" and v: "valid s b"
  let ?P = "\<lambda>b. b_dev (bufs s b) = 1 \<and> b_sector (bufs s b) = sec \<and> valid s b"
  obtain c where c: "List.find ?P [0..<NBUF] = Some c"
    using h v find_upt_None [of ?P NBUF] by (cases "List.find ?P [0..<NBUF]") (auto simp: holds_def)
  then have "holds s c sec" using find_upt_Some [of ?P NBUF c] by (simp add: holds_def)
  with inv h have "c = b" by (auto simp: bcache_inv_def)
  with c show ?thesis by (simp add: bview_def)
qed

lemma bview_uncached: "(\<And>b. holds s b sec \<Longrightarrow> \<not> valid s b) \<Longrightarrow> bview s sec = disk s sec"
  unfolding bview_def
  by (subst find_upt_None [THEN iffD2]) (auto simp: holds_def)

lemma bview_eqI:
  assumes "bcache_inv s"
    and "\<And>b. holds s b sec \<Longrightarrow> valid s b \<Longrightarrow> b_data (bufs s b) = d"
    and "(\<And>b. holds s b sec \<Longrightarrow> \<not> valid s b) \<Longrightarrow> disk s sec = d"
  shows "bview s sec = d"
  using assms bview_cached bview_uncached by metis

lemma flag_bits:
  "busy s b \<longleftrightarrow> bit (flags_of s b) 0" "valid s b \<longleftrightarrow> bit (flags_of s b) 1" "dirty s b \<longleftrightarrow> bit (flags_of s b) 2"
  by (simp_all add: busy_def valid_def dirty_def flag_simps)

lemma B_bits [simp]:
  "bit B_BUSY n \<longleftrightarrow> n = 0" "bit B_VALID n \<longleftrightarrow> n = 1" "bit B_DIRTY n \<longleftrightarrow> n = 2"
proof -
  have "bit B_BUSY n \<longleftrightarrow> bit (2 ^ 0 :: u32) n" "bit B_VALID n \<longleftrightarrow> bit (2 ^ 1 :: u32) n"
    "bit B_DIRTY n \<longleftrightarrow> bit (2 ^ 2 :: u32) n"
    by (simp_all add: B_defs)
  then show "bit B_BUSY n \<longleftrightarrow> n = 0" "bit B_VALID n \<longleftrightarrow> n = 1" "bit B_DIRTY n \<longleftrightarrow> n = 2"
    by (auto simp only: bit_exp_iff) auto
qed

lemma and_flags:
  "w AND B_BUSY = 0 \<longleftrightarrow> \<not> bit w 0" "w AND B_VALID = 0 \<longleftrightarrow> \<not> bit w 1" "w AND B_DIRTY = 0 \<longleftrightarrow> \<not> bit w 2"
  "w AND (B_VALID OR B_DIRTY) = B_VALID \<longleftrightarrow> bit w 1 \<and> \<not> bit w 2"
  by (simp_all add: flag_simps)

lemma mru_bufs_links:
  assumes "mru xs s" and "\<And>b. b_next (bufs t b) = b_next (bufs s b)" "\<And>b. b_prev (bufs t b) = b_prev (bufs s b)"
  shows "mru xs t"
  using assms by (simp add: mru_def nx_def pv_def)

lemma find_SomeD: "List.find P xs = Some x \<Longrightarrow> x \<in> set xs \<and> P x"
  by (auto simp: find_Some_iff)

text \<open>\<open>bget\<close> on the list of buffers: the scan from the front for the sector, then the scan from the back.\<close>

lemma bget_mru:
  assumes "mru xs s"
  shows "bget dv sec s =
    (case List.find (\<lambda>c. b_dev (bufs s c) = dv \<and> b_sector (bufs s c) = sec) xs of
       Some b \<Rightarrow> if busy s b then Inl (Sleep (ChBuf b))
                 else Inr (b, upd_buf b (\<lambda>x. x\<lparr>b_flags := b_flags x OR B_BUSY\<rparr>) s)
     | None \<Rightarrow> (case List.find (\<lambda>c. \<not> busy s c \<and> \<not> dirty s c) (rev xs) of
         Some b \<Rightarrow> Inr (b, upd_buf b (\<lambda>x. x\<lparr>b_dev := dv, b_sector := sec, b_flags := B_BUSY\<rparr>) s)
       | None \<Rightarrow> Inl (Panic ''bget: no buffers'')))"
proof -
  have d: "dll (\<lambda>b. b_next (bufs s b)) (\<lambda>b. b_prev (bufs s b)) NBUF xs"
    using assms(1) by (simp add: mru_def nx_def pv_def)
  have len: "length xs < Suc NBUF" using mru_length [OF assms(1)] by simp
  show ?thesis
    unfolding bget_def scan_next [OF d len] scan_prev [OF d len] busy_def dirty_def
    by (simp split: option.split)
qed

lemma bget_cases:
  assumes "mru xs s" "bget dv sec s = Inr (b, s')"
  obtains (hit) "b < NBUF" "b_dev (bufs s b) = dv" "b_sector (bufs s b) = sec" "\<not> busy s b"
      "s' = upd_buf b (\<lambda>x. x\<lparr>b_flags := b_flags x OR B_BUSY\<rparr>) s"
  | (miss) "b < NBUF" "\<forall>c<NBUF. \<not> (b_dev (bufs s c) = dv \<and> b_sector (bufs s c) = sec)"
      "\<not> busy s b" "\<not> dirty s b"
      "s' = upd_buf b (\<lambda>x. x\<lparr>b_dev := dv, b_sector := sec, b_flags := B_BUSY\<rparr>) s"
proof -
  have xs: "c \<in> set xs \<longleftrightarrow> c < NBUF" for c using assms(1) by (auto simp: mru_def)
  let ?P = "\<lambda>c. b_dev (bufs s c) = dv \<and> b_sector (bufs s c) = sec"
  show ?thesis
  proof (cases "List.find ?P xs")
    case None
    with assms(2) have "List.find (\<lambda>c. \<not> busy s c \<and> \<not> dirty s c) (rev xs) = Some b"
        and s': "s' = upd_buf b (\<lambda>x. x\<lparr>b_dev := dv, b_sector := sec, b_flags := B_BUSY\<rparr>) s"
      unfolding bget_mru [OF assms(1)] by (auto split: option.splits)
    then have "b \<in> set xs" "\<not> busy s b" "\<not> dirty s b"
      by (auto dest!: find_SomeD)
    with None s' show ?thesis by (intro miss) (auto simp: find_None_iff xs)
  next
    case (Some c)
    with assms(2) have "b = c" "\<not> busy s c"
        "s' = upd_buf b (\<lambda>x. x\<lparr>b_flags := b_flags x OR B_BUSY\<rparr>) s"
      unfolding bget_mru [OF assms(1)] by (auto split: if_splits)
    with find_SomeD [OF Some] show ?thesis by (intro hit) (auto simp: xs)
  qed
qed

section \<open>Changing one buffer\<close>

text \<open>
  The state \<open>t\<close> differs from \<open>s\<close> in buffer \<open>b\<close>, which holds sector \<open>sec\<close> of disk 1 in \<open>t\<close>, in the order
  of the list, and in the contents of that sector on the disk.
\<close>

definition one_buf :: "nat \<Rightarrow> u32 \<Rightarrow> 'a bio_state_scheme \<Rightarrow> 'a bio_state_scheme \<Rightarrow> bool" where
  "one_buf b sec s t \<longleftrightarrow>
     b < NBUF \<and> (\<exists>xs. mru xs t) \<and> (\<forall>c. c \<noteq> b \<longrightarrow> core (bufs t c) = core (bufs s c)) \<and>
     b_dev (bufs t b) = 1 \<and> b_sector (bufs t b) = sec \<and>
     (\<forall>c. c \<noteq> b \<longrightarrow> \<not> holds s c sec) \<and> (holds s b sec \<or> \<not> dirty s b \<and> \<not> busy s b) \<and>
     disksize t = disksize s \<and> sec < disksize s \<and> (\<forall>x. x \<noteq> sec \<longrightarrow> disk t x = disk s x)"

lemma one_buf_flags: "one_buf b sec s t \<Longrightarrow> c \<noteq> b \<Longrightarrow> core (bufs t c) = core (bufs s c)"
  by (simp add: one_buf_def)

lemma one_buf_holds:
  assumes "one_buf b sec s t"
  shows "holds t c x \<longleftrightarrow> (if c = b then x = sec else holds s c x)"
  using assms core_eqD [OF one_buf_flags [OF assms, of c]]
  by (cases "c = b") (auto simp: holds_def, simp_all add: one_buf_def)

lemma flags_cong:
  "core (bufs t c) = core (bufs s c) \<Longrightarrow>
     busy t c = busy s c \<and> valid t c = valid s c \<and> dirty t c = dirty s c \<and>
     b_data (bufs t c) = b_data (bufs s c) \<and> b_dev (bufs t c) = b_dev (bufs s c)"
  by (simp add: busy_def valid_def dirty_def core_def)

lemma mru_flags: "mru xs (upd_buf b (\<lambda>x. x\<lparr>b_flags := F x\<rparr>) s) = mru xs s"
  "mru xs (upd_buf b (\<lambda>x. x\<lparr>b_data := D x\<rparr>) s) = mru xs s"
  "mru xs (upd_buf b (\<lambda>x. x\<lparr>b_data := D x, b_flags := F x\<rparr>) s) = mru xs s"
  "mru xs (upd_buf b (\<lambda>x. x\<lparr>b_dev := v, b_sector := w, b_data := D x, b_flags := F x\<rparr>) s) = mru xs s"
  by (auto intro: mru_bufs_links simp: upd_buf_apply)

lemma bcache_invD:
  assumes "bcache_inv s"
  shows "\<exists>xs. mru xs s"
    and "b < NBUF \<Longrightarrow> b_dev (bufs s b) = 1 \<or> b_dev (bufs s b) = -1 \<and> \<not> busy s b \<and> \<not> valid s b \<and> \<not> dirty s b"
    and "holds s a sec \<Longrightarrow> holds s b sec \<Longrightarrow> a = b"
    and "holds s b sec \<Longrightarrow> sec < disksize s"
    and "holds s b sec \<Longrightarrow> dirty s b \<Longrightarrow> valid s b"
    and "holds s b sec \<Longrightarrow> busy s b \<or> valid s b"
    and "holds s b sec \<Longrightarrow> \<not> dirty s b \<Longrightarrow> \<not> busy s b \<Longrightarrow> b_data (bufs s b) = disk s sec"
  using assms unfolding bcache_inv_def by blast+

lemma one_buf_inv:
  assumes ob: "one_buf b sec s t" and inv: "bcache_inv s"
    and fl: "dirty t b \<Longrightarrow> valid t b" "busy t b \<or> valid t b"
    and data: "\<not> dirty t b \<Longrightarrow> \<not> busy t b \<Longrightarrow> b_data (bufs t b) = disk t sec"
  shows "bcache_inv t"
  unfolding bcache_inv_def
proof (intro conjI allI impI)
  note h = one_buf_holds [OF ob] and o = one_buf_flags [OF ob] and f = flags_cong [OF o]
  from ob have ds: "disksize t = disksize s" "sec < disksize s" and dev: "b_dev (bufs t b) = 1" "b < NBUF"
    by (auto simp: one_buf_def)
  show "\<exists>xs. mru xs t" using ob by (simp add: one_buf_def)
  fix c assume "c < NBUF"
  then show "b_dev (bufs t c) = 1 \<or> b_dev (bufs t c) = - 1 \<and> \<not> busy t c \<and> \<not> valid t c \<and> \<not> dirty t c"
    using bcache_invD(2) [OF inv, of c] dev f [of c] by (cases "c = b") auto
next
  note h = one_buf_holds [OF ob]
  fix a c x assume "holds t a x \<and> holds t c x"
  moreover have "\<not> holds s d sec" if "d \<noteq> b" for d using that ob by (auto simp: one_buf_def)
  ultimately show "a = c" using bcache_invD(3) [OF inv, of a x c]
    by (cases "a = b"; cases "c = b") (simp_all add: h)
next
  note h = one_buf_holds [OF ob] and o = one_buf_flags [OF ob]
  fix c x assume c: "holds t c x"
  have ds: "disksize t = disksize s" "sec < disksize s" using ob by (auto simp: one_buf_def)
  show "x < disksize t" using c bcache_invD(4) [OF inv, of c x] ds by (auto simp: h split: if_splits)
  show "busy t c \<or> valid t c"
    using c bcache_invD(6) [OF inv, of c x] fl(2) flags_cong [OF o [of c]] by (auto simp: h split: if_splits)
  assume "dirty t c"
  then show "valid t c"
    using c bcache_invD(5) [OF inv, of c x] fl(1) flags_cong [OF o [of c]] by (auto simp: h split: if_splits)
next
  note h = one_buf_holds [OF ob] and o = one_buf_flags [OF ob]
  fix c x assume c: "holds t c x \<and> \<not> dirty t c \<and> \<not> busy t c"
  show "b_data (bufs t c) = disk t x"
  proof (cases "c = b")
    case True with c data show ?thesis by (simp add: h)
  next
    case False
    moreover have "\<not> holds s d sec" if "d \<noteq> b" for d using that ob by (auto simp: one_buf_def)
    with False c have "x \<noteq> sec" by (auto simp: h)
    ultimately show ?thesis
      using c bcache_invD(7) [OF inv, of c x] flags_cong [OF o [of c]] ob
      by (simp add: h one_buf_def)
  qed
qed

lemma one_buf_bview:
  assumes ob: "one_buf b sec s t" and inv: "bcache_inv s" "bcache_inv t"
  shows "bview t = (bview s)(sec := (if valid t b then b_data (bufs t b) else disk t sec))"
proof
  fix x
  note h = one_buf_holds [OF ob] and o = one_buf_flags [OF ob]
  show "bview t x = ((bview s)(sec := if valid t b then b_data (bufs t b) else disk t sec)) x"
  proof (cases "x = sec")
    case True
    have "\<not> holds s d sec" if "d \<noteq> b" for d using that ob by (auto simp: one_buf_def)
    then have "holds t c sec \<longleftrightarrow> c = b" for c by (auto simp: h)
    with True show ?thesis by (auto intro!: bview_eqI inv)
  next
    case False
    have old: "bview s x = disk s x" if "holds s b x"
    proof (rule bview_eqI [OF inv(1)])
      fix c assume "holds s c x" "valid s c"
      with that have "c = b" using bcache_invD(3) [OF inv(1)] by blast
      from that False have "\<not> holds s b sec" by (auto simp: holds_def)
      with ob have "\<not> dirty s b" "\<not> busy s b" by (simp_all add: one_buf_def)
      with \<open>c = b\<close> show "b_data (bufs s c) = disk s x" using bcache_invD(7) [OF inv(1) that] by simp
    qed simp
    have dk: "disk t x = disk s x" using False ob by (simp add: one_buf_def)
    have "bview t x = bview s x"
    proof (rule bview_eqI [OF inv(2)])
      fix c assume "holds t c x" "valid t c"
      with False have "c \<noteq> b" "holds s c x" by (auto simp: h split: if_splits)
      with \<open>valid t c\<close> show "b_data (bufs t c) = bview s x"
        using bview_cached [OF inv(1)] flags_cong [OF o [of c]] by simp
    next
      assume nv: "\<And>c. holds t c x \<Longrightarrow> \<not> valid t c"
      have "bview s x = disk s x"
      proof (cases "holds s b x")
        case False
        then have "\<not> valid s c" if "holds s c x" for c
          using nv [of c] that flags_cong [OF o [of c]] by (cases "c = b") (auto simp: h)
        then show ?thesis by (rule bview_uncached)
      qed (rule old)
      with dk show "disk t x = bview s x" by simp
    qed
    with False show ?thesis by simp
  qed
qed

section \<open>The operations against the disk the cache stands for\<close>

text \<open>\<open>owns s b sec\<close>: buffer \<open>b\<close> is locked by its user and has the contents of sector \<open>sec\<close>.\<close>

definition owns :: "'a bio_state_scheme \<Rightarrow> nat \<Rightarrow> u32 \<Rightarrow> bool" where
  "owns s b sec \<longleftrightarrow> holds s b sec \<and> busy s b \<and> valid s b"

definition bufframe :: "'a bio_state_scheme \<Rightarrow> 'a bio_state_scheme \<Rightarrow> bool" where
  "bufframe s t \<longleftrightarrow> t = s\<lparr>bufs := bufs t\<rparr>"

lemma upd_buf_bufframe [simp]: "bufframe s (upd_buf b f s)"
  by (simp add: bufframe_def upd_buf_def)

lemma iderw_read:
  assumes "busy s b" "\<not> valid s b" "b_dev (bufs s b) = 1" "b_sector (bufs s b) < disksize s" "\<not> dirty s b"
  shows "iderw b s = Inr (upd_buf b (\<lambda>x. x\<lparr>b_data := disk s (b_sector x), b_flags := b_flags x OR B_VALID\<rparr>) s)"
  using assms unfolding iderw_def and_flags flag_bits
  by (simp add: upd_buf_def Let_def)

lemma iderw_write:
  assumes "busy s b" "dirty s b" "b_dev (bufs s b) = 1" "b_sector (bufs s b) < disksize s"
  shows "iderw b s = Inr ((upd_buf b (\<lambda>x. x\<lparr>b_flags := b_flags x AND NOT B_DIRTY OR B_VALID\<rparr>) s)
           \<lparr>disk := (disk s)(b_sector (bufs s b) := b_data (bufs s b)),
            writes := writes s @ [(b_sector (bufs s b), b_data (bufs s b))]\<rparr>)"
  using assms unfolding iderw_def and_flags flag_bits
  by (simp add: upd_buf_def Let_def)

lemma iderw_returns_dev:
  "iderw b s = Inr s' \<Longrightarrow> b_dev (bufs s b) = 1 \<and> b_sector (bufs s b) < disksize s"
  by (auto simp: iderw_def kres)

text \<open>
  A returning \<open>bread\<close> hands out the locked buffer of the sector with the contents the cache stands
  for; every other buffer, the view and the set of dirty sectors stay.
\<close>

definition reads :: "'a bio_state_scheme \<Rightarrow> nat \<Rightarrow> u32 \<Rightarrow> 'a bio_state_scheme \<Rightarrow> bool" where
  "reads s b sec s' \<longleftrightarrow> one_buf b sec s s' \<and> bufframe s s' \<and> \<not> busy s b \<and> busy s' b \<and> valid s' b \<and>
     (dirty s' b \<longleftrightarrow> dirty s b \<and> holds s b sec) \<and> b_data (bufs s' b) = bview s sec"

lemma bread_hit:
  assumes inv: "bcache_inv s" and b: "b < NBUF" "b_dev (bufs s b) = 1" "b_sector (bufs s b) = sec" "\<not> busy s b"
  shows "reads s b sec (upd_buf b (\<lambda>x. x\<lparr>b_flags := b_flags x OR B_BUSY\<rparr>) s)"
proof -
  have h: "holds s b sec" using b by (simp add: holds_def)
  with b(4) have v: "valid s b" using bcache_invD(6) [OF inv h] by simp
  have u: "\<forall>c. c \<noteq> b \<longrightarrow> \<not> holds s c sec" using bcache_invD(3) [OF inv _ h] by blast
  have "one_buf b sec s (upd_buf b (\<lambda>x. x\<lparr>b_flags := b_flags x OR B_BUSY\<rparr>) s)"
    using b h bcache_invD(1) [OF inv] bcache_invD(4) [OF inv h] u
    by (auto simp: one_buf_def upd_buf_apply mru_flags)
  with b v h show ?thesis
    by (simp add: reads_def bview_cached [OF inv h v] flag_bits upd_buf_apply bit_or_iff)
qed

lemma bread_miss:
  assumes inv: "bcache_inv s" and b: "b < NBUF" "\<not> busy s b" "\<not> dirty s b" and sec: "sec < disksize s"
    and none: "\<forall>c<NBUF. \<not> (b_dev (bufs s c) = 1 \<and> b_sector (bufs s c) = sec)"
    and s': "s' = upd_buf b (\<lambda>x. x\<lparr>b_dev := 1, b_sector := sec, b_data := disk s sec, b_flags := B_BUSY OR B_VALID\<rparr>) s"
  shows "reads s b sec s'"
proof -
  have n: "\<not> holds s c sec" for c using none by (auto simp: holds_def)
  then have "bview s sec = disk s sec" by (intro bview_uncached) simp
  moreover have "one_buf b sec s s'" using b n sec s' bcache_invD(1) [OF inv] by (simp add: one_buf_def upd_buf_apply mru_flags)
  ultimately show ?thesis using b n s' by (simp add: reads_def flag_bits upd_buf_apply bit_or_iff)
qed

lemma bread_reads:
  assumes inv: "bcache_inv s" and br: "bread dv sec s = Inr (b, s')"
  shows "dv = 1 \<and> reads s b sec s'"
proof -
  obtain xs where m: "mru xs s" using bcache_invD(1) [OF inv] by blast
  from br obtain t where g: "bget dv sec s = Inr (b, t)"
    and r: "(if valid t b then Inr (b, t) else kbind (iderw b t) (\<lambda>s. Inr (b, s))) = Inr (b, s')"
    by (auto simp: bread_def kbind_returns valid_def split: if_splits)
  from m g show ?thesis
  proof (cases rule: bget_cases)
    case hit
    have dev: "b_dev (bufs t b) = b_dev (bufs s b)" and v: "valid t b \<longleftrightarrow> valid s b"
      using hit by (simp_all add: upd_buf_apply flag_bits bit_or_iff)
    have "b_dev (bufs s b) = 1"
    proof (rule ccontr)
      assume n: "b_dev (bufs s b) \<noteq> 1"
      then have "\<not> valid t b" using bcache_invD(2) [OF inv \<open>b < NBUF\<close>] v by simp
      with r obtain u where "iderw b t = Inr u" by (auto simp: kbind_returns)
      with iderw_returns_dev dev n show False by metis
    qed
    moreover from this hit have h: "holds s b sec" by (simp add: holds_def)
    then have "valid s b" using bcache_invD(6) [OF inv h] hit(4) by simp
    with v r have "s' = t" by simp
    ultimately show ?thesis using bread_hit [OF inv, of b sec] hit by simp
  next
    case miss
    have t: "b_dev (bufs t b) = dv" "b_sector (bufs t b) = sec" "busy t b" "\<not> valid t b" "\<not> dirty t b"
      "disksize t = disksize s"
      using miss by (simp_all add: upd_buf_apply flag_bits)
    with r obtain u where "iderw b t = Inr u" by (auto simp: kbind_returns)
    with iderw_returns_dev t have d: "dv = 1" "sec < disksize s" by metis+
    with t r have "s' = upd_buf b (\<lambda>x. x\<lparr>b_data := disk t (b_sector x), b_flags := b_flags x OR B_VALID\<rparr>) t"
      by (simp add: iderw_read)
    then have "s' = upd_buf b (\<lambda>x. x\<lparr>b_dev := 1, b_sector := sec, b_data := disk s sec, b_flags := B_BUSY OR B_VALID\<rparr>) s"
      using miss(5) d by (simp add: upd_buf_def)
    from bread_miss [OF inv miss(1,3,4) d(2) _ this] miss(2) d show ?thesis by simp
  qed
qed

lemma bread_returns:
  assumes inv: "bcache_inv s" and sec: "sec < disksize s"
    and free: "\<And>b. holds s b sec \<Longrightarrow> \<not> busy s b"
    and room: "(\<exists>b. holds s b sec) \<or> (\<exists>b<NBUF. \<not> busy s b \<and> \<not> dirty s b)"
  shows "\<exists>b s'. bread 1 sec s = Inr (b, s')"
proof -
  obtain xs where m: "mru xs s" using bcache_invD(1) [OF inv] by blast
  have xs: "c \<in> set xs \<longleftrightarrow> c < NBUF" for c using m by (auto simp: mru_def)
  let ?P = "\<lambda>c. b_dev (bufs s c) = 1 \<and> b_sector (bufs s c) = sec"
    and ?Q = "\<lambda>c. \<not> busy s c \<and> \<not> dirty s c"
  have "\<exists>b t. bget 1 sec s = Inr (b, t)"
  proof (cases "List.find ?P xs")
    case None
    with room have "List.find ?Q (rev xs) \<noteq> None" by (auto simp: find_None_iff holds_def xs)
    with None show ?thesis by (auto simp: bget_mru [OF m])
  next
    case (Some c)
    with find_SomeD [OF Some] free [of c] show ?thesis
      by (auto simp: bget_mru [OF m] holds_def xs)
  qed
  then obtain b t where g: "bget 1 sec s = Inr (b, t)" by blast
  have "\<exists>u. iderw b t = Inr u" if "\<not> valid t b"
    using m g
  proof (cases rule: bget_cases)
    case hit
    then have h: "holds s b sec" by (simp add: holds_def)
    then show ?thesis using bcache_invD(6) [OF inv h] that hit by (simp add: flag_bits upd_buf_apply bit_or_iff)
  next
    case miss
    then have "busy t b" "\<not> dirty t b" "b_dev (bufs t b) = 1" "b_sector (bufs t b) < disksize t"
      using sec by (simp_all add: flag_bits upd_buf_apply)
    with that show ?thesis by (simp add: iderw_read)
  qed
  with g show ?thesis by (cases "valid t b") (auto simp: bread_def valid_def)
qed

text \<open>
  What the users of the cache see of a state: the sectors that wait in dirty buffers, and the
  sectors whose buffer is locked.
\<close>

definition dirtyset :: "'a bio_state_scheme \<Rightarrow> u32 set" where
  "dirtyset s = {sec. \<exists>b. holds s b sec \<and> dirty s b}"

definition lockset :: "'a bio_state_scheme \<Rightarrow> u32 set" where
  "lockset s = {sec. \<exists>b. holds s b sec \<and> busy s b}"

lemma one_buf_set:
  assumes ob: "one_buf b sec s t"
    and F: "\<And>c. c \<noteq> b \<Longrightarrow> F' c = F c" "\<not> holds s b sec \<Longrightarrow> \<not> F b"
  shows "{x. \<exists>c. holds t c x \<and> F' c} =
    (if F' b then insert sec {x. \<exists>c. holds s c x \<and> F c} else {x. \<exists>c. holds s c x \<and> F c} - {sec})"
    (is "?A = (if F' b then insert sec ?B else ?B - {sec})")
proof -
  note h = one_buf_holds [OF ob]
  have u: "\<not> holds s c sec" if "c \<noteq> b" for c using ob that by (auto simp: one_buf_def)
  have old: "holds s b x \<and> F b \<Longrightarrow> x = sec" for x using F(2) by (auto simp: holds_def)
  have "x \<in> ?A \<longleftrightarrow> (x = sec \<and> F' b) \<or> (x \<noteq> sec \<and> x \<in> ?B)" for x
  proof
    assume "x \<in> ?A"
    then obtain c where "holds t c x" "F' c" by auto
    then show "(x = sec \<and> F' b) \<or> (x \<noteq> sec \<and> x \<in> ?B)"
      using u [of c] F(1) [of c] by (cases "c = b") (auto simp: h)
  next
    assume "(x = sec \<and> F' b) \<or> (x \<noteq> sec \<and> x \<in> ?B)"
    then show "x \<in> ?A"
    proof
      assume "x \<noteq> sec \<and> x \<in> ?B"
      then obtain c where c: "holds s c x" "F c" "x \<noteq> sec" by auto
      with old have "c \<noteq> b" by auto
      with c F(1) [of c] have "holds t c x" "F' c" by (simp_all add: h)
      then show ?thesis by auto
    qed (auto simp: h)
  qed
  then show ?thesis by auto
qed

lemma one_buf_dirtyset:
  assumes ob: "one_buf b sec s t"
  shows "dirtyset t = (if dirty t b then insert sec (dirtyset s) else dirtyset s - {sec})"
  unfolding dirtyset_def using ob flags_cong [OF one_buf_flags [OF ob]]
  by (intro one_buf_set [OF ob]) (simp_all add: one_buf_def)

lemma one_buf_lockset:
  assumes ob: "one_buf b sec s t"
  shows "lockset t = (if busy t b then insert sec (lockset s) else lockset s - {sec})"
  unfolding lockset_def using ob flags_cong [OF one_buf_flags [OF ob]]
  by (intro one_buf_set [OF ob]) (simp_all add: one_buf_def)

lemma one_buf_owns:
  assumes ob: "one_buf b sec s t" and "c \<noteq> b"
  shows "owns t c x \<longleftrightarrow> owns s c x" "b_data (bufs t c) = b_data (bufs s c)"
  using flags_cong [OF one_buf_flags [OF ob assms(2)]] assms(2)
  by (simp_all add: owns_def one_buf_holds [OF ob])

lemma owns_lockset: "owns s c x \<Longrightarrow> x \<in> lockset s"
  by (auto simp: owns_def lockset_def)

text \<open>A locked or dirty sector takes one buffer: with fewer of them than buffers, one is free.\<close>

definition room :: "'a bio_state_scheme \<Rightarrow> bool" where
  "room s \<longleftrightarrow> card (dirtyset s) + card (lockset s) < NBUF"

lemma holds_finite: "finite {x. \<exists>c. holds s c x \<and> F c}"
proof -
  have "{x. \<exists>c. holds s c x \<and> F c} \<subseteq> (\<lambda>c. b_sector (bufs s c)) ` {..<NBUF}" by (auto simp: holds_def)
  then show ?thesis by (rule finite_subset) simp
qed

lemma finite_lockset [simp]: "finite (lockset s)" "finite (dirtyset s)"
  unfolding lockset_def dirtyset_def by (rule holds_finite)+

lemma room_free:
  assumes inv: "bcache_inv s" and "room s"
  shows "\<exists>b<NBUF. \<not> busy s b \<and> \<not> dirty s b"
proof (rule ccontr)
  assume "\<not> (\<exists>b<NBUF. \<not> busy s b \<and> \<not> dirty s b)"
  then have all: "busy s b \<or> dirty s b" if "b < NBUF" for b using that by blast
  with bcache_invD(2) [OF inv] have dev: "holds s b (b_sector (bufs s b))" if "b < NBUF" for b
    using that by (auto simp: holds_def)
  have "inj_on (\<lambda>b. b_sector (bufs s b)) {..<NBUF}"
    using bcache_invD(3) [OF inv dev] dev by (auto intro!: inj_onI)
  then have "NBUF = card ((\<lambda>b. b_sector (bufs s b)) ` {..<NBUF})" by (simp add: card_image)
  also have "\<dots> \<le> card (dirtyset s \<union> lockset s)"
    using all dev by (intro card_mono) (auto simp: dirtyset_def lockset_def)
  also have "\<dots> \<le> card (dirtyset s) + card (lockset s)" by (rule card_Un_le)
  finally show False using assms(2) by (simp add: room_def)
qed

lemma one_buf_updI:
  assumes inv: "bcache_inv s" and own: "owns s b sec"
    and "\<exists>xs. mru xs t" "\<And>c. c \<noteq> b \<Longrightarrow> core (bufs t c) = core (bufs s c)"
      "b_dev (bufs t b) = 1" "b_sector (bufs t b) = sec" "disksize t = disksize s"
      "\<And>x. x \<noteq> sec \<Longrightarrow> disk t x = disk s x"
  shows "one_buf b sec s t"
proof -
  have h: "holds s b sec" using own by (simp add: owns_def)
  then have "sec < disksize s" "b < NBUF" using bcache_invD(4) [OF inv] by (auto simp: holds_def)
  moreover have "\<forall>c. c \<noteq> b \<longrightarrow> \<not> holds s c sec" using bcache_invD(3) [OF inv _ h] by blast
  ultimately show ?thesis using assms h by (simp add: one_buf_def)
qed

lemma bread_ok:
  assumes inv: "bcache_inv s" and br: "bread dv sec s = Inr (b, s')"
  shows "dv = 1" "sec < disksize s" "bcache_inv s'" "bview s' = bview s" "owns s' b sec"
    "b_data (bufs s' b) = bview s sec" "dirtyset s' = dirtyset s" "lockset s' = insert sec (lockset s)"
    "sec \<notin> lockset s" "bufframe s s'"
    "owns s c x \<Longrightarrow> owns s' c x \<and> c \<noteq> b \<and> b_data (bufs s' c) = b_data (bufs s c)"
    "sec \<notin> dirtyset s \<Longrightarrow> bview s sec = disk s sec" "dirty s' b \<longleftrightarrow> sec \<in> dirtyset s"
proof -
  have "dv = 1 \<and> reads s b sec s'" by (rule bread_reads [OF assms])
  then have "dv = 1" and r: "one_buf b sec s s'" "bufframe s s'" "\<not> busy s b" "busy s' b" "valid s' b"
    "dirty s' b \<longleftrightarrow> dirty s b \<and> holds s b sec" "b_data (bufs s' b) = bview s sec"
    by (auto simp: reads_def)
  then show "dv = 1" "bufframe s s'" "b_data (bufs s' b) = bview s sec" by simp_all
  show inv': "bcache_inv s'" by (rule one_buf_inv [OF r(1) inv]) (use r in auto)
  show "bview s' = bview s" using one_buf_bview [OF r(1) inv inv'] r by simp
  have h: "holds s' b sec" using one_buf_holds [OF r(1)] by simp
  then show "owns s' b sec" using r by (simp add: owns_def)
  show "sec < disksize s" using r(1) by (simp add: one_buf_def)
  have "sec \<in> dirtyset s \<longleftrightarrow> dirty s b \<and> holds s b sec"
    using r(1) by (auto simp: dirtyset_def one_buf_def)
  then show "dirtyset s' = dirtyset s" "dirty s' b \<longleftrightarrow> sec \<in> dirtyset s"
    using one_buf_dirtyset [OF r(1)] r(6) by auto
  show "lockset s' = insert sec (lockset s)" using one_buf_lockset [OF r(1)] r(4) by simp
  have "\<not> busy s c" if "holds s c sec" for c using that r(1,3) by (cases "c = b") (auto simp: one_buf_def)
  then show nb: "sec \<notin> lockset s" unfolding lockset_def by blast
  show "owns s' c x \<and> c \<noteq> b \<and> b_data (bufs s' c) = b_data (bufs s c)" if "owns s c x"
  proof -
    have "c \<noteq> b" using that r(3) by (auto simp: owns_def)
    with one_buf_owns [OF r(1), of c] that show ?thesis by simp
  qed
  show "bview s sec = disk s sec" if "sec \<notin> dirtyset s"
    using that nb bcache_invD(7) [OF inv]
    by (intro bview_eqI [OF inv]) (auto simp: dirtyset_def lockset_def)
qed

lemma bread_total:
  assumes inv: "bcache_inv s" and "sec < disksize s" "sec \<notin> lockset s" "room s \<or> sec \<in> dirtyset s"
  obtains b s' where "bread 1 sec s = Inr (b, s')"
proof -
  have "\<exists>b s'. bread 1 sec s = Inr (b, s')"
    using room_free [OF inv] assms by (intro bread_returns) (auto simp: lockset_def dirtyset_def)
  then show ?thesis using that by blast
qed

text \<open>The owner of a buffer stores into its data, or sets its dirty flag.\<close>

lemma set_data_ok:
  fixes D :: "buf \<Rightarrow> block"
  assumes inv: "bcache_inv s" and own: "owns s b sec"
  defines "t \<equiv> upd_buf b (\<lambda>x. x\<lparr>b_data := D x\<rparr>) s"
  shows "bcache_inv t" "bview t = (bview s)(sec := D (bufs s b))" "dirtyset t = dirtyset s"
    "lockset t = lockset s" "owns t c x \<longleftrightarrow> owns s c x"
    "b_data (bufs t c) = (if c = b then D (bufs s b) else b_data (bufs s c))" "bufframe s t"
proof -
  have ob: "one_buf b sec s t" using own bcache_invD(1) [OF inv]
    by (intro one_buf_updI [OF inv own]) (auto simp: t_def upd_buf_apply mru_flags owns_def holds_def)
  have f: "busy t c = busy s c" "valid t c = valid s c" "dirty t c = dirty s c" "holds t c x = holds s c x" for c x
    by (simp_all add: t_def busy_def valid_def dirty_def upd_buf_apply holds_def)
  have fb: "busy s b" "valid s b" "holds s b sec" "b_data (bufs t b) = D (bufs s b)" "b < NBUF"
    using own by (auto simp: owns_def holds_def t_def upd_buf_apply)
  show inv': "bcache_inv t" by (rule one_buf_inv [OF ob inv]) (use fb in \<open>auto simp: f\<close>)
  show "bview t = (bview s)(sec := D (bufs s b))" using one_buf_bview [OF ob inv inv'] fb by (simp add: f)
  show "dirtyset t = dirtyset s" "lockset t = lockset s" "owns t c x \<longleftrightarrow> owns s c x"
    by (simp_all add: dirtyset_def lockset_def owns_def f)
  show "b_data (bufs t c) = (if c = b then D (bufs s b) else b_data (bufs s c))" "bufframe s t"
    by (simp_all add: t_def upd_buf_apply)
qed

lemma set_dirty_ok:
  assumes inv: "bcache_inv s" and own: "owns s b sec"
  defines "t \<equiv> upd_buf b (\<lambda>x. x\<lparr>b_flags := b_flags x OR B_DIRTY\<rparr>) s"
  shows "bcache_inv t" "bview t = bview s" "dirtyset t = insert sec (dirtyset s)"
    "lockset t = lockset s" "owns t c x \<longleftrightarrow> owns s c x" "b_data (bufs t c) = b_data (bufs s c)" "bufframe s t"
    "dirty t b"
proof -
  have ob: "one_buf b sec s t" using own bcache_invD(1) [OF inv]
    by (intro one_buf_updI [OF inv own]) (auto simp: t_def upd_buf_apply mru_flags owns_def holds_def)
  have f: "busy t c = busy s c" "valid t c = valid s c" "holds t c x = holds s c x" for c x
    by (simp_all add: t_def flag_bits upd_buf_apply holds_def bit_or_iff)
  show d: "dirty t b" by (simp add: t_def flag_bits upd_buf_apply bit_or_iff)
  have fb: "busy s b" "valid s b" "holds s b sec" "b_data (bufs t b) = b_data (bufs s b)" "b < NBUF"
    using own by (auto simp: owns_def holds_def t_def upd_buf_apply)
  show inv': "bcache_inv t" by (rule one_buf_inv [OF ob inv]) (use fb in \<open>auto simp: f\<close>)
  show "bview t = bview s" using one_buf_bview [OF ob inv inv'] fb bview_cached [OF inv fb(3,2)] by (auto simp: f)
  show "dirtyset t = insert sec (dirtyset s)" using one_buf_dirtyset [OF ob] d by simp
  show "lockset t = lockset s" "owns t c x \<longleftrightarrow> owns s c x"
    by (simp_all add: lockset_def owns_def f)
  show "b_data (bufs t c) = b_data (bufs s c)" "bufframe s t"
    by (simp_all add: t_def upd_buf_apply)
qed

lemma bwrite_returns:
  assumes inv: "bcache_inv s" and own: "owns s b sec"
  shows "bwrite b s = Inr ((upd_buf b (\<lambda>x. x\<lparr>b_flags := (b_flags x OR B_DIRTY) AND NOT B_DIRTY OR B_VALID\<rparr>) s)
           \<lparr>disk := (disk s)(sec := b_data (bufs s b)), writes := writes s @ [(sec, b_data (bufs s b))]\<rparr>)"
proof -
  let ?t = "upd_buf b (\<lambda>x. x\<lparr>b_flags := b_flags x OR B_DIRTY\<rparr>) s"
  have b: "busy s b" "b_dev (bufs s b) = 1" "b_sector (bufs s b) = sec" "sec < disksize s"
    using own bcache_invD(4) [OF inv] by (auto simp: owns_def holds_def)
  then have "busy ?t b" "dirty ?t b" "b_dev (bufs ?t b) = 1" "b_sector (bufs ?t b) < disksize ?t"
    by (simp_all add: flag_bits upd_buf_apply bit_or_iff)
  from iderw_write [OF this] b show ?thesis by (simp add: bwrite_def and_flags flag_bits upd_buf_def)
qed

lemma bwrite_ok:
  assumes inv: "bcache_inv s" and own: "owns s b sec" and bw: "bwrite b s = Inr t"
  shows "bcache_inv t" "bview t = bview s" "dirtyset t = dirtyset s - {sec}" "lockset t = lockset s"
    "owns t c x \<longleftrightarrow> owns s c x" "b_data (bufs t c) = b_data (bufs s c)"
    "t = s\<lparr>bufs := bufs t, disk := (disk s)(sec := b_data (bufs s b)), writes := writes s @ [(sec, b_data (bufs s b))]\<rparr>"
proof -
  have t: "t = (upd_buf b (\<lambda>x. x\<lparr>b_flags := (b_flags x OR B_DIRTY) AND NOT B_DIRTY OR B_VALID\<rparr>) s)
           \<lparr>disk := (disk s)(sec := b_data (bufs s b)), writes := writes s @ [(sec, b_data (bufs s b))]\<rparr>"
    using bw unfolding bwrite_returns [OF inv own] by simp
  have fb: "busy s b" "valid s b" "holds s b sec" "b_data (bufs t b) = b_data (bufs s b)"
    "b_dev (bufs s b) = 1" "b_sector (bufs s b) = sec" "disk t sec = b_data (bufs s b)"
    using own by (auto simp: owns_def holds_def t upd_buf_apply)
  have m: "mru xs t = mru xs s" for xs by (auto intro: mru_bufs_links simp: t upd_buf_apply)
  have ob: "one_buf b sec s t" using own bcache_invD(1) [OF inv] fb
    by (intro one_buf_updI [OF inv own]) (simp_all add: t upd_buf_apply, simp add: m flip: t)
  have f: "busy t c = busy s c" "valid t c = (valid s c \<or> c = b)" "holds t c x = holds s c x" "\<not> dirty t b" for c x
    by (simp_all add: t flag_bits upd_buf_apply holds_def bit_or_iff bit_and_iff bit_not_iff)
  show inv': "bcache_inv t" by (rule one_buf_inv [OF ob inv]) (use fb in \<open>auto simp: f\<close>)
  show "bview t = bview s" using one_buf_bview [OF ob inv inv'] fb bview_cached [OF inv fb(3,2)] by (auto simp: f)
  show "dirtyset t = dirtyset s - {sec}" using one_buf_dirtyset [OF ob] f(4) by simp
  show "lockset t = lockset s" "owns t c x \<longleftrightarrow> owns s c x"
    using fb by (auto simp: lockset_def owns_def f)
  show "b_data (bufs t c) = b_data (bufs s c)"
    "t = s\<lparr>bufs := bufs t, disk := (disk s)(sec := b_data (bufs s b)), writes := writes s @ [(sec, b_data (bufs s b))]\<rparr>"
    by (simp_all add: t upd_buf_def)
qed

lemma brelse_returns: "owns s b sec \<Longrightarrow> \<exists>s'. brelse b s = Inr s'"
  by (simp add: brelse_def owns_def busy_def Let_def)

lemma brelse_ok:
  assumes inv: "bcache_inv s" and own: "owns s b sec" and br: "brelse b s = Inr t"
    and clean: "dirty s b \<or> b_data (bufs s b) = disk s sec"
  shows "bcache_inv t" "bview t = bview s" "dirtyset t = dirtyset s" "lockset t = lockset s - {sec}"
    "owns t c x \<longleftrightarrow> owns s c x \<and> c \<noteq> b" "b_data (bufs t c) = b_data (bufs s c)" "bframe s t"
proof -
  note e = brelse_effect [OF br]
  from e(1) have fr: "t = s\<lparr>bufs := bufs t, ptable := ptable t\<rparr>" unfolding bframe_def .
  have ds: "disk t = disk s" "disksize t = disksize s" by (subst fr, simp)+
  have f: "busy t c \<longleftrightarrow> busy s c \<and> c \<noteq> b" "valid t c = valid s c" "dirty t c = dirty s c" "holds t c x = holds s c x" for c x
    by (auto simp: flag_bits e holds_def bit_and_iff bit_not_iff)
  have fb: "busy s b" "valid s b" "holds s b sec" "b < NBUF" "b_dev (bufs s b) = 1" "b_sector (bufs s b) = sec"
    using own by (auto simp: owns_def holds_def)
  have ob: "one_buf b sec s t"
    using bcache_invD(1) [OF inv] brelse_mru [OF _ fb(4) br] fb
    by (intro one_buf_updI [OF inv own]) (auto simp: core_def e ds)
  show inv': "bcache_inv t" by (rule one_buf_inv [OF ob inv]) (use fb clean in \<open>auto simp: f e ds\<close>)
  show "bview t = bview s" using one_buf_bview [OF ob inv inv'] fb bview_cached [OF inv fb(3,2)] by (auto simp: f e)
  show "lockset t = lockset s - {sec}" using one_buf_lockset [OF ob] f(1) [of b] by simp
  show "dirtyset t = dirtyset s" "owns t c x \<longleftrightarrow> owns s c x \<and> c \<noteq> b"
    by (auto simp: dirtyset_def owns_def f)
  show "b_data (bufs t c) = b_data (bufs s c)" "bframe s t" using e by simp_all
qed

section \<open>Initialisation\<close>

lemma binit_step_dll:
  assumes "dll (nx s) (pv s) NBUF xs" "b \<notin> set (NBUF # xs)"
  shows "dll (nx (binit_step b s)) (pv (binit_step b s)) NBUF (b # xs)"
proof -
  have "b \<noteq> NBUF" using assms(2) by simp
  moreover have "nx (upd_buf b (\<lambda>x. x\<lparr>b_dev := v\<rparr>) t) = nx t" "pv (upd_buf b (\<lambda>x. x\<lparr>b_dev := v\<rparr>) t) = pv t"
    for v and t :: "'a bio_state_scheme"
    by (auto simp: nx_def pv_def upd_buf_apply)
  ultimately have "nx (binit_step b s) = (nx s)(b := nx s NBUF, NBUF := b)"
    "pv (binit_step b s) = (pv s)(b := NBUF, nx s NBUF := b)"
    by (simp_all add: binit_step_def links_fold Let_def)
  with dll_push [OF assms] show ?thesis by simp
qed

lemma binit_step_core:
  "core (bufs (binit_step b s) c) =
     (if c = b then (b_flags (bufs s b), -1, b_sector (bufs s b), b_data (bufs s b)) else core (bufs s c))"
  unfolding binit_step_def Let_def by (simp add: upd_buf_apply core_def)

lemma binit_fold:
  assumes "dll (nx s) (pv s) NBUF []" "n \<le> NBUF"
  defines "t \<equiv> fold binit_step [0..<n] s"
  shows "dll (nx t) (pv t) NBUF (rev [0..<n]) \<and>
    (\<forall>c. core (bufs t c) =
      (if c < n then (b_flags (bufs s c), -1, b_sector (bufs s c), b_data (bufs s c)) else core (bufs s c)))"
  unfolding t_def using assms(2)
proof (induction n)
  case 0
  with assms(1) show ?case by simp
next
  case (Suc n)
  let ?u = "fold binit_step [0..<n] s"
  have IH: "dll (nx ?u) (pv ?u) NBUF (rev [0..<n])"
    "\<And>c. core (bufs ?u c) =
      (if c < n then (b_flags (bufs s c), -1, b_sector (bufs s c), b_data (bufs s c)) else core (bufs s c))"
    using Suc by auto
  have "dll (nx (binit_step n ?u)) (pv (binit_step n ?u)) NBUF (n # rev [0..<n])"
    using Suc.prems by (intro binit_step_dll IH) auto
  moreover have "core (bufs ?u n) = core (bufs s n)" by (simp add: IH(2))
  note core_eqD [OF this]
  ultimately show ?case by (auto simp: binit_step_core IH(2))
qed

lemma bufframe_trans: "bufframe s t \<Longrightarrow> bufframe t u \<Longrightarrow> bufframe s u"
  by (cases s; cases t; cases u) (simp add: bufframe_def)

lemma binit_frame: "bufframe s (binit s)"
proof -
  have step: "bufframe t (binit_step b t)" for b and t :: "'a bio_state_scheme"
    unfolding binit_step_def Let_def by (meson bufframe_trans upd_buf_bufframe)
  have "bufframe t (fold binit_step bs t)" for bs and t :: "'a bio_state_scheme"
  proof (induction bs arbitrary: t)
    case (Cons b bs)
    then show ?case using bufframe_trans [OF step [of t b] Cons.IH] by simp
  qed (simp add: bufframe_def)
  then show ?thesis unfolding binit_def Let_def by (meson bufframe_trans upd_buf_bufframe)
qed

lemma binit_flags:
  assumes "\<And>b. b < NBUF \<Longrightarrow> b_flags (bufs s b) = 0"
  shows "mru (rev [0..<NBUF]) (binit s)"
    "b < NBUF \<Longrightarrow> b_flags (bufs (binit s) b) = 0 \<and> b_dev (bufs (binit s) b) = -1"
proof -
  define t where "t = upd_buf NBUF (\<lambda>x. x\<lparr>b_next := NBUF\<rparr>) (upd_buf NBUF (\<lambda>x. x\<lparr>b_prev := NBUF\<rparr>) s)"
  have "dll (nx t) (pv t) NBUF []" by (simp add: t_def dll_def)
  note * = binit_fold [OF this le_refl]
  have e: "binit s = fold binit_step [0..<NBUF] t" by (simp add: binit_def t_def)
  show "mru (rev [0..<NBUF]) (binit s)" using * by (auto simp: mru_def e)
  assume b: "b < NBUF"
  have "core (bufs (binit s) b) = (b_flags (bufs t b), -1, b_sector (bufs t b), b_data (bufs t b))"
    using * b by (simp add: e)
  with b assms [OF b] show "b_flags (bufs (binit s) b) = 0 \<and> b_dev (bufs (binit s) b) = -1"
    by (simp add: core_def t_def upd_buf_apply)
qed

lemma binit_inv:
  assumes "\<And>b. b < NBUF \<Longrightarrow> b_flags (bufs s b) = 0"
  shows "bcache_inv (binit s)" "dirtyset (binit s) = {}" "lockset (binit s) = {}"
  using binit_flags [OF assms, simplified]
  by (auto simp: bcache_inv_def holds_def busy_def valid_def dirty_def dirtyset_def lockset_def)

section \<open>Properties\<close>

text \<open>A state right after the cache was initialised, over a disk \<open>d\<close> of 1024 sectors.\<close>

definition ex_buf :: buf where
  "ex_buf = \<lparr>b_flags = 0, b_dev = 0, b_sector = 0, b_prev = 0, b_next = 0, b_data = (\<lambda>_. 0)\<rparr>"

definition ex_proc :: proc where
  "ex_proc = \<lparr>sz = 0, pgdir = 0, kstack = 0, state = UNUSED, pid = 0, parent = None,
     tf = \<lparr>tf_edi = 0, tf_esi = 0, tf_ebp = 0, tf_oesp = 0, tf_ebx = 0, tf_edx = 0, tf_ecx = 0, tf_eax = 0,
           tf_gs = 0, tf_fs = 0, tf_es = 0, tf_ds = 0, tf_trapno = 0, tf_err = 0, tf_eip = 0, tf_cs = 0,
           tf_eflags = 0, tf_esp = 0, tf_ss = 0\<rparr>,
     kret = 0, ctxt = \<lparr>ctx_edi = 0, ctx_esi = 0, ctx_ebx = 0, ctx_ebp = 0, ctx_eip = 0\<rparr>, chan = None,
     killed = False, ofile = (\<lambda>_. None), cwd = None, pname = (\<lambda>_. 0), npath = (\<lambda>_. 0), alarmticks = 0,
     alarmhandler = 0, curalarmtick = 0, keyboardHandler = 0\<rparr>"

definition ex_bio :: "(u32 \<Rightarrow> block) \<Rightarrow> 'a \<Rightarrow> 'a bio_state_scheme" where
  "ex_bio d m = binit
     \<lparr>mem = (\<lambda>_. 0), kernel_end = 0x80110000, use_lock = True, freelist = 0,
      ptable = (\<lambda>_. ex_proc), nextpid = 1, initproc = None, cur = None, trapret_addr = 0, forkret_addr = 0,
      bufs = (\<lambda>_. ex_buf), disk = d, disksize = 1024, writes = [], \<dots> = m\<rparr>"

lemma ex_bio_ok:
  "bcache_inv (ex_bio d m)" "dirtyset (ex_bio d m) = {}" "lockset (ex_bio d m) = {}" "room (ex_bio d m)"
  "disksize (ex_bio d m) = 1024" "disk (ex_bio d m) = d" "writes (ex_bio d m) = []" "bio_state.more (ex_bio d m) = m"
proof -
  let ?s = "\<lparr>mem = (\<lambda>_. 0), kernel_end = 0x80110000, use_lock = True, freelist = 0,
      ptable = (\<lambda>_. ex_proc), nextpid = 1, initproc = None, cur = None, trapret_addr = 0, forkret_addr = 0,
      bufs = (\<lambda>_. ex_buf), disk = d, disksize = 1024, writes = [], \<dots> = m\<rparr>"
  have fr: "bufframe ?s (ex_bio d m)" unfolding ex_bio_def by (rule binit_frame)
  show "disksize (ex_bio d m) = 1024" "disk (ex_bio d m) = d" "writes (ex_bio d m) = []" "bio_state.more (ex_bio d m) = m"
    using fr by (cases "ex_bio d m"; simp add: bufframe_def)+
  show "bcache_inv (ex_bio d m)" "dirtyset (ex_bio d m) = {}" "lockset (ex_bio d m) = {}"
    unfolding ex_bio_def by (rule binit_inv; simp add: ex_buf_def)+
  then show "room (ex_bio d m)" by (simp add: room_def NBUF_def)
qed

text \<open>
  C26: Reading a sector that is not locked, while a buffer is free, returns its one buffer, locked,
  with the contents the cache stands for. The read changes neither these contents nor the disk.
\<close>

theorem bread_coherent:
  assumes "bcache_inv s" "sec < disksize s" "sec \<notin> lockset s" "room s"
  shows "\<exists>b s'. bread 1 sec s = Inr (b, s') \<and> owns s' b sec \<and> b_data (bufs s' b) = bview s sec \<and>
    (\<forall>c. holds s' c sec \<longrightarrow> c = b) \<and> bcache_inv s' \<and> bview s' = bview s \<and> disk s' = disk s \<and>
    writes s' = writes s \<and> lockset s' = insert sec (lockset s) \<and> dirtyset s' = dirtyset s"
proof -
  obtain b s' where br: "bread 1 sec s = Inr (b, s')" using bread_total [OF assms(1-3)] assms(4) by blast
  note r = bread_ok [OF assms(1) br]
  have "\<forall>c. holds s' c sec \<longrightarrow> c = b" using r(5) bcache_invD(3) [OF r(3)] by (auto simp: owns_def)
  moreover have "disk s' = disk s" "writes s' = writes s"
    using r(10) by (cases s; cases s'; simp add: bufframe_def)+
  ultimately show ?thesis using br r(3-8) by blast
qed

theorem bread_coherent_witness:
  "\<exists>b s'. bread 1 7 (ex_bio (\<lambda>_ _. 0) ()) = Inr (b, s') \<and> owns s' b 7 \<and> b_data (bufs s' b) = bview (ex_bio (\<lambda>_ _. 0) ()) 7 \<and>
    (\<forall>c. holds s' c 7 \<longrightarrow> c = b) \<and> bcache_inv s' \<and> bview s' = bview (ex_bio (\<lambda>_ _. 0) ()) \<and> disk s' = disk (ex_bio (\<lambda>_ _. 0) ()) \<and>
    writes s' = writes (ex_bio (\<lambda>_ _. 0) ()) \<and> lockset s' = insert 7 (lockset (ex_bio (\<lambda>_ _. 0) ())) \<and> dirtyset s' = dirtyset (ex_bio (\<lambda>_ _. 0) ())"
  by (rule bread_coherent) (simp_all add: ex_bio_ok)

text \<open>
  C27: The owner of a buffer who stores new contents, writes it through and releases it leaves
  them on the disk as the only change, and the next read of the sector returns them.
\<close>

theorem bwrite_read_back:
  assumes "bcache_inv s" "owns s b sec"
  shows "\<exists>s1 s2 b' s3. bwrite b (upd_buf b (\<lambda>x. x\<lparr>b_data := d\<rparr>) s) = Inr s1 \<and> brelse b s1 = Inr s2 \<and>
    disk s2 = (disk s)(sec := d) \<and> writes s2 = writes s @ [(sec, d)] \<and> bview s2 = (bview s)(sec := d) \<and>
    lockset s2 = lockset s - {sec} \<and> bcache_inv s2 \<and>
    bread 1 sec s2 = Inr (b', s3) \<and> b_data (bufs s3 b') = d"
proof -
  let ?s0 = "upd_buf b (\<lambda>x. x\<lparr>b_data := d\<rparr>) s"
  note m = set_data_ok [OF assms, of "\<lambda>_. d"]
  have own0: "owns ?s0 b sec" using m(5) assms(2) by simp
  obtain s1 where bw: "bwrite b ?s0 = Inr s1" using bwrite_returns [OF m(1) own0] by blast
  note w = bwrite_ok [OF m(1) own0 bw]
  have own1: "owns s1 b sec" using w(5) own0 by simp
  have dk: "disk s1 = (disk s)(sec := d)" "writes s1 = writes s @ [(sec, d)]"
    by (subst w(7), simp add: m(6))+
  obtain s2 where br: "brelse b s1 = Inr s2" using brelse_returns [OF own1] by blast
  have "b_data (bufs s1 b) = disk s1 sec" using w(6) m(6) dk by simp
  note r = brelse_ok [OF w(1) own1 br disjI2 [OF this]]
  have dk2: "disk s2 = disk s1" "writes s2 = writes s1" using r(7) by (cases s1; cases s2; simp add: bframe_def)+
  have h: "holds s2 b sec" "disksize s2 = disksize s1"
    using own1 brelse_effect [OF br] r(7) by (auto simp: owns_def holds_def bframe_def) (cases s1; cases s2; simp)
  have "\<not> busy s2 c" if "holds s2 c sec" for c
    using that r(4) by (auto simp: lockset_def)
  moreover have "sec < disksize s2" using bcache_invD(4) [OF r(1) h(1)] .
  ultimately obtain b' s3 where b': "bread 1 sec s2 = Inr (b', s3)"
    using bread_returns [OF r(1), of sec] h(1) by blast
  have "bview s2 = (bview s)(sec := d)" using r(2) w(2) m(2) by simp
  moreover have "b_data (bufs s3 b') = d" using bread_ok(6) [OF r(1) b'] calculation by simp
  ultimately show ?thesis using bw br dk dk2 b' r(1,4) w(4) m(4) by auto
qed

theorem bwrite_read_back_witness:
  "\<exists>b (s :: bio_state). owns s b 7 \<and> (\<exists>s1 s2 b' s3. bwrite b (upd_buf b (\<lambda>x. x\<lparr>b_data := (\<lambda>_. 1)\<rparr>) s) = Inr s1 \<and> brelse b s1 = Inr s2 \<and>
    disk s2 = (disk s)(7 := (\<lambda>_. 1)) \<and> writes s2 = writes s @ [(7, \<lambda>_. 1)] \<and> bview s2 = (bview s)(7 := (\<lambda>_. 1)) \<and>
    lockset s2 = lockset s - {7} \<and> bcache_inv s2 \<and>
    bread 1 7 s2 = Inr (b', s3) \<and> b_data (bufs s3 b') = (\<lambda>_. 1))"
proof -
  obtain b s where br: "bread 1 7 (ex_bio (\<lambda>_ _. 0) ()) = Inr (b, s)"
    by (rule bread_total [OF ex_bio_ok(1), of 7]) (simp_all add: ex_bio_ok)
  note r = bread_ok [OF ex_bio_ok(1) br]
  show ?thesis by (intro exI [of _ b] exI [of _ s] conjI r(5) bwrite_read_back [OF r(3,5), of "\<lambda>_. 1"])
qed

text \<open>
  C28: The cache replaces the least recently used buffer. Releasing a buffer moves it to the front
  of the list; a request for a sector with no buffer takes the last buffer of the list that is
  neither locked nor dirty, and panics when there is none.
\<close>

theorem bget_lru:
  assumes "mru xs s" "b < NBUF" "busy s b"
  shows "\<exists>s'. brelse b s = Inr s' \<and> mru (b # remove1 b xs) s' \<and>
    (\<forall>dv sec. (\<forall>c<NBUF. \<not> (b_dev (bufs s' c) = dv \<and> b_sector (bufs s' c) = sec)) \<longrightarrow>
      bget dv sec s' =
        (case List.find (\<lambda>c. \<not> busy s' c \<and> \<not> dirty s' c) (rev (b # remove1 b xs)) of
           None \<Rightarrow> Inl (Panic ''bget: no buffers'')
         | Some c \<Rightarrow> Inr (c, upd_buf c (\<lambda>x. x\<lparr>b_dev := dv, b_sector := sec, b_flags := B_BUSY\<rparr>) s')))"
proof -
  obtain s' where br: "brelse b s = Inr s'" using assms(3) by (auto simp: brelse_def busy_def Let_def)
  have m: "mru (b # remove1 b xs) s'" by (rule brelse_mru [OF assms(1,2) br])
  have "bget dv sec s' =
        (case List.find (\<lambda>c. \<not> busy s' c \<and> \<not> dirty s' c) (rev (b # remove1 b xs)) of
           None \<Rightarrow> Inl (Panic ''bget: no buffers'')
         | Some c \<Rightarrow> Inr (c, upd_buf c (\<lambda>x. x\<lparr>b_dev := dv, b_sector := sec, b_flags := B_BUSY\<rparr>) s'))"
    if "\<forall>c<NBUF. \<not> (b_dev (bufs s' c) = dv \<and> b_sector (bufs s' c) = sec)" for dv sec
  proof -
    have "List.find (\<lambda>c. b_dev (bufs s' c) = dv \<and> b_sector (bufs s' c) = sec) (b # remove1 b xs) = None"
      using that m unfolding find_None_iff mru_def by blast
    then show ?thesis unfolding bget_mru [OF m] by (simp only: option.case cong: option.case_cong)
  qed
  with br m show ?thesis by blast
qed

theorem bget_lru_witness:
  "\<exists>s (s' :: bio_state). busy s 3 \<and> brelse 3 s = Inr s' \<and> mru [3, 9, 8, 7, 6, 5, 4, 2, 1, 0] s' \<and>
    (\<forall>dv sec. (\<forall>c<NBUF. \<not> (b_dev (bufs s' c) = dv \<and> b_sector (bufs s' c) = sec)) \<longrightarrow>
      bget dv sec s' =
        (case List.find (\<lambda>c. \<not> busy s' c \<and> \<not> dirty s' c) (rev [3, 9, 8, 7, 6, 5, 4, 2, 1, 0]) of
           None \<Rightarrow> Inl (Panic ''bget: no buffers'')
         | Some c \<Rightarrow> Inr (c, upd_buf c (\<lambda>x. x\<lparr>b_dev := dv, b_sector := sec, b_flags := B_BUSY\<rparr>) s')))"
proof -
  let ?s = "upd_buf 3 (\<lambda>x. x\<lparr>b_flags := B_BUSY\<rparr>) (ex_bio (\<lambda>_ _. 0) ())"
  have m: "mru (rev [0..<NBUF]) ?s" unfolding ex_bio_def mru_flags
    by (rule binit_flags) (simp add: ex_buf_def)
  have b: "busy ?s 3" by (simp add: flag_bits upd_buf_apply)
  have e: "3 # remove1 3 (rev [0..<NBUF]) = [3, 9, 8, 7, 6, 5, 4, 2, 1, 0]" by (simp add: NBUF_def upt_rec)
  have lt: "3 < NBUF" by (simp add: NBUF_def)
  obtain s' where s': "brelse 3 ?s = Inr s' \<and> mru [3, 9, 8, 7, 6, 5, 4, 2, 1, 0] s' \<and>
    (\<forall>dv sec. (\<forall>c<NBUF. \<not> (b_dev (bufs s' c) = dv \<and> b_sector (bufs s' c) = sec)) \<longrightarrow>
      bget dv sec s' =
        (case List.find (\<lambda>c. \<not> busy s' c \<and> \<not> dirty s' c) (rev [3, 9, 8, 7, 6, 5, 4, 2, 1, 0]) of
           None \<Rightarrow> Inl (Panic ''bget: no buffers'')
         | Some c \<Rightarrow> Inr (c, upd_buf c (\<lambda>x. x\<lparr>b_dev := dv, b_sector := sec, b_flags := B_BUSY\<rparr>) s')))"
    by (rule exE [OF bget_lru [OF m lt b, unfolded e]])
  show ?thesis by (rule exI [of _ ?s], rule exI [of _ s'], rule conjI [OF b s'])
qed

end
