(* ===== verification/Log.thy ===== *)
theory Log
  imports Bio
begin

text \<open>
  The write-ahead log (log.c), with \<open>readsb\<close> of fs.c that its initialisation calls. A block is the
  whole array of \<open>BSIZE\<close> bytes, so a \<open>memmove\<close> of \<open>BSIZE\<close> bytes assigns it. The C \<open>int\<close> fields of
  the log are integers: their only arithmetic is bounded by the guards of \<open>log_write\<close>. The main
  results say what a transaction leaves on the disk after a crash at any write.
\<close>

section \<open>Data\<close>

definition LOGSIZE :: nat where "LOGSIZE = 10"
definition ROOTDEV :: u32 where "ROOTDEV = 1"

record superblock =
  sb_size :: u32
  sb_nblocks :: u32
  sb_ninodes :: u32
  sb_nlog :: u32

text \<open>\<open>struct log\<close>: its header \<open>lh\<close> is the pair of \<open>lh_n\<close> and \<open>lh_sector\<close>.\<close>

record log_state = bio_state +
  log_start :: u32
  log_size :: int
  log_busy :: bool
  log_dev :: u32
  lh_n :: int
  lh_sector :: "nat \<Rightarrow> u32"

section \<open>fs.c: the super block\<close>

definition decode_sb :: "block \<Rightarrow> superblock" where
  "decode_sb d = \<lparr>sb_size = get32 d 0, sb_nblocks = get32 d 4, sb_ninodes = get32 d 8, sb_nlog = get32 d 12\<rparr>"

definition readsb :: "u32 \<Rightarrow> 'a bio_state_scheme \<Rightarrow> (superblock \<times> 'a bio_state_scheme) kres" where
  "readsb dev s =
     kbind (bread dev 1 s) (\<lambda>(bp, s).
       let sb = decode_sb (b_data (bufs s bp))
       in kbind (brelse bp s) (\<lambda>s. Inr (sb, s)))"

section \<open>log.c\<close>

definition install_step :: "nat \<Rightarrow> 'a log_state_scheme \<Rightarrow> 'a log_state_scheme kres" where
  "install_step tail s =
     kbind (bread (log_dev s) (log_start s + of_nat tail + 1) s) (\<lambda>(lbuf, s).
     kbind (bread (log_dev s) (lh_sector s tail) s) (\<lambda>(dbuf, s).
       let s = upd_buf dbuf (\<lambda>x. x\<lparr>b_data := b_data (bufs s lbuf)\<rparr>) s
       in kbind (bwrite dbuf s) (\<lambda>s.
          kbind (brelse lbuf s) (\<lambda>s.
          brelse dbuf s))))"

definition install_trans :: "'a log_state_scheme \<Rightarrow> 'a log_state_scheme kres" where
  "install_trans s = kfold install_step [0..<nat (lh_n s)] s"

text \<open>The header read from the disk goes into an array of \<open>LOGSIZE\<close> entries without a check.\<close>

definition read_head :: "'a log_state_scheme \<Rightarrow> 'a log_state_scheme kres" where
  "read_head s =
     kbind (bread (log_dev s) (log_start s) s) (\<lambda>(buf, s).
       let s = s\<lparr>lh_n := sint (get32 (b_data (bufs s buf)) 0)\<rparr>
       in if int LOGSIZE < lh_n s then Inl (Overrun ''log.lh.sector'')
          else
            let s = s\<lparr>lh_sector := (\<lambda>i. if i < nat (lh_n s) then get32 (b_data (bufs s buf)) (4 + 4 * i)
                                         else lh_sector s i)\<rparr>
            in brelse buf s)"

definition put_head :: "int \<Rightarrow> (nat \<Rightarrow> u32) \<Rightarrow> block \<Rightarrow> block" where
  "put_head n sector d =
     fold (\<lambda>i. put32 (4 + 4 * i) (sector i)) [0..<nat n] (put32 0 (of_int n) d)"

definition write_head :: "'a log_state_scheme \<Rightarrow> 'a log_state_scheme kres" where
  "write_head s =
     kbind (bread (log_dev s) (log_start s) s) (\<lambda>(buf, s).
       let s = upd_buf buf (\<lambda>x. x\<lparr>b_data := put_head (lh_n s) (lh_sector s) (b_data x)\<rparr>) s
       in kbind (bwrite buf s) (\<lambda>s. brelse buf s))"

definition recover_from_log :: "'a log_state_scheme \<Rightarrow> 'a log_state_scheme kres" where
  "recover_from_log s =
     kbind (read_head s) (\<lambda>s.
     kbind (install_trans s) (\<lambda>s.
     write_head (s\<lparr>lh_n := 0\<rparr>)))"

definition initlog :: "'a log_state_scheme \<Rightarrow> 'a log_state_scheme kres" where
  "initlog s =
     (if 4 + 4 * LOGSIZE \<ge> BSIZE then Inl (Panic ''initlog: too big logheader'')
      else
        kbind (readsb ROOTDEV s) (\<lambda>(sb, s).
          recover_from_log (s\<lparr>log_start := sb_size sb - sb_nlog sb, log_size := sint (sb_nlog sb),
                              log_dev := ROOTDEV\<rparr>)))"

definition begin_trans :: "'a log_state_scheme \<Rightarrow> 'a log_state_scheme kres" where
  "begin_trans s = (if log_busy s then Inl (Sleep ChLog) else Inr (s\<lparr>log_busy := True\<rparr>))"

definition commit_trans :: "'a log_state_scheme \<Rightarrow> 'a log_state_scheme kres" where
  "commit_trans s =
     kbind (if lh_n s > 0 then
              kbind (write_head s) (\<lambda>s.
              kbind (install_trans s) (\<lambda>s.
              write_head (s\<lparr>lh_n := 0\<rparr>)))
            else Inr s)
       (\<lambda>s. Inr (wakeup ChLog (s\<lparr>log_busy := False\<rparr>)))"

text \<open>The index the absorption loop of \<open>log_write\<close> stops at.\<close>

definition log_slot :: "u32 \<Rightarrow> 'a log_state_scheme \<Rightarrow> nat" where
  "log_slot sector s =
     (case List.find (\<lambda>i. lh_sector s i = sector) [0..<nat (lh_n s)] of Some i \<Rightarrow> i | None \<Rightarrow> nat (lh_n s))"

definition log_write :: "nat \<Rightarrow> 'a log_state_scheme \<Rightarrow> 'a log_state_scheme kres" where
  "log_write b s =
     (if lh_n s \<ge> int LOGSIZE \<or> lh_n s \<ge> log_size s - 1 then Inl (Panic ''too big a transaction'')
      else if \<not> log_busy s then Inl (Panic ''write outside of trans'')
      else
        let i = log_slot (b_sector (bufs s b)) s;
            s = s\<lparr>lh_sector := (lh_sector s)(i := b_sector (bufs s b))\<rparr>
        in kbind (bread (b_dev (bufs s b)) (log_start s + of_nat i + 1) s) (\<lambda>(lbuf, s).
             let s = upd_buf lbuf (\<lambda>x. x\<lparr>b_data := b_data (bufs s b)\<rparr>) s
             in kbind (bwrite lbuf s) (\<lambda>s.
                kbind (brelse lbuf s) (\<lambda>s.
                let s = (if int i = lh_n s then s\<lparr>lh_n := lh_n s + 1\<rparr> else s)
                in Inr (upd_buf b (\<lambda>x. x\<lparr>b_flags := b_flags x OR B_DIRTY\<rparr>) s)))))"

section \<open>Frames and writes\<close>

text \<open>The predicates of the cache look at the buffers and the disk only.\<close>

lemma bio_cong:
  assumes "bufs t = bufs s" "disk t = disk s" "disksize t = disksize s"
  shows "bcache_inv t = bcache_inv s" "bview t = bview s" "dirtyset t = dirtyset s" "lockset t = lockset s"
    "owns t = owns s" "room t = room s"
proof -
  have f: "busy t = busy s" "valid t = valid s" "dirty t = dirty s" "holds t = holds s" "mru xs t = mru xs s" for xs
    using assms by (auto simp: fun_eq_iff busy_def valid_def dirty_def holds_def mru_def nx_def pv_def)
  then show g: "dirtyset t = dirtyset s" "lockset t = lockset s"
    by (simp_all add: dirtyset_def lockset_def)
  show "bcache_inv t = bcache_inv s" "bview t = bview s" "owns t = owns s" "room t = room s"
    using assms f g by (simp_all add: bcache_inv_def bview_def [abs_def] owns_def [abs_def] room_def cong: option.case_cong)
qed

text \<open>The cache operations change the buffers, the disk, the history of writes and the process table.\<close>

definition dframe :: "'a bio_state_scheme \<Rightarrow> 'a bio_state_scheme \<Rightarrow> bool" where
  "dframe s t \<longleftrightarrow> t = s\<lparr>bufs := bufs t, ptable := ptable t, disk := disk t, writes := writes t\<rparr>"

lemma dframe_refl [simp, intro]: "dframe s s"
  by (simp add: dframe_def)

lemma dframe_trans [trans]: "dframe s t \<Longrightarrow> dframe t u \<Longrightarrow> dframe s u"
  by (cases s; cases t; cases u) (simp add: dframe_def)

lemma dframe_bframe: "bframe s t \<Longrightarrow> dframe s t"
  by (cases s; cases t) (simp add: dframe_def bframe_def)

lemma dframe_bufframe: "bufframe s t \<Longrightarrow> dframe s t"
  by (cases s; cases t) (simp add: dframe_def bufframe_def)

lemma dframe_wrote: "t = s\<lparr>bufs := B, disk := D, writes := W\<rparr> \<Longrightarrow> dframe s t"
  by (simp add: dframe_def)

lemma dframe_same: "dframe s t \<Longrightarrow> disksize t = disksize s"
  by (cases s; cases t) (simp add: dframe_def)

lemma dframe_log:
  fixes s t :: "'a log_state_scheme"
  assumes "dframe s t"
  shows "log_start t = log_start s" "log_size t = log_size s" "log_busy t = log_busy s" "log_dev t = log_dev s"
    "lh_n t = lh_n s" "lh_sector t = lh_sector s"
  using assms by (cases s; cases t; simp add: dframe_def)+

lemma bframe_same: "bframe s t \<Longrightarrow> disk t = disk s \<and> writes t = writes s"
  by (cases s; cases t) (simp add: bframe_def)

lemma bufframe_same: "bufframe s t \<Longrightarrow> disk t = disk s \<and> writes t = writes s"
  by (cases s; cases t) (simp add: bufframe_def)

definition apply_writes :: "(u32 \<times> block) list \<Rightarrow> (u32 \<Rightarrow> block) \<Rightarrow> u32 \<Rightarrow> block" where
  "apply_writes ws d = fold (\<lambda>(x, b) d. d(x := b)) ws d"

lemma apply_writes_simps [simp]:
  "apply_writes [] d = d" "apply_writes ((x, b) # ws) d = apply_writes ws (d(x := b))"
  "apply_writes (vs @ ws) d = apply_writes ws (apply_writes vs d)"
  by (simp_all add: apply_writes_def)

text \<open>Reading a sector, storing into its buffer and writing it through.\<close>

lemma store_write:
  fixes D :: "buf \<Rightarrow> block"
  assumes inv: "bcache_inv s" and br: "bread 1 sec s = Inr (b, s1)" and d: "d = D (bufs s1 b)"
  obtains s3 where "bwrite b (upd_buf b (\<lambda>x. x\<lparr>b_data := D x\<rparr>) s1) = Inr s3"
    "bcache_inv s3" "bview s3 = (bview s)(sec := d)" "dirtyset s3 = dirtyset s - {sec}"
    "lockset s3 = insert sec (lockset s)" "owns s3 b sec" "b_data (bufs s3 b) = d"
    "disk s3 = (disk s)(sec := d)" "writes s3 = writes s @ [(sec, d)]" "dframe s s3"
    "\<forall>c x. owns s c x \<longrightarrow> owns s3 c x \<and> b_data (bufs s3 c) = b_data (bufs s c)"
proof -
  note r = bread_ok [OF inv br]
  note f1 = bufframe_same [OF r(10)] dframe_bufframe [OF r(10)]
  define s2 where "s2 = upd_buf b (\<lambda>x. x\<lparr>b_data := D x\<rparr>) s1"
  note m = set_data_ok [OF r(3,5), of D, folded s2_def d]
  have own2: "owns s2 b sec" using m(5) r(5) by simp
  obtain s3 where bw: "bwrite b s2 = Inr s3" using bwrite_returns [OF m(1) own2] by blast
  note w = bwrite_ok [OF m(1) own2 bw]
  have s3: "disk s3 = (disk s2)(sec := b_data (bufs s2 b))" "writes s3 = writes s2 @ [(sec, b_data (bufs s2 b))]"
    by (subst w(7), simp)+
  have "dframe s s3"
    using f1(2) dframe_bufframe [OF m(7)] dframe_wrote [OF w(7)] by (blast intro: dframe_trans)
  moreover have "disk s3 = (disk s)(sec := d)" "writes s3 = writes s @ [(sec, d)]"
    using bufframe_same [OF m(7)] f1(1) s3 m(6) by simp_all
  moreover have "owns s3 c x \<and> b_data (bufs s3 c) = b_data (bufs s c)" if "owns s c x" for c x
    using r(11) [OF that] m(5,6) [of c] w(5,6) [of c] by simp
  ultimately show ?thesis using bw w(1-6) m(2-6) r(4,5,7,8) own2 unfolding s2_def
    by (intro that [of s3]) simp_all
qed

text \<open>The buffer of a sector that is clean or has what the disk has is released.\<close>

lemma release:
  assumes inv: "bcache_inv s" and own: "owns s b sec" and "sec \<in> dirtyset s \<or> b_data (bufs s b) = disk s sec"
  obtains t where "brelse b s = Inr t" "bcache_inv t" "bview t = bview s" "dirtyset t = dirtyset s"
    "lockset t = lockset s - {sec}" "disk t = disk s" "writes t = writes s" "dframe s t"
    "\<forall>c x. owns t c x \<longleftrightarrow> owns s c x \<and> c \<noteq> b" "\<forall>c. b_data (bufs t c) = b_data (bufs s c)"
proof -
  obtain t where br: "brelse b s = Inr t" using brelse_returns [OF own] by blast
  have "dirty s b" if "sec \<in> dirtyset s"
    using that own bcache_invD(3) [OF inv] by (auto simp: dirtyset_def owns_def)
  with assms(3) have "dirty s b \<or> b_data (bufs s b) = disk s sec" by blast
  note e = brelse_ok [OF inv own br this]
  show ?thesis using that [OF br] e bframe_same [OF e(7)] dframe_bframe [OF e(7)] by simp
qed

section \<open>Behaviour of the operations\<close>

lemma write_head_ok:
  assumes inv: "bcache_inv s" "log_dev s = 1" and pre: "log_start s < disksize s" "log_start s \<notin> lockset s" "room s"
  defines "hb \<equiv> put_head (lh_n s) (lh_sector s) (bview s (log_start s))"
  obtains t where "write_head s = Inr t" "bcache_inv t" "bview t = (bview s)(log_start s := hb)"
    "dirtyset t = dirtyset s - {log_start s}" "lockset t = lockset s"
    "disk t = (disk s)(log_start s := hb)" "writes t = writes s @ [(log_start s, hb)]" "dframe s t"
proof -
  let ?sec = "log_start s"
  obtain b s1 where br: "bread 1 ?sec s = Inr (b, s1)" using bread_total [OF inv(1) pre(1,2)] pre(3) by blast
  note r = bread_ok [OF inv(1) br]
  have hb: "hb = put_head (lh_n s1) (lh_sector s1) (b_data (bufs s1 b))"
    unfolding hb_def dframe_log [OF dframe_bufframe [OF r(10)]] r(6) ..
  obtain s3 where bw: "bwrite b (upd_buf b (\<lambda>x. x\<lparr>b_data := put_head (lh_n s1) (lh_sector s1) (b_data x)\<rparr>) s1) = Inr s3"
    and s3: "bcache_inv s3" "bview s3 = (bview s)(?sec := hb)" "dirtyset s3 = dirtyset s - {?sec}"
       "lockset s3 = insert ?sec (lockset s)" "owns s3 b ?sec" "b_data (bufs s3 b) = hb"
       "disk s3 = (disk s)(?sec := hb)" "writes s3 = writes s @ [(?sec, hb)]" "dframe s s3"
    by (rule store_write [where D = "\<lambda>x. put_head (lh_n s1) (lh_sector s1) (b_data x)", OF inv(1) br hb])
  have d: "b_data (bufs s3 b) = disk s3 ?sec" using s3 by simp
  obtain t where "brelse b s3 = Inr t" "bcache_inv t" "bview t = bview s3" "dirtyset t = dirtyset s3"
    "lockset t = lockset s3 - {?sec}" "disk t = disk s3" "writes t = writes s3" "dframe s3 t"
    by (rule release [OF s3(1,5) disjI2 [OF d]])
  with s3 bw br pre(2) inv(2) dframe_trans [OF s3(9)] show ?thesis
    by (intro that [of t]) (simp_all add: write_head_def Let_def)
qed

lemma install_step_ok:
  assumes inv: "bcache_inv s" "log_dev s = 1"
    and l: "l = log_start s + of_nat tail + 1" "l < disksize s" "l \<notin> lockset s" "l \<notin> dirtyset s" "room s"
    and x: "x = lh_sector s tail" "x < disksize s" "x \<notin> lockset s" "x \<noteq> l"
      "x \<in> dirtyset s \<or> card (dirtyset s) + card (lockset s) + 1 < NBUF"
  obtains t where "install_step tail s = Inr t" "bcache_inv t" "bview t = (bview s)(x := bview s l)"
    "dirtyset t = dirtyset s - {x}" "lockset t = lockset s"
    "disk t = (disk s)(x := bview s l)" "writes t = writes s @ [(x, bview s l)]" "dframe s t"
proof -
  obtain lbuf s1 where br1: "bread 1 l s = Inr (lbuf, s1)"
    using bread_total [OF inv(1) l(2,3)] l(5) by blast
  note r = bread_ok [OF inv(1) br1]
  note f1 = dframe_bufframe [OF r(10)] bufframe_same [OF r(10)]
  have "x \<notin> lockset s1" "x < disksize s1" using r(8) x dframe_same [OF f1(1)] by auto
  moreover have "room s1 \<or> x \<in> dirtyset s1" using x(5) r(7,8,9) by (auto simp: room_def)
  ultimately obtain dbuf s2 where br2: "bread 1 x s1 = Inr (dbuf, s2)" using bread_total [OF r(3), of x] by blast
  note r2 = bread_ok [OF r(3) br2]
  note f2 = dframe_bufframe [OF r2(10)]
  have dl: "bview s l = b_data (bufs s2 lbuf)" using r2(11) [OF r(5)] r(6) by simp
  obtain s3 where bw: "bwrite dbuf (upd_buf dbuf (\<lambda>x. x\<lparr>b_data := b_data (bufs s2 lbuf)\<rparr>) s2) = Inr s3"
    and s3: "bcache_inv s3" "bview s3 = (bview s1)(x := bview s l)" "dirtyset s3 = dirtyset s1 - {x}"
       "lockset s3 = insert x (lockset s1)" "owns s3 dbuf x" "b_data (bufs s3 dbuf) = bview s l"
       "disk s3 = (disk s1)(x := bview s l)" "writes s3 = writes s1 @ [(x, bview s l)]" "dframe s1 s3"
    and "\<forall>c y. owns s1 c y \<longrightarrow> owns s3 c y \<and> b_data (bufs s3 c) = b_data (bufs s1 c)"
    by (rule store_write [where D = "\<lambda>_. b_data (bufs s2 lbuf)", OF r(3) br2 dl])
  then have k3: "owns s3 c y \<and> b_data (bufs s3 c) = b_data (bufs s1 c)" if "owns s1 c y" for c y
    using that by blast
  have d: "b_data (bufs s3 lbuf) = disk s3 l" and own: "owns s3 lbuf l"
    using k3 [OF r(5)] r(6,12) s3(7) l(4) x(4) f1(2) by simp_all
  obtain s4 where s4: "brelse lbuf s3 = Inr s4" "bcache_inv s4" "bview s4 = bview s3" "dirtyset s4 = dirtyset s3"
    "lockset s4 = lockset s3 - {l}" "disk s4 = disk s3" "writes s4 = writes s3" "dframe s3 s4"
    "\<forall>c x. owns s4 c x \<longleftrightarrow> owns s3 c x \<and> c \<noteq> lbuf" "\<forall>c. b_data (bufs s4 c) = b_data (bufs s3 c)"
    by (rule release [OF s3(1) own disjI2 [OF d]])
  have "dbuf \<noteq> lbuf" using s3(5) k3 [OF r(5)] x(4) by (auto simp: owns_def holds_def)
  with s3 s4 have own: "owns s4 dbuf x" and d: "b_data (bufs s4 dbuf) = disk s4 x" by simp_all
  obtain t where t: "brelse dbuf s4 = Inr t" "bcache_inv t" "bview t = bview s4" "dirtyset t = dirtyset s4"
    "lockset t = lockset s4 - {x}" "disk t = disk s4" "writes t = writes s4" "dframe s4 t"
    by (rule release [OF s4(2) own disjI2 [OF d]])
  have "install_step tail s = Inr t"
    using br1 br2 bw s4(1) t(1) inv(2) l(1) x(1) f1(1)
    by (simp add: install_step_def Let_def dframe_log [OF f1(1)] dframe_log [OF f2])
  moreover have "lockset t = lockset s" using t(5) s4(5) s3(4) r(8) l(3) x(3,4) by auto
  moreover have "dframe s t" using f1(1) s3(9) s4(8) t(8) by (blast intro: dframe_trans)
  ultimately show ?thesis using t s4 s3 r(4,7) f1(2) by (intro that [of t]) simp_all
qed

section \<open>The log on the disk\<close>

definition log_block :: "u32 \<Rightarrow> nat \<Rightarrow> u32" where
  "log_block start i = start + of_nat i + 1"

definition install_writes :: "u32 \<Rightarrow> (nat \<Rightarrow> u32) \<Rightarrow> nat \<Rightarrow> (u32 \<Rightarrow> block) \<Rightarrow> (u32 \<times> block) list" where
  "install_writes start sector n d = map (\<lambda>i. (sector i, d (log_block start i))) [0..<n]"

definition head_n :: "block \<Rightarrow> int" where
  "head_n h = sint (get32 h 0)"

definition head_sector :: "block \<Rightarrow> nat \<Rightarrow> u32" where
  "head_sector h i = get32 h (4 + 4 * i)"

text \<open>What recovery writes for a disk with its log at \<open>start\<close>, and the disk it leaves.\<close>

definition recover_writes :: "u32 \<Rightarrow> (u32 \<Rightarrow> block) \<Rightarrow> (u32 \<times> block) list" where
  "recover_writes start d =
     install_writes start (head_sector (d start)) (nat (head_n (d start))) d @ [(start, put32 0 0 (d start))]"

definition recover_disk :: "u32 \<Rightarrow> (u32 \<Rightarrow> block) \<Rightarrow> u32 \<Rightarrow> block" where
  "recover_disk start d = apply_writes (recover_writes start d) d"

lemma put_head_get:
  "get32 (put_head n f d) 0 = of_int n"
  "i < nat n \<Longrightarrow> get32 (put_head n f d) (4 + 4 * i) = f i"
proof -
  have "get32 (fold (\<lambda>i. put32 (4 + 4 * i) (f i)) [0..<m] d) 0 = get32 d 0 \<and>
      (\<forall>i<m. get32 (fold (\<lambda>i. put32 (4 + 4 * i) (f i)) [0..<m] d) (4 + 4 * i) = f i)" for m d
  proof (induction m)
    case (Suc m)
    then show ?case by (auto simp: less_Suc_eq)
  qed simp
  then show "get32 (put_head n f d) 0 = of_int n"
    "i < nat n \<Longrightarrow> get32 (put_head n f d) (4 + 4 * i) = f i"
    by (simp_all add: put_head_def)
qed

lemma apply_writes_at:
  "apply_writes ws d x = (if x \<in> fst ` set ws then apply_writes ws (\<lambda>_ _. 0) x else d x)"
proof (induction ws arbitrary: d rule: rev_induct)
  case (snoc w ws)
  show ?case using snoc [of d] by (cases w) auto
qed simp

lemma apply_writes_other [simp]: "x \<notin> fst ` set ws \<Longrightarrow> apply_writes ws d x = d x"
  by (subst apply_writes_at) simp

text \<open>The \<open>len\<close> sectors from \<open>start\<close> lie on the disk.\<close>

definition log_fits :: "u32 \<Rightarrow> nat \<Rightarrow> u32 \<Rightarrow> bool" where
  "log_fits start len dsz \<longleftrightarrow> unat start + len \<le> unat dsz"

lemma log_block_unat: "log_fits start len dsz \<Longrightarrow> i + 1 < len \<Longrightarrow> unat (log_block start i) = unat start + i + 1"
proof -
  assume f: "log_fits start len dsz" and i: "i + 1 < len"
  with unat_lt2p_u32 [of dsz] have "unat start + (i + 1) < 2 ^ 32" by (simp add: log_fits_def)
  from unat_add_nat [OF this] show ?thesis by (simp add: log_block_def algebra_simps)
qed

lemma log_block_less: "log_fits start len dsz \<Longrightarrow> i + 1 < len \<Longrightarrow> log_block start i < dsz"
  using log_block_unat [of start len dsz i] by (simp add: word_less_nat_alt log_fits_def)

lemma log_block_gt: "log_fits start len dsz \<Longrightarrow> i + 1 < len \<Longrightarrow> start < log_block start i"
  using log_block_unat [of start len dsz i] by (simp add: word_less_nat_alt)

lemma log_block_inj:
  assumes "log_fits start len dsz" "i + 1 < len" "j + 1 < len"
  shows "log_block start i = log_block start j \<longleftrightarrow> i = j"
proof
  assume "log_block start i = log_block start j"
  then have "unat (log_block start i) = unat (log_block start j)" by simp
  then show "i = j" unfolding log_block_unat [OF assms(1,2)] log_block_unat [OF assms(1,3)] by simp
qed simp

text \<open>The installation loop writes each log block to its home sector, in order.\<close>

lemma install_writes_Suc:
  "install_writes start f (Suc k) d = install_writes start f k d @ [(f k, d (log_block start k))]"
  by (simp add: install_writes_def)

lemma install_writes_fst: "fst ` set (install_writes start f k d) = f ` {..<k}"
  by (force simp: install_writes_def image_def)

lemma install_loop:
  assumes inv: "bcache_inv s" "log_dev s = 1" and fit: "log_fits (log_start s) (Suc n) (disksize s)"
    and l: "\<And>i. i < n \<Longrightarrow> log_block (log_start s) i \<notin> lockset s \<union> dirtyset s" and room: "room s"
    and x: "\<And>i. i < n \<Longrightarrow> lh_sector s i < log_start s \<and> lh_sector s i \<notin> lockset s"
    and two: "inj_on (lh_sector s) {..<n} \<and> lh_sector s ` {..<n} \<subseteq> dirtyset s \<or>
              card (dirtyset s) + card (lockset s) + 1 < NBUF"
    and k: "k \<le> n"
  defines "ws \<equiv> install_writes (log_start s) (lh_sector s) k (bview s)"
  shows "\<exists>t. kfold install_step [0..<k] s = Inr t \<and> bcache_inv t \<and> bview t = apply_writes ws (bview s) \<and>
    dirtyset t = dirtyset s - lh_sector s ` {..<k} \<and> lockset t = lockset s \<and>
    disk t = apply_writes ws (disk s) \<and> writes t = writes s @ ws \<and> dframe s t"
  unfolding ws_def using k
proof (induction k)
  case 0
  with inv show ?case by (auto simp: install_writes_def)
next
  case (Suc k)
  let ?ws = "install_writes (log_start s) (lh_sector s) k (bview s)"
  let ?l = "log_block (log_start s) k" and ?x = "lh_sector s k"
  from Suc obtain u where u: "kfold install_step [0..<k] s = Inr u" "bcache_inv u" "bview u = apply_writes ?ws (bview s)"
    "dirtyset u = dirtyset s - lh_sector s ` {..<k}" "lockset u = lockset s"
    "disk u = apply_writes ?ws (disk s)" "writes u = writes s @ ?ws" "dframe s u"
    by auto
  note dl = dframe_log [OF u(8)] and ds = dframe_same [OF u(8)]
  from Suc.prems have kn: "k < n" "k + 1 < Suc n" by simp_all
  note lu = log_block_gt [OF fit kn(2)] log_block_less [OF fit kn(2)]
  have xl: "?x < ?l" using x [OF kn(1)] lu(1) by (blast intro: less_trans)
  have "?l \<notin> lh_sector s ` {..<k}" using x kn lu(1) by (metis (no_types, lifting) imageE lessThan_iff not_less_iff_gr_or_eq order_less_trans)
  then have bl: "bview u ?l = bview s ?l" by (simp add: u(3) install_writes_fst)
  have cd: "card (dirtyset u) \<le> card (dirtyset s)" unfolding u(4) by (intro card_mono) auto
  have ru: "room u" using room cd by (simp add: room_def u(5))
  have two': "?x \<in> dirtyset u \<or> card (dirtyset u) + card (lockset u) + 1 < NBUF"
  proof (rule disjE [OF two])
    assume a: "inj_on (lh_sector s) {..<n} \<and> lh_sector s ` {..<n} \<subseteq> dirtyset s"
    then have "?x \<notin> lh_sector s ` {..<k}" using kn by (auto dest: inj_onD)
    with a kn show ?thesis by (auto simp: u(4))
  qed (use cd u(5) in simp)
  have lx: "?l = log_start u + of_nat k + 1" "?l < disksize u" "?l \<notin> lockset u" "?l \<notin> dirtyset u"
      "?x = lh_sector u k" "?x < disksize u" "?x \<notin> lockset u" "?x \<noteq> ?l" "log_dev u = 1"
    using l [OF kn(1)] x [OF kn(1)] lu xl inv(2) by (auto simp: log_block_def dl ds u(4,5))
  obtain t where t: "install_step k u = Inr t" "bcache_inv t" "bview t = (bview u)(?x := bview u ?l)"
    "dirtyset t = dirtyset u - {?x}" "lockset t = lockset u"
    "disk t = (disk u)(?x := bview u ?l)" "writes t = writes u @ [(?x, bview u ?l)]" "dframe u t"
    by (rule install_step_ok [OF u(2) lx(9,1-4) ru lx(5-8) two'])
  have "kfold install_step [0..<Suc k] s = Inr t" using u(1) t(1) by (simp add: kfold_append)
  moreover have "dirtyset t = dirtyset s - lh_sector s ` {..<Suc k}" using t(4) u(4) by (auto simp: lessThan_Suc)
  ultimately show ?case
    using t(2,3,5-7) u(3,5,6,7) bl dframe_trans [OF u(8) t(8)] by (auto simp: install_writes_Suc)
qed

text \<open>\<open>commit_trans\<close> and \<open>recover_from_log\<close> end the same way: install the log, then clear its header.\<close>

definition clear_writes :: "'a log_state_scheme \<Rightarrow> (u32 \<times> block) list" where
  "clear_writes s =
     install_writes (log_start s) (lh_sector s) (nat (lh_n s)) (bview s) @
     [(log_start s, put32 0 0 (bview s (log_start s)))]"

lemma install_clear_ok:
  assumes inv: "bcache_inv s" "log_dev s = 1"
    and n: "n = nat (lh_n s)" and fit: "log_fits (log_start s) (Suc n) (disksize s)"
    and l: "\<And>i. i < n \<Longrightarrow> log_block (log_start s) i \<notin> lockset s \<union> dirtyset s" and room: "room s"
    and x: "\<And>i. i < n \<Longrightarrow> lh_sector s i < log_start s \<and> lh_sector s i \<notin> lockset s"
    and two: "inj_on (lh_sector s) {..<n} \<and> lh_sector s ` {..<n} \<subseteq> dirtyset s \<or>
              card (dirtyset s) + card (lockset s) + 1 < NBUF"
    and st: "log_start s \<notin> lockset s \<union> dirtyset s"
  obtains t where "kbind (install_trans s) (\<lambda>s. write_head (s\<lparr>lh_n := 0\<rparr>)) = Inr t" "bcache_inv t"
    "bview t = apply_writes (clear_writes s) (bview s)" "disk t = apply_writes (clear_writes s) (disk s)"
    "writes t = writes s @ clear_writes s" "dirtyset t = dirtyset s - lh_sector s ` {..<n}"
    "lockset t = lockset s" "dframe (s\<lparr>lh_n := 0\<rparr>) t"
proof -
  let ?st = "log_start s" and ?ws = "install_writes (log_start s) (lh_sector s) n (bview s)"
  obtain u where u: "install_trans s = Inr u" "bcache_inv u" "bview u = apply_writes ?ws (bview s)"
    "dirtyset u = dirtyset s - lh_sector s ` {..<n}" "lockset u = lockset s"
    "disk u = apply_writes ?ws (disk s)" "writes u = writes s @ ?ws" "dframe s u"
    unfolding install_trans_def n [symmetric]
    using install_loop [OF inv fit l room x two order_refl] by blast
  let ?v = "u\<lparr>lh_n := 0\<rparr>"
  note c = dframe_log [OF u(8)] dframe_same [OF u(8)] and b = bio_cong [of ?v u, simplified]
  have "card (dirtyset u) \<le> card (dirtyset s)" unfolding u(4) by (intro card_mono) auto
  with room have "room u" by (simp add: room_def u(5))
  with u b c inv st have v: "bcache_inv ?v" "log_dev ?v = 1" "log_start ?v < disksize ?v"
      "log_start ?v \<notin> lockset ?v" "room ?v"
    using fit by (auto simp: log_fits_def word_less_nat_alt)
  have "?st \<notin> lh_sector s ` {..<n}" using x by (metis imageE lessThan_iff less_irrefl)
  then have "bview u ?st = bview s ?st" by (simp add: u(3) install_writes_fst)
  then have e: "put_head (lh_n ?v) (lh_sector ?v) (bview ?v (log_start ?v)) = put32 0 0 (bview s ?st)"
    using b(2) c by (simp add: put_head_def)
  have e2: "log_start ?v = ?st" using c by simp
  obtain t where t: "write_head ?v = Inr t" "bcache_inv t" "bview t = (bview ?v)(?st := put32 0 0 (bview s ?st))"
    "dirtyset t = dirtyset ?v - {?st}" "lockset t = lockset ?v" "disk t = (disk ?v)(?st := put32 0 0 (bview s ?st))"
    "writes t = writes ?v @ [(?st, put32 0 0 (bview s ?st))]" "dframe ?v t"
    by (rule write_head_ok [OF v, unfolded e, unfolded e2])
  have "dframe (s\<lparr>lh_n := 0\<rparr>) ?v" using u(8) by (cases s; cases u) (simp add: dframe_def)
  with t show ?thesis using u st b
    by (intro that [of t]) (auto simp: clear_writes_def n [symmetric] intro: dframe_trans)
qed

lemma readsb_ok:
  assumes inv: "bcache_inv s" and pre: "1 < disksize s" "1 \<notin> lockset s" "room s"
  obtains t where "readsb ROOTDEV s = Inr (decode_sb (bview s 1), t)" "bcache_inv t" "bview t = bview s"
    "dirtyset t = dirtyset s" "lockset t = lockset s" "disk t = disk s" "writes t = writes s" "dframe s t"
proof -
  obtain b s1 where br: "bread 1 1 s = Inr (b, s1)" using bread_total [OF inv pre(1,2)] pre(3) by blast
  note r = bread_ok [OF inv br]
  note f1 = bufframe_same [OF r(10)] dframe_bufframe [OF r(10)]
  have d: "1 \<in> dirtyset s1 \<or> b_data (bufs s1 b) = disk s1 1" using r(6,7,12) f1(1) by auto
  obtain t where t: "brelse b s1 = Inr t" "bcache_inv t" "bview t = bview s1" "dirtyset t = dirtyset s1"
    "lockset t = lockset s1 - {1}" "disk t = disk s1" "writes t = writes s1" "dframe s1 t"
    by (rule release [OF r(3,5) d])
  show ?thesis
    using br t r(4,6,7,8,9) f1 dframe_trans [OF f1(2) t(8)]
    by (intro that [of t]) (simp_all add: readsb_def ROOTDEV_def)
qed

lemma read_head_ok:
  assumes inv: "bcache_inv s" "log_dev s = 1"
    and pre: "log_start s < disksize s" "log_start s \<notin> lockset s" "room s"
    and h: "h = bview s (log_start s)" "head_n h \<le> int LOGSIZE"
  obtains t where "read_head s = Inr t" "bcache_inv t" "bview t = bview s" "dirtyset t = dirtyset s"
    "lockset t = lockset s" "disk t = disk s" "writes t = writes s" "lh_n t = head_n h"
    "\<forall>i < nat (head_n h). lh_sector t i = head_sector h i"
    "log_start t = log_start s" "log_dev t = log_dev s" "log_size t = log_size s" "log_busy t = log_busy s"
    "disksize t = disksize s"
proof -
  let ?sec = "log_start s"
  obtain b s1 where br: "bread 1 ?sec s = Inr (b, s1)" using bread_total [OF inv(1) pre(1,2)] pre(3) by blast
  note r = bread_ok [OF inv(1) br]
  note f1 = bufframe_same [OF r(10)] dframe_bufframe [OF r(10)]
  define s2 where "s2 = s1\<lparr>lh_n := head_n h,
    lh_sector := (\<lambda>i. if i < nat (head_n h) then head_sector h i else lh_sector s1 i)\<rparr>"
  have s2: "bcache_inv s2" "bview s2 = bview s1" "dirtyset s2 = dirtyset s1" "lockset s2 = lockset s1"
      "owns s2 b ?sec" "disk s2 = disk s1" "bufs s2 = bufs s1" "writes s2 = writes s1"
    using r(3,5) by (simp_all add: s2_def bio_cong [of s2 s1, unfolded s2_def])
  have d: "?sec \<in> dirtyset s2 \<or> b_data (bufs s2 b) = disk s2 ?sec" using r(6,7,12) f1(1) s2 by auto
  obtain t where t: "brelse b s2 = Inr t" "bcache_inv t" "bview t = bview s2" "dirtyset t = dirtyset s2"
    "lockset t = lockset s2 - {?sec}" "disk t = disk s2" "writes t = writes s2" "dframe s2 t"
    by (rule release [OF s2(1,5) d])
  have "read_head s = brelse b s2"
    using br h inv(2) r(6)
    by (simp add: read_head_def Let_def s2_def head_n_def head_sector_def [abs_def] cong: if_cong)
  with t show ?thesis
    using s2 r(4,7,8,9) f1 dframe_log [OF t(8)] dframe_log [OF f1(2)] dframe_same [OF t(8)] dframe_same [OF f1(2)]
    by (intro that [of t]) (simp_all add: s2_def)
qed

text \<open>
  A state after a reboot: the cache is empty or clean and nothing is locked. A log is well formed
  when its header fits and names sectors in front of the log.
\<close>

definition boot_ok :: "'a log_state_scheme \<Rightarrow> bool" where
  "boot_ok s \<longleftrightarrow> bcache_inv s \<and> dirtyset s = {} \<and> lockset s = {}"

definition log_wf :: "u32 \<Rightarrow> nat \<Rightarrow> (u32 \<Rightarrow> block) \<Rightarrow> bool" where
  "log_wf start len d \<longleftrightarrow>
     head_n (d start) \<le> int LOGSIZE \<and> head_n (d start) < int len \<and>
     (\<forall>i < nat (head_n (d start)). head_sector (d start) i < start)"

lemma boot_view: "boot_ok s \<Longrightarrow> bview s = disk s"
proof
  fix x assume b: "boot_ok s"
  then have inv: "bcache_inv s" and n: "\<And>c y. holds s c y \<Longrightarrow> \<not> dirty s c \<and> \<not> busy s c"
    by (auto simp: boot_ok_def dirtyset_def lockset_def)
  show "bview s x = disk s x" by (rule bview_eqI [OF inv]) (use n bcache_invD(7) [OF inv] in auto)
qed

lemma install_writes_cong:
  "(\<And>i. i < n \<Longrightarrow> f i = g i) \<Longrightarrow> install_writes start f n d = install_writes start g n d"
  by (simp add: install_writes_def)

lemma log_block_start: "log_fits start len dsz \<Longrightarrow> 0 < len \<Longrightarrow> start < dsz"
  by (simp add: log_fits_def word_less_nat_alt)

lemma log_fits_mono: "log_fits start len dsz \<Longrightarrow> k \<le> len \<Longrightarrow> log_fits start k dsz"
  by (simp add: log_fits_def)

lemma recover_ok:
  assumes boot: "boot_ok s" and dev: "log_dev s = 1" and fit: "log_fits (log_start s) len (disksize s)" "0 < len"
    and wf: "log_wf (log_start s) len (disk s)"
  obtains t where "recover_from_log s = Inr t" "boot_ok t" "lh_n t = 0"
    "disk t = recover_disk (log_start s) (disk s)" "writes t = writes s @ recover_writes (log_start s) (disk s)"
    "log_start t = log_start s" "log_dev t = 1" "log_size t = log_size s" "log_busy t = log_busy s"
    "disksize t = disksize s"
proof -
  let ?st = "log_start s" and ?h = "disk s (log_start s)"
  let ?n = "nat (head_n ?h)" and ?f = "head_sector ?h"
  have inv: "bcache_inv s" and none: "dirtyset s = {}" "lockset s = {}" using boot by (auto simp: boot_ok_def)
  have v: "bview s = disk s" by (rule boot_view [OF boot])
  have room: "room s" by (simp add: room_def none NBUF_def)
  have st: "?st < disksize s" by (rule log_block_start [OF fit])
  have fitn: "log_fits ?st (Suc ?n) (disksize s)"
    using fit wf by (auto intro: log_fits_mono simp: log_wf_def)
  obtain s1 where s1: "read_head s = Inr s1" "bcache_inv s1" "bview s1 = bview s" "dirtyset s1 = dirtyset s"
    "lockset s1 = lockset s" "disk s1 = disk s" "writes s1 = writes s" "lh_n s1 = head_n ?h"
    "\<forall>i < ?n. lh_sector s1 i = ?f i"
    "log_start s1 = ?st" "log_dev s1 = log_dev s" "log_size s1 = log_size s" "log_busy s1 = log_busy s"
    "disksize s1 = disksize s"
    by (rule read_head_ok [OF inv dev st _ room, where h = ?h]) (use none v wf in \<open>simp_all add: log_wf_def\<close>)
  have ws: "clear_writes s1 = recover_writes ?st (disk s)"
    using s1(9) by (auto simp: clear_writes_def recover_writes_def s1(3,8,10) v intro: install_writes_cong)
  obtain t where t: "kbind (install_trans s1) (\<lambda>s. write_head (s\<lparr>lh_n := 0\<rparr>)) = Inr t" "bcache_inv t"
    "disk t = apply_writes (clear_writes s1) (disk s1)" "writes t = writes s1 @ clear_writes s1"
    "dirtyset t = dirtyset s1 - lh_sector s1 ` {..<?n}" "lockset t = lockset s1" "dframe (s1\<lparr>lh_n := 0\<rparr>) t"
    by (rule install_clear_ok [OF s1(2), where n = ?n])
      (use dev fitn s1 none wf in \<open>auto simp: room_def NBUF_def log_wf_def\<close>)
  have "recover_from_log s = Inr t" using s1(1) t(1) by (simp add: recover_from_log_def)
  moreover have "boot_ok t" using t s1(4,5) none by (simp add: boot_ok_def)
  ultimately show ?thesis
    using t(3,4) s1(6,7) dframe_log [OF t(7)] dframe_same [OF t(7)] s1(10-14) dev
    by (intro that [of t]) (simp_all add: ws recover_disk_def)
qed

section \<open>Transactions\<close>

text \<open>The sectors of the transaction, in the order of the header.\<close>

definition logged :: "'a log_state_scheme \<Rightarrow> u32 list" where
  "logged s = map (lh_sector s) [0..<nat (lh_n s)]"

text \<open>
  The invariant of the log: its geometry; the header on the disk is clear; the logged sectors are
  distinct, lie in front of the log and are the dirty ones; the log block of a logged sector that
  nobody holds has its contents; nobody holds a sector of the log.
\<close>

definition log_inv :: "'a log_state_scheme \<Rightarrow> bool" where
  "log_inv s \<longleftrightarrow>
     bcache_inv s \<and> log_dev s = 1 \<and> 1 < log_size s \<and> log_fits (log_start s) (nat (log_size s)) (disksize s) \<and>
     0 \<le> lh_n s \<and> lh_n s \<le> int LOGSIZE \<and> lh_n s < log_size s \<and>
     head_n (disk s (log_start s)) = 0 \<and>
     distinct (logged s) \<and> (\<forall>x\<in>set (logged s). x < log_start s) \<and> dirtyset s = set (logged s) \<and>
     (\<forall>i < length (logged s). logged s ! i \<notin> lockset s \<longrightarrow>
        disk s (log_block (log_start s) i) = bview s (logged s ! i)) \<and>
     (\<forall>x\<in>lockset s. x < log_start s)"

lemma logged_simps [simp]:
  "length (logged s) = nat (lh_n s)" "i < nat (lh_n s) \<Longrightarrow> logged s ! i = lh_sector s i"
  "set (logged s) = lh_sector s ` {..<nat (lh_n s)}"
  by (auto simp: logged_def)

lemma logged_inj: "distinct (logged s) \<longleftrightarrow> inj_on (lh_sector s) {..<nat (lh_n s)}"
  by (simp add: logged_def distinct_map lessThan_atLeast0)

text \<open>The writes of a commit: the header with the logged sectors, the home sectors, the cleared header.\<close>

definition head_of :: "'a log_state_scheme \<Rightarrow> block" where
  "head_of s = put_head (lh_n s) (lh_sector s) (disk s (log_start s))"

definition commit_writes :: "'a log_state_scheme \<Rightarrow> (u32 \<times> block) list" where
  "commit_writes s =
     (if lh_n s > 0 then
        [(log_start s, head_of s)] @
        map (\<lambda>i. (lh_sector s i, bview s (lh_sector s i))) [0..<nat (lh_n s)] @
        [(log_start s, put32 0 0 (head_of s))]
      else [])"

lemma log_view:
  assumes "bcache_inv s" "x \<notin> lockset s" "x \<notin> dirtyset s"
  shows "bview s x = disk s x"
  by (rule bview_eqI [OF assms(1)])
    (use assms bcache_invD(7) [OF assms(1)] in \<open>auto simp: lockset_def dirtyset_def\<close>)

text \<open>The facts of the invariant when nobody holds a buffer.\<close>

lemma log_inv_quiet:
  assumes inv: "log_inv s" and quiet: "lockset s = {}"
  shows "bcache_inv s" "log_dev s = 1" "log_fits (log_start s) (nat (log_size s)) (disksize s)"
    "nat (lh_n s) < nat (log_size s)" "log_start s < disksize s" "log_start s \<notin> dirtyset s"
    "i < nat (lh_n s) \<Longrightarrow> log_start s < log_block (log_start s) i"
    "i < nat (lh_n s) \<Longrightarrow> log_block (log_start s) i \<notin> dirtyset s"
    "i < nat (lh_n s) \<Longrightarrow> bview s (log_block (log_start s) i) = bview s (lh_sector s i)"
    "i < nat (lh_n s) \<Longrightarrow> lh_sector s i < log_start s"
    "bview s (log_start s) = disk s (log_start s)"
    "card (dirtyset s) = nat (lh_n s)"
proof -
  from inv show b: "bcache_inv s" "log_dev s = 1" and fit: "log_fits (log_start s) (nat (log_size s)) (disksize s)"
    and n: "nat (lh_n s) < nat (log_size s)"
    by (auto simp: log_inv_def)
  from inv have sz: "0 < nat (log_size s)" and d: "dirtyset s = lh_sector s ` {..<nat (lh_n s)}"
    and inj: "inj_on (lh_sector s) {..<nat (lh_n s)}"
    and x: "\<And>i. i < nat (lh_n s) \<Longrightarrow> lh_sector s i < log_start s"
    and v: "\<And>i. i < nat (lh_n s) \<Longrightarrow> disk s (log_block (log_start s) i) = bview s (lh_sector s i)"
    using quiet by (auto simp: log_inv_def logged_inj)
  show "log_start s < disksize s" by (rule log_block_start [OF fit sz])
  show st: "log_start s \<notin> dirtyset s" unfolding d using x by (metis imageE lessThan_iff less_irrefl)
  then show "bview s (log_start s) = disk s (log_start s)" using log_view [OF b(1)] quiet by simp
  show "card (dirtyset s) = nat (lh_n s)" using inj by (simp add: d card_image)
  assume i: "i < nat (lh_n s)"
  show "lh_sector s i < log_start s" by (rule x [OF i])
  show gt: "log_start s < log_block (log_start s) i" using log_block_gt [OF fit, of i] i n by simp
  show nd: "log_block (log_start s) i \<notin> dirtyset s" unfolding d using x gt by (metis imageE lessThan_iff less_asym')
  show "bview s (log_block (log_start s) i) = bview s (lh_sector s i)"
    using log_view [OF b(1) _ nd] quiet v [OF i] by simp
qed

lemma commit_ok:
  assumes inv: "log_inv s" and quiet: "lockset s = {}" and n: "nat (lh_n s) < NBUF"
  obtains t where "commit_trans s = Inr t" "bcache_inv t" "dirtyset t = {}" "lockset t = {}"
    "writes t = writes s @ commit_writes s" "disk t = apply_writes (commit_writes s) (disk s)"
    "\<not> log_busy t" "lh_n t = 0" "log_start t = log_start s" "log_dev t = 1" "log_size t = log_size s"
    "disksize t = disksize s"
proof (cases "lh_n s > 0")
  case False
  let ?t = "wakeup ChLog (s\<lparr>log_busy := False\<rparr>)"
  have fr: "dframe (s\<lparr>log_busy := False\<rparr>) ?t" by (intro dframe_bframe) simp
  have "lh_n s = 0" using False inv by (simp add: log_inv_def)
  with inv quiet bio_cong [of ?t s] dframe_log [OF fr] dframe_same [OF fr] show ?thesis
    by (intro that [of ?t]) (auto simp: commit_trans_def commit_writes_def log_inv_def wakeup_def wakeup1_def logged_def)
next
  case True
  note q = log_inv_quiet [OF inv quiet]
  let ?n = "nat (lh_n s)" and ?st = "log_start s"
  have room: "room s" using n by (simp add: room_def q(12) quiet)
  obtain u where u: "write_head s = Inr u" "bcache_inv u" "bview u = (bview s)(?st := head_of s)"
    "dirtyset u = dirtyset s - {?st}" "lockset u = lockset s"
    "disk u = (disk s)(?st := head_of s)" "writes u = writes s @ [(?st, head_of s)]" "dframe s u"
    unfolding head_of_def q(11) [symmetric]
    by (rule write_head_ok [OF q(1,2,5) _ room]) (simp_all add: quiet)
  note c = dframe_log [OF u(8)] dframe_same [OF u(8)]
  have du: "dirtyset u = lh_sector s ` {..<?n}" using u(4) q(6) inv by (auto simp: log_inv_def)
  have fit: "log_fits ?st (Suc ?n) (disksize u)" using log_fits_mono [OF q(3) Suc_leI [OF q(4)]] c by simp
  obtain t where t: "kbind (install_trans u) (\<lambda>s. write_head (s\<lparr>lh_n := 0\<rparr>)) = Inr t" "bcache_inv t"
    "disk t = apply_writes (clear_writes u) (disk u)" "writes t = writes u @ clear_writes u"
    "dirtyset t = dirtyset u - lh_sector u ` {..<?n}" "lockset t = lockset u" "dframe (u\<lparr>lh_n := 0\<rparr>) t"
    by (rule install_clear_ok [OF u(2), where n = ?n])
      (use fit q u(4,5) c quiet du room n inv in \<open>auto simp: room_def log_inv_def logged_inj\<close>)
  have "bview u (log_block ?st i) = bview s (lh_sector s i)" if "i < ?n" for i
    using q(7,9) [OF that] by (auto simp: u(3))
  then have ws: "[(?st, head_of s)] @ clear_writes u = commit_writes s"
    using True by (simp add: clear_writes_def commit_writes_def install_writes_def c u(3))
  let ?w = "wakeup ChLog (t\<lparr>log_busy := False\<rparr>)"
  have fw: "dframe (t\<lparr>log_busy := False\<rparr>) ?w" by (intro dframe_bframe) simp
  have "commit_trans s = Inr ?w" using True u(1) t(1) by (simp add: commit_trans_def)
  moreover have "bcache_inv ?w" "dirtyset ?w = {}" "lockset ?w = {}" "disk ?w = disk t" "writes ?w = writes t"
    using bio_cong [of ?w t] t du c u(5) quiet by (simp_all add: wakeup_def wakeup1_def)
  ultimately show ?thesis
    using t(3,4) u(6,7) ws [symmetric] dframe_log [OF fw] dframe_same [OF fw] dframe_log [OF t(7)] dframe_same [OF t(7)] c q(2)
    by (intro that [of ?w]) simp_all
qed

section \<open>Crashes\<close>

lemma apply_writes_absorb:
  assumes "fst ` set vs \<subseteq> fst ` set ws"
  shows "apply_writes ws (apply_writes vs d) = apply_writes ws d"
proof
  fix x
  have "x \<notin> fst ` set ws \<Longrightarrow> x \<notin> fst ` set vs" using assms by blast
  then show "apply_writes ws (apply_writes vs d) x = apply_writes ws d x"
    using apply_writes_at [of ws d x] apply_writes_at [of ws "apply_writes vs d" x] by simp
qed

lemma apply_writes_const:
  assumes "\<And>y b. (y, b) \<in> set ws \<Longrightarrow> b = f y"
  shows "apply_writes ws d x = (if x \<in> fst ` set ws then f x else d x)"
  using assms
proof (induction ws arbitrary: d)
  case (Cons w ws)
  then show ?case by (cases w) (auto simp: image_iff)
qed simp

lemma put32_put32 [simp]: "put32 i w (put32 i v d) = put32 i w d"
  by (auto simp: put32_def fun_eq_iff)

text \<open>A crash at any write of a recovery does not change where a second recovery ends.\<close>

lemma recover_prefix:
  assumes fit: "log_fits start len dsz" and wf: "log_wf start len d"
  shows "recover_disk start (apply_writes (take k (recover_writes start d)) d) = recover_disk start d"
proof (cases "k < length (recover_writes start d)")
  case True
  let ?h = "d start" and ?n = "nat (head_n (d start))" and ?f = "head_sector (d start)"
  let ?ws = "install_writes start ?f ?n d"
  let ?d = "apply_writes (take k ?ws) d"
  have tk: "take k (recover_writes start d) = take k ?ws" using True by (simp add: recover_writes_def)
  have sub: "fst ` set (take k ?ws) \<subseteq> ?f ` {..<?n}"
    using set_take_subset [of k ?ws] install_writes_fst [of start ?f ?n d] by fast
  have low: "x < start" if "x \<in> fst ` set (take k ?ws)" for x using sub that wf by (auto simp: log_wf_def)
  then have hd: "?d start = ?h" by (intro apply_writes_other) auto
  have "?d (log_block start i) = d (log_block start i)" if "i < ?n" for i
  proof (rule apply_writes_other)
    have "i + 1 < len" using that wf by (auto simp: log_wf_def)
    then show "log_block start i \<notin> fst ` set (take k ?ws)"
      using log_block_gt [OF fit] low less_asym' by blast
  qed
  then have "install_writes start ?f ?n ?d = ?ws" by (simp add: install_writes_def)
  then have r: "recover_writes start ?d = recover_writes start d" by (simp add: recover_writes_def hd)
  have "fst ` set (take k ?ws) \<subseteq> fst ` set (recover_writes start d)"
    using set_take_subset [of k ?ws] by (auto simp: recover_writes_def)
  then show ?thesis unfolding tk recover_disk_def r by (rule apply_writes_absorb)
next
  case False
  let ?d = "recover_disk start d"
  have "?d start = put32 0 0 (d start)" by (simp add: recover_disk_def recover_writes_def)
  then have "recover_writes start ?d = [(start, ?d start)]"
    by (simp add: recover_writes_def install_writes_def head_n_def)
  then have "recover_disk start ?d = ?d" by (simp add: recover_disk_def)
  with False show ?thesis by (simp add: recover_disk_def)
qed

lemma head_of_get:
  assumes "log_inv s"
  shows "head_n (head_of s) = lh_n s" "i < nat (lh_n s) \<Longrightarrow> head_sector (head_of s) i = lh_sector s i"
proof -
  have "0 \<le> lh_n s" "lh_n s \<le> 10" using assms by (auto simp: log_inv_def LOGSIZE_def)
  then have "sint (word_of_int (lh_n s) :: u32) = lh_n s" by (simp add: sint_sbintrunc' signed_take_bit_int_eq_self)
  then show "head_n (head_of s) = lh_n s" by (simp add: head_n_def head_of_def put_head_get)
  show "i < nat (lh_n s) \<Longrightarrow> head_sector (head_of s) i = lh_sector s i"
    by (simp add: head_sector_def head_of_def put_head_get)
qed

text \<open>
  A crash in a commit: after no write recovery gives the disk before the transaction, after one or
  more it gives the disk the transaction stands for. The rest of a commit is a recovery.
\<close>

lemma commit_is_recovery:
  assumes inv: "log_inv s" and n: "0 < lh_n s" and quiet: "lockset s = {}"
  defines "d1 \<equiv> (disk s)(log_start s := head_of s)"
  shows "commit_writes s = (log_start s, head_of s) # recover_writes (log_start s) d1"
    and "log_wf (log_start s) (nat (log_size s)) d1"
proof -
  note q = log_inv_quiet [OF inv quiet] and h = head_of_get [OF inv]
  have blk: "d1 (log_block (log_start s) i) = bview s (lh_sector s i)" if "i < nat (lh_n s)" for i
    using inv that q(7) [OF that] quiet by (auto simp: d1_def log_inv_def)
  have st: "d1 (log_start s) = head_of s" by (simp add: d1_def)
  show "commit_writes s = (log_start s, head_of s) # recover_writes (log_start s) d1"
    using n blk by (auto simp: commit_writes_def recover_writes_def st h install_writes_def)
  show "log_wf (log_start s) (nat (log_size s)) d1"
    using inv q(10) by (auto simp: log_wf_def st h log_inv_def)
qed

lemma recover_clear: "head_n (d start) = 0 \<Longrightarrow> x \<noteq> start \<Longrightarrow> recover_disk start d x = d x"
  by (simp add: recover_disk_def recover_writes_def install_writes_def)

lemma commit_crash:
  assumes inv: "log_inv s" and quiet: "lockset s = {}" and x: "x < log_start s"
  shows "recover_disk (log_start s) (apply_writes (take k (commit_writes s)) (disk s)) x =
    (if k = 0 then disk s x else bview s x)"
proof (cases "0 < lh_n s \<and> 0 < k")
  case False
  have hd: "head_n (disk s (log_start s)) = 0" using inv by (simp add: log_inv_def)
  have "disk s x = bview s x" if "lh_n s = 0"
    using log_view [of s x] inv quiet that by (simp add: log_inv_def logged_def)
  moreover have "0 \<le> lh_n s" using inv by (simp add: log_inv_def)
  ultimately show ?thesis using False x recover_clear [of "disk s" "log_start s" x] hd by (auto simp: commit_writes_def)
next
  case True
  let ?st = "log_start s" and ?d1 = "(disk s)(log_start s := head_of s)"
  have "0 < lh_n s" using True by simp
  note c = commit_is_recovery [OF inv this quiet] and h = head_of_get [OF inv] and q = log_inv_quiet [OF inv quiet]
  obtain k' where k: "k = Suc k'" using True by (cases k) auto
  have "recover_disk ?st (apply_writes (take k (commit_writes s)) (disk s)) = recover_disk ?st ?d1"
    using recover_prefix [OF q(3) c(2)] by (simp add: c(1) k)
  also have "recover_disk ?st ?d1 = apply_writes (commit_writes s) (disk s)"
    by (simp add: c(1) recover_disk_def)
  finally have e: "recover_disk ?st (apply_writes (take k (commit_writes s)) (disk s)) = apply_writes (commit_writes s) (disk s)" .
  have "apply_writes (commit_writes s) (disk s) x = apply_writes (map (\<lambda>i. (lh_sector s i, bview s (lh_sector s i))) [0..<nat (lh_n s)]) ?d1 x"
    using True x by (auto simp: commit_writes_def)
  also have "\<dots> = (if x \<in> lh_sector s ` {..<nat (lh_n s)} then bview s x else disk s x)"
    using x by (subst apply_writes_const [where f = "bview s"]) (auto simp: image_image lessThan_atLeast0)
  also have "\<dots> = bview s x"
    using log_view [of s x] inv quiet by (auto simp: log_inv_def)
  finally show ?thesis using True e by simp
qed

section \<open>The steps of a transaction\<close>

lemma log_slot_cases:
  fixes s :: "'a log_state_scheme"
  obtains (old) "log_slot x s < nat (lh_n s)" "lh_sector s (log_slot x s) = x"
  | (new) "log_slot x s = nat (lh_n s)" "x \<notin> lh_sector s ` {..<nat (lh_n s)}"
proof (cases "List.find (\<lambda>i. lh_sector s i = x) [0..<nat (lh_n s)]")
  case None
  then have "log_slot x s = nat (lh_n s)" by (simp add: log_slot_def)
  with None show ?thesis by (intro new) (auto simp: find_None_iff)
next
  case (Some i)
  then show ?thesis using find_SomeD [OF Some] by (intro old) (auto simp: log_slot_def)
qed

text \<open>What \<open>log_write\<close> leaves, for the owner of a buffer of a sector in front of the log.\<close>

lemma log_write_effect:
  assumes inv: "log_inv s" and own: "owns s b x" and lw: "log_write b s = Inr t"
  defines "i \<equiv> log_slot x s" and "d \<equiv> b_data (bufs s b)"
  defines "l \<equiv> log_block (log_start s) i"
  shows "lh_n s < int LOGSIZE" "lh_n s < log_size s - 1" "log_busy s"
    "bcache_inv t" "bview t = (bview s)(l := d)" "dirtyset t = insert x (dirtyset s)" "lockset t = lockset s"
    "disk t = (disk s)(l := d)" "writes t = writes s @ [(l, d)]"
    "dframe (s\<lparr>lh_sector := (lh_sector s)(i := x), lh_n := (if int i = lh_n s then lh_n s + 1 else lh_n s)\<rparr>) t"
    "owns s c y \<Longrightarrow> owns t c y \<and> b_data (bufs t c) = b_data (bufs s c)"
proof -
  have bx: "b_sector (bufs s b) = x" "b_dev (bufs s b) = 1" using own by (auto simp: owns_def holds_def)
  let ?s0 = "s\<lparr>lh_sector := (lh_sector s)(i := x)\<rparr>"
  from lw show g: "lh_n s < int LOGSIZE" "lh_n s < log_size s - 1" "log_busy s"
    by (auto simp: log_write_def split: if_splits)
  from lw g obtain lbuf s1 where br: "bread 1 l ?s0 = Inr (lbuf, s1)"
    and rest: "kbind (bwrite lbuf (upd_buf lbuf (\<lambda>y. y\<lparr>b_data := b_data (bufs s1 b)\<rparr>) s1)) (\<lambda>s.
       kbind (brelse lbuf s) (\<lambda>s. Inr (upd_buf b (\<lambda>y. y\<lparr>b_flags := b_flags y OR B_DIRTY\<rparr>)
         (if int i = lh_n s then s\<lparr>lh_n := lh_n s + 1\<rparr> else s)))) = Inr t"
    by (auto simp: log_write_def Let_def bx kbind_returns i_def [symmetric] l_def log_block_def)
  note c0 = bio_cong [of ?s0 s, simplified]
  have inv0: "bcache_inv ?s0" using inv c0 by (simp add: log_inv_def)
  note r = bread_ok [OF inv0 br]
  have d: "d = b_data (bufs s1 b)" using r(11) [of b x] own c0 by (simp add: d_def)
  obtain s3 where bw: "bwrite lbuf (upd_buf lbuf (\<lambda>y. y\<lparr>b_data := b_data (bufs s1 b)\<rparr>) s1) = Inr s3"
    and s3: "bcache_inv s3" "bview s3 = (bview ?s0)(l := d)" "dirtyset s3 = dirtyset ?s0 - {l}"
      "lockset s3 = insert l (lockset ?s0)" "owns s3 lbuf l" "b_data (bufs s3 lbuf) = d"
      "disk s3 = (disk ?s0)(l := d)" "writes s3 = writes ?s0 @ [(l, d)]" "dframe ?s0 s3"
      "\<forall>c x. owns ?s0 c x \<longrightarrow> owns s3 c x \<and> b_data (bufs s3 c) = b_data (bufs ?s0 c)"
    by (rule store_write [where D = "\<lambda>_. b_data (bufs s1 b)", OF inv0 br d])
  have e: "b_data (bufs s3 lbuf) = disk s3 l" using s3 by simp
  obtain s4 where s4: "brelse lbuf s3 = Inr s4" "bcache_inv s4" "bview s4 = bview s3" "dirtyset s4 = dirtyset s3"
    "lockset s4 = lockset s3 - {l}" "disk s4 = disk s3" "writes s4 = writes s3" "dframe s3 s4"
    "\<forall>c x. owns s4 c x \<longleftrightarrow> owns s3 c x \<and> c \<noteq> lbuf" "\<forall>c. b_data (bufs s4 c) = b_data (bufs s3 c)"
    by (rule release [OF s3(1,5) disjI2 [OF e]])
  define s5 where "s5 = (if int i = lh_n s4 then s4\<lparr>lh_n := lh_n s4 + 1\<rparr> else s4)"
  have s5: "bufs s5 = bufs s4" "disk s5 = disk s4" "disksize s5 = disksize s4" "writes s5 = writes s4"
    by (simp_all add: s5_def)
  note c5 = bio_cong [OF s5(1-3)]
  have t: "t = upd_buf b (\<lambda>y. y\<lparr>b_flags := b_flags y OR B_DIRTY\<rparr>) s5"
    using rest bw s4(1) by (simp add: s5_def)
  have k: "owns s5 c y \<and> b_data (bufs s5 c) = b_data (bufs s c)" if "owns s c y" for c y
    using that s3(10) s4(9,10) r(11) [of c y] by (simp add: c0 c5 s5)
  have own5: "owns s5 b x" and inv5: "bcache_inv s5" using k [OF own] s4(2) by (simp_all add: c5)
  note m = set_dirty_ok [OF inv5 own5, folded t]
  have nl: "l \<notin> lockset s" using r(9) by (simp add: c0)
  show "bcache_inv t" "bview t = (bview s)(l := d)" "lockset t = lockset s" "disk t = (disk s)(l := d)"
      "writes t = writes s @ [(l, d)]"
    using m(1,2,4) bufframe_same [OF m(7)] s3 s4 nl by (simp_all add: c0 c5 s5)
  show "owns s c y \<Longrightarrow> owns t c y \<and> b_data (bufs t c) = b_data (bufs s c)"
    using k [of c y] m(5,6) by simp
  have f4: "dframe ?s0 s4" using dframe_trans [OF s3(9) s4(8)] .
  have "dframe (?s0\<lparr>lh_n := (if int i = lh_n s then lh_n s + 1 else lh_n s)\<rparr>) s5"
    using f4 dframe_log [OF f4] by (cases s; cases s4) (simp add: s5_def dframe_def)
  then show "dframe (s\<lparr>lh_sector := (lh_sector s)(i := x), lh_n := (if int i = lh_n s then lh_n s + 1 else lh_n s)\<rparr>) t"
    using dframe_trans dframe_bufframe [OF m(7)] by auto
  have "l \<notin> dirtyset s"
  proof
    assume "l \<in> dirtyset s"
    then have "l < log_start s" using inv by (auto simp: log_inv_def)
    moreover have "i \<le> nat (lh_n s)" unfolding i_def by (cases rule: log_slot_cases [of x s]) auto
    then have "log_start s < l"
      using log_block_gt [of "log_start s" "nat (log_size s)" "disksize s" i] inv g by (auto simp: l_def log_inv_def)
    ultimately show False by simp
  qed
  then show "dirtyset t = insert x (dirtyset s)" using m(3) s3(3) s4(4) by (simp add: c0 c5)
qed

lemma log_write_logged:
  assumes "0 \<le> lh_n s" and i: "i = log_slot x s"
    and t: "lh_sector t = (lh_sector s)(i := x)" "lh_n t = (if int i = lh_n s then lh_n s + 1 else lh_n s)"
  shows "logged t = (if x \<in> set (logged s) then logged s else logged s @ [x])"
    "i < nat (lh_n t)" "logged t ! i = x"
proof -
  have "logged t = (if x \<in> set (logged s) then logged s else logged s @ [x]) \<and> i < nat (lh_n t)"
  proof (cases rule: log_slot_cases [of x s])
    case old
    then have "lh_sector t = lh_sector s" "lh_n t = lh_n s" using t i assms(1) by auto
    with old i show ?thesis by (force simp: logged_def)
  next
    case new
    then have n: "nat (lh_n t) = Suc (nat (lh_n s))" "i = nat (lh_n s)" using t i assms(1) by auto
    then show ?thesis using new by (auto simp: logged_def t(1))
  qed
  then show "logged t = (if x \<in> set (logged s) then logged s else logged s @ [x])" and il: "i < nat (lh_n t)" by auto
  show "logged t ! i = x" unfolding logged_simps(2) [OF il] t(1) by simp
qed

lemma log_write_inv:
  assumes inv: "log_inv s" and own: "owns s b x" and lw: "log_write b s = Inr t"
  shows "log_inv t"
proof -
  let ?i = "log_slot x s" and ?d = "b_data (bufs s b)"
  let ?l = "log_block (log_start s) ?i"
  note e = log_write_effect [OF inv own lw]
  note c = dframe_log [OF e(10)] dframe_same [OF e(10)]
  from inv have n0: "0 \<le> lh_n s" by (simp add: log_inv_def)
  from c have lt: "lh_sector t = (lh_sector s)(?i := x)" "lh_n t = (if int ?i = lh_n s then lh_n s + 1 else lh_n s)"
    by simp_all
  note lg = log_write_logged [OF n0 refl lt]
  have st: "log_start t = log_start s" "log_size t = log_size s" "log_dev t = log_dev s" "disksize t = disksize s"
    using c by simp_all
  have fit: "log_fits (log_start s) (nat (log_size s)) (disksize s)" and sz: "nat (lh_n t) < nat (log_size s)"
    using inv e(1,2) lt(2) by (auto simp: log_inv_def)
  have xst: "x < log_start s" using inv owns_lockset [OF own] by (auto simp: log_inv_def)
  have lgt: "log_start s < ?l" using log_block_gt [OF fit, of ?i] lg(2) sz by linarith
  have dist: "distinct (logged t)" "\<forall>y\<in>set (logged t). y < log_start s" "dirtyset t = set (logged t)"
    using inv xst e(6) unfolding lg(1) by (auto simp: log_inv_def)
  have "disk t (log_block (log_start s) j) = bview t (logged t ! j)"
    if j: "j < length (logged t)" "logged t ! j \<notin> lockset t" for j
  proof -
    have "logged t ! j \<noteq> x" using j(2) owns_lockset [OF own] e(7) by auto
    then have ji: "j \<noteq> ?i" using lg(3) by auto
    have "j < length (logged s)" "logged s ! j = logged t ! j"
      using j(1) \<open>logged t ! j \<noteq> x\<close> unfolding lg(1) by (auto split: if_splits simp: nth_append less_Suc_eq)
    then have "disk s (log_block (log_start s) j) = bview s (logged t ! j)"
      using inv j(2) e(7) by (auto simp: log_inv_def)
    moreover have "log_block (log_start s) j \<noteq> ?l"
      using log_block_inj [OF fit, of j ?i] ji j(1) lg(2) sz unfolding logged_simps(1) by linarith
    moreover have "logged t ! j < log_start s" using dist(2) j(1) nth_mem by blast
    then have "logged t ! j \<noteq> ?l" using lgt by auto
    ultimately show ?thesis by (simp add: e)
  qed
  moreover have "head_n (disk t (log_start s)) = 0" using inv lgt by (auto simp: e log_inv_def)
  moreover have "lh_n t \<le> int LOGSIZE" "0 \<le> lh_n t" using e(1) lt(2) n0 by auto
  ultimately show ?thesis
    using inv dist e(4,7) sz by (simp add: log_inv_def st del: logged_simps)
qed

text \<open>
  The steps a system call takes in a transaction: it locks a buffer in front of the log, stores
  into a locked one, logs it, and releases it once the log or the disk has its contents. Any other
  part of the state may change at any time.
\<close>

definition saved :: "'a log_state_scheme \<Rightarrow> nat \<Rightarrow> u32 \<Rightarrow> bool" where
  "saved s b x \<longleftrightarrow>
     (if x \<in> dirtyset s then disk s (log_block (log_start s) (log_slot x s)) = b_data (bufs s b)
      else disk s x = b_data (bufs s b))"

definition same_log :: "'a log_state_scheme \<Rightarrow> 'a log_state_scheme \<Rightarrow> bool" where
  "same_log s t \<longleftrightarrow> bufs t = bufs s \<and> disk t = disk s \<and> disksize t = disksize s \<and> writes t = writes s \<and>
     log_start t = log_start s \<and> log_size t = log_size s \<and> log_busy t = log_busy s \<and> log_dev t = log_dev s \<and>
     lh_n t = lh_n s \<and> lh_sector t = lh_sector s"

inductive tstep :: "'a log_state_scheme \<Rightarrow> 'a log_state_scheme \<Rightarrow> bool" where
  t_read: "bread 1 x s = Inr (b, t) \<Longrightarrow> x < log_start s \<Longrightarrow> tstep s t"
| t_store: "owns s b x \<Longrightarrow> tstep s (upd_buf b (\<lambda>y. y\<lparr>b_data := D y\<rparr>) s)"
| t_log: "owns s b x \<Longrightarrow> log_write b s = Inr t \<Longrightarrow> tstep s t"
| t_release: "owns s b x \<Longrightarrow> saved s b x \<Longrightarrow> brelse b s = Inr t \<Longrightarrow> tstep s t"
| t_other: "same_log s t \<Longrightarrow> tstep s t"

lemma log_slot_logged:
  assumes "log_inv s" "i < length (logged s)"
  shows "log_slot (logged s ! i) s = i"
proof -
  have inj: "inj_on (lh_sector s) {..<nat (lh_n s)}" using assms(1) by (auto simp: log_inv_def logged_inj)
  show ?thesis using assms(2) inj
    by (cases rule: log_slot_cases [of "logged s ! i" s]) (auto dest: inj_onD)
qed

lemma log_inv_keep:
  assumes inv: "log_inv s" and f: "dframe s t" and d: "disk t = disk s" and b: "bcache_inv t"
    and dy: "dirtyset t = dirtyset s" and lk: "\<forall>x\<in>lockset t. x < log_start s"
    and v: "\<And>i. i < length (logged s) \<Longrightarrow> logged s ! i \<notin> lockset t \<Longrightarrow>
              disk s (log_block (log_start s) i) = bview t (logged s ! i)"
  shows "log_inv t"
proof -
  note c = dframe_log [OF f] dframe_same [OF f]
  have lg: "logged t = logged s" by (simp add: logged_def c)
  show ?thesis using assms unfolding log_inv_def lg c by (simp del: logged_simps)
qed

lemma same_log_inv:
  assumes "same_log s t"
  shows "log_inv t = log_inv s" "bview t = bview s" "lockset t = lockset s" "dirtyset t = dirtyset s" "owns t = owns s"
proof -
  have b: "bufs t = bufs s" "disk t = disk s" "disksize t = disksize s" using assms by (auto simp: same_log_def)
  note c = bio_cong [OF b]
  have "logged t = logged s" using assms by (simp add: same_log_def logged_def)
  then show "log_inv t = log_inv s" using assms c unfolding log_inv_def same_log_def by simp
  show "bview t = bview s" "lockset t = lockset s" "dirtyset t = dirtyset s" "owns t = owns s" using c by simp_all
qed

lemma tstep_inv:
  assumes "tstep s t" and inv: "log_inv s"
  shows "log_inv t"
  using assms(1)
proof cases
  case (t_read x b)
  have b: "bcache_inv s" using inv by (simp add: log_inv_def)
  note r = bread_ok [OF b t_read(1)]
  show ?thesis
    by (rule log_inv_keep [OF inv dframe_bufframe [OF r(10)] _ r(3,7)])
      (use inv r(4,8) t_read(2) bufframe_same [OF r(10)] in \<open>auto simp: log_inv_def\<close>)
next
  case (t_store b x D)
  have b: "bcache_inv s" using inv by (simp add: log_inv_def)
  note m = set_data_ok [OF b t_store(2), of D, folded t_store(1)]
  show ?thesis
    by (rule log_inv_keep [OF inv dframe_bufframe [OF m(7)] _ m(1,3)])
      (use inv m(2,4) owns_lockset [OF t_store(2)] bufframe_same [OF m(7)] in \<open>auto simp: log_inv_def\<close>)
next
  case (t_log b x)
  then show ?thesis by (intro log_write_inv [OF inv])
next
  case (t_release b x)
  have b: "bcache_inv s" using inv by (simp add: log_inv_def)
  have "dirty s b" if "x \<in> dirtyset s"
    using that t_release(1) bcache_invD(3) [OF b] by (auto simp: dirtyset_def owns_def)
  with t_release(2) have cl: "dirty s b \<or> b_data (bufs s b) = disk s x"
    by (auto simp: saved_def split: if_splits)
  note e = brelse_ok [OF b t_release(1,3) cl]
  have dx: "bview s x = b_data (bufs s b)"
    using t_release(1) by (auto simp: owns_def intro: bview_cached [OF b])
  have "disk s (log_block (log_start s) i) = bview s (logged s ! i)"
    if i: "i < length (logged s)" "logged s ! i = x" for i
    using t_release(2) i log_slot_logged [OF inv i(1)] nth_mem [OF i(1)] inv dx
    by (simp add: saved_def log_inv_def split: if_splits)
  then show ?thesis
    by (intro log_inv_keep [OF inv dframe_bframe [OF e(7)] _ e(1,3)])
      (use inv e(2,4) bframe_same [OF e(7)] in \<open>auto simp: log_inv_def simp del: logged_simps\<close>)
next
  case t_other
  then show ?thesis using inv same_log_inv by blast
qed

lemma log_write_returns:
  assumes inv: "log_inv s" and own: "owns s b x"
    and g: "log_busy s" "lh_n s < int LOGSIZE" "lh_n s < log_size s - 1" and room: "room s"
  shows "\<exists>t. log_write b s = Inr t"
proof -
  let ?i = "log_slot x s"
  let ?l = "log_block (log_start s) ?i" and ?s0 = "s\<lparr>lh_sector := (lh_sector s)(?i := x)\<rparr>"
  have bx: "b_sector (bufs s b) = x" "b_dev (bufs s b) = 1" using own by (auto simp: owns_def holds_def)
  have fit: "log_fits (log_start s) (nat (log_size s)) (disksize s)" and b: "bcache_inv s"
    and n: "0 \<le> lh_n s" and lk: "\<forall>x\<in>lockset s. x < log_start s"
    using inv by (auto simp: log_inv_def)
  have "?i \<le> nat (lh_n s)" by (cases rule: log_slot_cases [of x s]) auto
  then have i: "?i + 1 < nat (log_size s)" using g n by linarith
  note l = log_block_gt [OF fit i] log_block_less [OF fit i]
  note c0 = bio_cong [of ?s0 s, simplified]
  have "?l \<notin> lockset s" using lk l(1) less_asym' by blast
  then obtain lbuf s1 where br: "bread 1 ?l ?s0 = Inr (lbuf, s1)"
    using bread_total [of ?s0 ?l] b l room c0 by auto
  obtain s3 where bw: "bwrite lbuf (upd_buf lbuf (\<lambda>y. y\<lparr>b_data := b_data (bufs s1 b)\<rparr>) s1) = Inr s3"
      "owns s3 lbuf ?l"
    by (rule store_write [where D = "\<lambda>_. b_data (bufs s1 b)", OF _ br refl]) (use b c0 in simp)
  obtain s4 where "brelse lbuf s3 = Inr s4" using brelse_returns [OF bw(2)] by blast
  with br bw g show ?thesis by (simp add: log_write_def Let_def bx log_block_def)
qed

text \<open>A transaction runs from a state with an empty log; its writes so far went to log blocks.\<close>

definition log_idle :: "'a log_state_scheme \<Rightarrow> bool" where
  "log_idle s \<longleftrightarrow> log_inv s \<and> lockset s = {} \<and> lh_n s = 0 \<and> \<not> log_busy s"

definition trans_to :: "'a log_state_scheme \<Rightarrow> 'a log_state_scheme \<Rightarrow> bool" where
  "trans_to s0 s \<longleftrightarrow> (\<exists>s1. begin_trans s0 = Inr s1 \<and> tstep\<^sup>*\<^sup>* s1 s)"

definition in_trans :: "'a log_state_scheme \<Rightarrow> 'a log_state_scheme \<Rightarrow> bool" where
  "in_trans s0 s \<longleftrightarrow> log_inv s \<and> log_start s = log_start s0 \<and> log_size s = log_size s0 \<and> disksize s = disksize s0 \<and>
     (\<exists>ws. writes s = writes s0 @ ws \<and> disk s = apply_writes ws (disk s0) \<and> (\<forall>w\<in>set ws. log_start s0 < fst w))"

lemma in_trans_keep:
  assumes "in_trans s0 s" "log_inv t" and f: "dframe s t" and "disk t = disk s" "writes t = writes s"
  shows "in_trans s0 t"
  using assms dframe_log [OF f] dframe_same [OF f] unfolding in_trans_def by simp

lemma tstep_in_trans:
  assumes "tstep s t" and tr: "in_trans s0 s"
  shows "in_trans s0 t"
proof -
  have inv: "log_inv s" using tr by (simp add: in_trans_def)
  then have b: "bcache_inv s" by (simp add: log_inv_def)
  have inv': "log_inv t" by (rule tstep_inv [OF assms(1) inv])
  from assms(1) show ?thesis
  proof cases
    case (t_read x b')
    note r = bread_ok(10) [OF b t_read(1)]
    show ?thesis by (rule in_trans_keep [OF tr inv' dframe_bufframe [OF r]]) (use bufframe_same [OF r] in auto)
  next
    case (t_store b' x D)
    note r = set_data_ok(7) [OF b t_store(2), of D, folded t_store(1)]
    show ?thesis by (rule in_trans_keep [OF tr inv' dframe_bufframe [OF r]]) (use bufframe_same [OF r] in auto)
  next
    case (t_release b' x)
    note r = brelse_effect(1) [OF t_release(3)]
    show ?thesis by (rule in_trans_keep [OF tr inv' dframe_bframe [OF r]]) (use bframe_same [OF r] in auto)
  next
    case (t_log b' x)
    note e = log_write_effect [OF inv t_log]
    note c = dframe_log [OF e(10)] dframe_same [OF e(10)]
    have "log_slot x s \<le> nat (lh_n s)" by (cases rule: log_slot_cases [of x s]) auto
    then have "log_slot x s + 1 < nat (log_size s)" using e(2) inv by (auto simp: log_inv_def)
    then have "log_start s < log_block (log_start s) (log_slot x s)"
      using inv by (intro log_block_gt) (auto simp: log_inv_def)
    with tr inv' c e(8,9) show ?thesis unfolding in_trans_def by auto
  next
    case t_other
    with tr inv' show ?thesis unfolding in_trans_def same_log_def by simp
  qed
qed

lemma trans_in_trans:
  assumes "log_idle s0" "trans_to s0 s"
  shows "in_trans s0 s"
proof -
  obtain s1 where b: "begin_trans s0 = Inr s1" and st: "tstep\<^sup>*\<^sup>* s1 s" using assms(2) by (auto simp: trans_to_def)
  have s1: "s1 = s0\<lparr>log_busy := True\<rparr>" using b by (auto simp: begin_trans_def split: if_splits)
  have "log_inv s1" using assms(1) bio_cong [of s1 s0]
    by (simp add: s1 log_idle_def log_inv_def logged_def)
  then have "in_trans s0 s1" by (simp add: in_trans_def s1)
  with st show ?thesis by induction (auto intro: tstep_in_trans)
qed

lemma log_wf_clear: "head_n (d start) = 0 \<Longrightarrow> 0 < len \<Longrightarrow> log_wf start len d"
  by (simp add: log_wf_def)

lemma log_wf_prefix:
  assumes wf: "log_wf start len d" "0 < len"
  shows "log_wf start len (apply_writes (take k (recover_writes start d)) d)"
proof (cases "k < length (recover_writes start d)")
  case True
  let ?ws = "install_writes start (head_sector (d start)) (nat (head_n (d start))) d"
  have tk: "take k (recover_writes start d) = take k ?ws" using True by (simp add: recover_writes_def)
  have "fst ` set (take k ?ws) \<subseteq> head_sector (d start) ` {..<nat (head_n (d start))}"
    unfolding install_writes_fst [of start _ _ d, symmetric] using set_take_subset [of k ?ws] by (rule image_mono)
  moreover have "start \<notin> head_sector (d start) ` {..<nat (head_n (d start))}"
    using wf unfolding log_wf_def by (metis imageE lessThan_iff less_irrefl)
  ultimately have "start \<notin> fst ` set (take k ?ws)" by blast
  then show ?thesis using wf by (simp add: tk log_wf_def)
next
  case False
  then show ?thesis using wf(2) by (intro log_wf_clear) (simp_all add: recover_writes_def head_n_def)
qed

text \<open>
  The disk after a crash at write \<open>k\<close> of a transaction and its commit: before the header is
  written it recovers to the old contents, from then on to the new ones.
\<close>

lemma crash_disk:
  fixes k :: nat
  assumes tr: "in_trans s0 s" and quiet: "lockset s = {}"
    and hd0: "head_n (disk s0 (log_start s0)) = 0"
    and ws: "writes s = writes s0 @ ws" "disk s = apply_writes ws (disk s0)" "\<forall>w\<in>set ws. log_start s0 < fst w"
  defines "d \<equiv> apply_writes (take k (ws @ commit_writes s)) (disk s0)"
  shows "log_wf (log_start s0) (nat (log_size s0)) d"
    "\<forall>x < log_start s0. recover_disk (log_start s0) d x = (if k \<le> length ws then disk s0 x else bview s x)"
proof -
  have inv: "log_inv s" and st: "log_start s = log_start s0" "log_size s = log_size s0"
    using tr by (auto simp: in_trans_def)
  have sz: "0 < nat (log_size s0)" using inv st by (simp add: log_inv_def)
  show "log_wf (log_start s0) (nat (log_size s0)) d"
    "\<forall>x < log_start s0. recover_disk (log_start s0) d x = (if k \<le> length ws then disk s0 x else bview s x)"
  proof (atomize (full), cases "k \<le> length ws")
    case True
    have "y \<notin> fst ` set (take k ws)" if "y \<le> log_start s0" for y
      using ws(3) that set_take_subset [of k ws] by fastforce
    then have same: "d y = disk s0 y" if "y \<le> log_start s0" for y
      using True that by (simp add: d_def)
    with hd0 sz recover_clear [of d "log_start s0"] True
    show "log_wf (log_start s0) (nat (log_size s0)) d \<and>
      (\<forall>x < log_start s0. recover_disk (log_start s0) d x = (if k \<le> length ws then disk s0 x else bview s x))"
      by (auto intro!: log_wf_clear)
  next
    case False
    let ?j = "k - length ws"
    have d: "d = apply_writes (take ?j (commit_writes s)) (disk s)" using False by (simp add: d_def ws(2))
    have "log_wf (log_start s0) (nat (log_size s0)) d"
    proof (cases "0 < lh_n s")
      case True
      note c = commit_is_recovery [OF inv True quiet]
      obtain j where "?j = Suc j" using False by (cases ?j) auto
      then show ?thesis using log_wf_prefix [OF c(2)] sz by (simp add: d c(1) st)
    next
      case False
      then show ?thesis using inv sz by (intro log_wf_clear) (simp_all add: d commit_writes_def log_inv_def st)
    qed
    with False commit_crash [OF inv quiet, of _ ?j] show "log_wf (log_start s0) (nat (log_size s0)) d \<and>
      (\<forall>x < log_start s0. recover_disk (log_start s0) d x = (if k \<le> length ws then disk s0 x else bview s x))"
      by (simp add: d st)
  qed
qed

lemma commit_idle:
  assumes inv: "log_inv s" and quiet: "lockset s = {}" and n: "nat (lh_n s) < NBUF"
  obtains t where "commit_trans s = Inr t" "log_idle t" "\<forall>x < log_start s. disk t x = bview s x"
    "writes t = writes s @ commit_writes s"
proof -
  obtain t where t: "commit_trans s = Inr t" "bcache_inv t" "dirtyset t = {}" "lockset t = {}"
    "writes t = writes s @ commit_writes s" "disk t = apply_writes (commit_writes s) (disk s)"
    "\<not> log_busy t" "lh_n t = 0" "log_start t = log_start s" "log_dev t = 1" "log_size t = log_size s"
    "disksize t = disksize s"
    by (rule commit_ok [OF assms])
  have hd: "head_n (disk t (log_start s)) = 0"
    using inv by (simp add: t commit_writes_def head_n_def log_inv_def)
  have "disk t x = bview s x" if "x < log_start s" for x
    using commit_crash [OF inv quiet that, of "Suc (length (commit_writes s))"]
      recover_clear [of "disk t" "log_start s" x] hd that by (simp add: t(6))
  moreover have "log_idle t" using t inv hd by (simp add: log_idle_def log_inv_def logged_def)
  ultimately show ?thesis using that t by blast
qed

text \<open>
  Initialisation after a reboot finds the log where the super block says, recovers it and leaves
  an idle log.
\<close>

lemma initlog_ok:
  assumes boot: "boot_ok s" and sb: "sb = decode_sb (disk s 1)"
    and start: "start = sb_size sb - sb_nlog sb" "1 < start" and len: "1 < sint (sb_nlog sb)"
    and fit: "log_fits start (nat (sint (sb_nlog sb))) (disksize s)"
    and wf: "log_wf start (nat (sint (sb_nlog sb))) (disk s)" and idle: "\<not> log_busy s"
  obtains t where "initlog s = Inr t" "log_idle t" "disk t = recover_disk start (disk s)"
    "writes t = writes s @ recover_writes start (disk s)" "log_start t = start"
    "log_size t = sint (sb_nlog sb)" "disksize t = disksize s"
proof -
  have b: "bcache_inv s" "dirtyset s = {}" "lockset s = {}" using boot by (auto simp: boot_ok_def)
  have l1: "start < disksize s" using log_block_start [OF fit] len by simp
  with start(2) have l2: "1 < disksize s" by (rule less_trans)
  have l3: "1 \<notin> lockset s" "room s" using b by (simp_all add: room_def NBUF_def)
  obtain u where u: "readsb ROOTDEV s = Inr (sb, u)" "bcache_inv u" "dirtyset u = {}" "lockset u = {}"
      "disk u = disk s" "writes u = writes s" "dframe s u"
    by (rule readsb_ok [OF b(1) l2 l3, unfolded boot_view [OF boot] b(2,3), folded sb])
  let ?v = "u\<lparr>log_start := start, log_size := sint (sb_nlog sb), log_dev := ROOTDEV\<rparr>"
  have bv: "boot_ok ?v" using u bio_cong [of ?v u] by (simp add: boot_ok_def)
  have v: "log_dev ?v = 1" "log_start ?v = start" "disksize ?v = disksize s" "disk ?v = disk s"
    using u dframe_same [OF u(7)] by (simp_all add: ROOTDEV_def)
  obtain t where t: "recover_from_log ?v = Inr t" "boot_ok t" "lh_n t = 0"
      "disk t = recover_disk start (disk s)" "writes t = writes ?v @ recover_writes start (disk s)"
      "log_start t = start" "log_dev t = 1" "log_size t = log_size ?v" "log_busy t = log_busy ?v"
      "disksize t = disksize s"
    by (rule recover_ok [OF bv v(1), unfolded v(2-4)]) (use fit wf len in auto)
  have "initlog s = Inr t"
    using u(1) t(1) by (simp add: initlog_def BSIZE_def LOGSIZE_def start(1))
  moreover have "log_busy t = log_busy s" using t(9) dframe_log [OF u(7)] by simp
  moreover have "head_n (disk t start) = 0" by (simp add: t(4) recover_disk_def recover_writes_def head_n_def)
  ultimately show ?thesis
    using that t u(6) fit len idle by (simp add: log_idle_def log_inv_def boot_ok_def logged_def LOGSIZE_def)
qed

section \<open>Properties\<close>

text \<open>A state with an idle log of ten sectors at the end of a disk \<open>d\<close> of 1024.\<close>

definition ex_log :: "(u32 \<Rightarrow> block) \<Rightarrow> log_state" where
  "ex_log d = ex_bio d (log_state.fields 1014 10 False 1 0 (\<lambda>_. 0))"

lemma ex_log_ok:
  "bcache_inv (ex_log d)" "dirtyset (ex_log d) = {}" "lockset (ex_log d) = {}" "room (ex_log d)" "boot_ok (ex_log d)"
  "disksize (ex_log d) = 1024" "disk (ex_log d) = d" "writes (ex_log d) = []" "log_start (ex_log d) = 1014"
  "log_size (ex_log d) = 10" "log_busy (ex_log d) = False" "log_dev (ex_log d) = 1" "lh_n (ex_log d) = 0"
proof -
  note e = ex_bio_ok [of d "log_state.fields 1014 10 False 1 0 (\<lambda>_. 0)", folded ex_log_def]
  show "bcache_inv (ex_log d)" "dirtyset (ex_log d) = {}" "lockset (ex_log d) = {}" "room (ex_log d)" "boot_ok (ex_log d)"
    "disksize (ex_log d) = 1024" "disk (ex_log d) = d" "writes (ex_log d) = []"
    using e by (simp_all add: boot_ok_def)
  show "log_start (ex_log d) = 1014" "log_size (ex_log d) = 10" "log_busy (ex_log d) = False"
    "log_dev (ex_log d) = 1" "lh_n (ex_log d) = 0"
    using e(8) by (cases "ex_log d"; simp add: log_state.defs)+
qed

lemma ex_log_idle: "log_idle (ex_log (\<lambda>_ _. 0))"
  by (simp add: log_idle_def log_inv_def ex_log_ok logged_def log_fits_def head_n_def LOGSIZE_def)

text \<open>A transaction that fills sector 7 with ones.\<close>

lemma ex_trans: "\<exists>s. trans_to (ex_log (\<lambda>_ _. 0)) s \<and> lockset s = {} \<and> nat (lh_n s) < NBUF \<and> bview s 7 = (\<lambda>_. 1)"
proof -
  let ?s0 = "ex_log (\<lambda>_ _. 0)"
  define s1 where "s1 = ?s0\<lparr>log_busy := True\<rparr>"
  have bt: "begin_trans ?s0 = Inr s1" by (simp add: begin_trans_def ex_log_ok s1_def)
  have it1: "in_trans ?s0 s1" using ex_log_idle by (intro trans_in_trans) (auto simp: trans_to_def bt)
  have s1: "bcache_inv s1" "7 < disksize s1" "7 \<notin> lockset s1" "dirtyset s1 = {}" "lockset s1 = {}" "room s1"
    "log_start s1 = 1014" "log_size s1 = 10" "lh_n s1 = 0" "log_busy s1"
    using bio_cong [of s1 ?s0] by (simp_all add: s1_def ex_log_ok)
  obtain b s2 where br: "bread 1 7 s1 = Inr (b, s2)" using bread_total [OF s1(1-3)] s1(6) by blast
  note r = bread_ok [OF s1(1) br]
  define s3 where "s3 = upd_buf b (\<lambda>y. y\<lparr>b_data := (\<lambda>_. 1)\<rparr>) s2"
  note m = set_data_ok [OF r(3,5), of "\<lambda>_ _. 1", folded s3_def]
  have own: "owns s3 b 7" using m(5) r(5) by simp
  have "7 < log_start s1" by (simp add: s1)
  then have st2: "tstep s1 s2" by (rule t_read [OF br])
  have st3: "tstep s2 s3" unfolding s3_def using r(5) by (rule t_store)
  have it3: "in_trans ?s0 s3" using tstep_in_trans it1 st2 st3 by blast
  then have inv3: "log_inv s3" by (simp add: in_trans_def)
  have f: "dframe s1 s3" using dframe_trans dframe_bufframe r(10) m(7) by blast
  have c3: "dirtyset s3 = {}" "lockset s3 = {7}" "log_start s3 = 1014" "log_size s3 = 10" "lh_n s3 = 0" "log_busy s3"
    using m(3,4) r(7,8) s1 dframe_log [OF f] by simp_all
  obtain s4 where lw: "log_write b s3 = Inr s4"
    using log_write_returns [OF inv3 own] c3 by (auto simp: LOGSIZE_def room_def NBUF_def)
  note e = log_write_effect [OF inv3 own lw]
  have st4: "tstep s3 s4" using own lw by (rule t_log)
  have slot: "log_slot 7 s3 = 0" by (simp add: log_slot_def c3)
  have c4: "log_start s4 = 1014" "lh_n s4 = 1" "lh_sector s4 0 = 7"
    using dframe_log [OF e(10)] by (simp_all add: c3 slot)
  have slot4: "log_slot 7 s4 = 0" by (simp add: log_slot_def c4)
  have own4: "owns s4 b 7" "b_data (bufs s4 b) = (\<lambda>_. 1)" using e(11) [OF own] m(6) by simp_all
  have sv: "saved s4 b 7" using e(6,8) own4 m(6) by (simp add: saved_def slot4 slot c3 c4)
  obtain s5 where rel: "brelse b s4 = Inr s5" using brelse_returns [OF own4(1)] by blast
  have st5: "tstep s4 s5" using own4(1) sv rel by (rule t_release)
  have "dirty s4 b" using e(6) own4(1) bcache_invD(3) [OF e(4)] by (auto simp: dirtyset_def owns_def set_eq_iff)
  note q = brelse_ok [OF e(4) own4(1) rel disjI1 [OF this]]
  have "trans_to ?s0 s5" using bt st2 st3 st4 st5 unfolding trans_to_def
    by (meson converse_rtranclp_into_rtranclp rtranclp.rtrancl_refl)
  moreover have "lockset s5 = {}" using q(4) e(7) c3 by simp
  moreover have "lh_n s5 = 1" using dframe_log [OF dframe_bframe [OF q(7)]] c4 by simp
  moreover have "log_block 1014 0 \<noteq> 7" by (simp add: log_block_def)
  then have "bview s5 7 = (\<lambda>_. 1)" using q(2) e(5) m(2) by (simp add: c3 slot)
  ultimately show ?thesis by (auto simp: NBUF_def)
qed

text \<open>
  C1: A transaction is atomic under crashes. Whatever buffers it locked, changed, logged and
  released, its commit returns, leaves the new contents on the disk and an idle log; and for a
  crash after any number \<open>k\<close> of the disk writes made since the transaction began, recovery on the
  next boot returns and restores all the old contents when \<open>k \<le> m\<close>, and all the new ones
  otherwise.
\<close>

theorem transaction_atomic:
  assumes idle: "log_idle s0" and tr: "trans_to s0 s" and quiet: "lockset s = {}" and n: "nat (lh_n s) < NBUF"
  shows "\<exists>t ws m. commit_trans s = Inr t \<and> log_idle t \<and> writes t = writes s0 @ ws \<and>
    (\<forall>x < log_start s0. disk t x = bview s x) \<and>
    (\<forall>k r. boot_ok r \<and> log_dev r = 1 \<and> log_start r = log_start s0 \<and> disksize r = disksize s0 \<and>
        disk r = apply_writes (take k ws) (disk s0) \<longrightarrow>
      (\<exists>r'. recover_from_log r = Inr r' \<and>
         (\<forall>x < log_start s0. disk r' x = (if k \<le> m then disk s0 x else bview s x))))"
proof -
  have it: "in_trans s0 s" by (rule trans_in_trans [OF idle tr])
  then obtain ws where ws: "writes s = writes s0 @ ws" "disk s = apply_writes ws (disk s0)" "\<forall>w\<in>set ws. log_start s0 < fst w"
    and inv: "log_inv s" and st: "log_start s = log_start s0" "log_size s = log_size s0" "disksize s = disksize s0"
    by (auto simp: in_trans_def)
  have hd: "head_n (disk s0 (log_start s0)) = 0" using idle by (simp add: log_idle_def log_inv_def)
  have fit: "log_fits (log_start s0) (nat (log_size s0)) (disksize s0)" "0 < nat (log_size s0)"
    using inv st by (auto simp: log_inv_def)
  obtain t where t: "commit_trans s = Inr t" "log_idle t" "\<forall>x < log_start s. disk t x = bview s x"
    "writes t = writes s @ commit_writes s"
    by (rule commit_idle [OF inv quiet n])
  have "\<exists>r'. recover_from_log r = Inr r' \<and>
      (\<forall>x < log_start s0. disk r' x = (if k \<le> length ws then disk s0 x else bview s x))"
    if r: "boot_ok r" "log_dev r = 1" "log_start r = log_start s0" "disksize r = disksize s0"
      "disk r = apply_writes (take k (ws @ commit_writes s)) (disk s0)" for k r
  proof -
    note c = crash_disk [OF it quiet hd ws, of k, folded r(5)]
    obtain r' where "recover_from_log r = Inr r'" "disk r' = recover_disk (log_start r) (disk r)"
      by (rule recover_ok [OF r(1,2), of "nat (log_size s0)"]) (use fit r(3,4) c(1) in simp_all)
    with c(2) r(3) show ?thesis by auto
  qed
  moreover have "writes t = writes s0 @ (ws @ commit_writes s)" using t(4) ws(1) by simp
  ultimately show ?thesis using t(1-3) unfolding st by blast
qed

theorem transaction_atomic_witness:
  "\<exists>s :: log_state. bview s 7 = (\<lambda>_. 1) \<and> (\<exists>t ws m. commit_trans s = Inr t \<and> log_idle t \<and> writes t = writes (ex_log (\<lambda>_ _. 0)) @ ws \<and>
    (\<forall>x < log_start (ex_log (\<lambda>_ _. 0)). disk t x = bview s x) \<and>
    (\<forall>k r. boot_ok r \<and> log_dev r = 1 \<and> log_start r = log_start (ex_log (\<lambda>_ _. 0)) \<and>
        disksize r = disksize (ex_log (\<lambda>_ _. 0)) \<and>
        disk r = apply_writes (take k ws) (disk (ex_log (\<lambda>_ _. 0))) \<longrightarrow>
      (\<exists>r'. recover_from_log r = Inr r' \<and>
         (\<forall>x < log_start (ex_log (\<lambda>_ _. 0)). disk r' x = (if k \<le> m then disk (ex_log (\<lambda>_ _. 0)) x else bview s x)))))"
proof -
  obtain s where s: "trans_to (ex_log (\<lambda>_ _. 0)) s" "lockset s = {}" "nat (lh_n s) < NBUF" "bview s 7 = (\<lambda>_. 1)"
    using ex_trans by blast
  show ?thesis by (rule exI [of _ s], rule conjI [OF s(4) transaction_atomic [OF ex_log_idle s(1-3)]])
qed

text \<open>
  C2: Recovery survives crashes of its own. On a disk with a well-formed log it returns; after a
  crash at any of its writes the recovery of the next boot returns too and leaves the same disk.
\<close>

theorem recovery_restarts:
  assumes "boot_ok s" "log_dev s = 1" "log_fits (log_start s) len (disksize s)" "0 < len"
    "log_wf (log_start s) len (disk s)"
  shows "\<exists>t ws. recover_from_log s = Inr t \<and> boot_ok t \<and> lh_n t = 0 \<and> writes t = writes s @ ws \<and>
    disk t = apply_writes ws (disk s) \<and>
    (\<forall>k r. boot_ok r \<and> log_dev r = 1 \<and> log_start r = log_start s \<and> disksize r = disksize s \<and>
        disk r = apply_writes (take k ws) (disk s) \<longrightarrow>
      (\<exists>r'. recover_from_log r = Inr r' \<and> disk r' = disk t))"
proof -
  let ?ws = "recover_writes (log_start s) (disk s)"
  obtain t where t: "recover_from_log s = Inr t" "boot_ok t" "lh_n t = 0"
    "disk t = recover_disk (log_start s) (disk s)" "writes t = writes s @ ?ws"
    by (rule recover_ok [OF assms])
  have "\<exists>r'. recover_from_log r = Inr r' \<and> disk r' = disk t"
    if r: "boot_ok r" "log_dev r = 1" "log_start r = log_start s" "disksize r = disksize s"
      "disk r = apply_writes (take k ?ws) (disk s)" for k r
  proof -
    have "log_wf (log_start r) len (disk r)" using log_wf_prefix [OF assms(5,4)] r(3,5) by simp
    then obtain r' where "recover_from_log r = Inr r'" "disk r' = recover_disk (log_start r) (disk r)"
      using recover_ok [OF r(1,2), of len] assms(3,4) r(3,4) by auto
    then show ?thesis using recover_prefix [OF assms(3,5), of k] t(4) r(3,5) by auto
  qed
  with t show ?thesis unfolding recover_disk_def by blast
qed

text \<open>A disk whose log holds one committed block, for sector 7.\<close>

definition ex_crash :: "u32 \<Rightarrow> block" where
  "ex_crash = (\<lambda>_ _. 0)(1014 := put32 4 7 (put32 0 1 (\<lambda>_. 0)), 1015 := (\<lambda>_. 1))"

lemma ex_crash_wf: "log_wf 1014 10 ex_crash"
  by (simp add: log_wf_def ex_crash_def head_n_def head_sector_def LOGSIZE_def)

theorem recovery_restarts_witness:
  "\<exists>t ws. recover_from_log (ex_log ex_crash) = Inr t \<and> boot_ok t \<and> lh_n t = 0 \<and> writes t = writes (ex_log ex_crash) @ ws \<and>
    disk t = apply_writes ws (disk (ex_log ex_crash)) \<and>
    (\<forall>k r. boot_ok r \<and> log_dev r = 1 \<and> log_start r = log_start (ex_log ex_crash) \<and>
        disksize r = disksize (ex_log ex_crash) \<and>
        disk r = apply_writes (take k ws) (disk (ex_log ex_crash)) \<longrightarrow>
      (\<exists>r'. recover_from_log r = Inr r' \<and> disk r' = disk t))"
  by (rule recovery_restarts [where len = 10])
    (simp_all add: ex_log_ok ex_crash_wf log_fits_def)

text \<open>
  C3: Logging a locked buffer in a transaction with room left returns, keeps the invariant of the
  log, records its sector once however often it is logged, puts its contents into its log block
  as the only disk write, and keeps it in the cache until the commit.
\<close>

theorem log_write_absorbs:
  assumes "log_inv s" "owns s b x" "log_busy s" "lh_n s < int LOGSIZE" "lh_n s < log_size s - 1" "room s"
  shows "\<exists>t i. log_write b s = Inr t \<and> log_inv t \<and>
    logged t = (if x \<in> set (logged s) then logged s else logged s @ [x]) \<and>
    i < length (logged t) \<and> logged t ! i = x \<and> x \<in> dirtyset t \<and> owns t b x \<and>
    disk t = (disk s)(log_block (log_start s) i := b_data (bufs s b)) \<and>
    writes t = writes s @ [(log_block (log_start s) i, b_data (bufs s b))]"
proof -
  obtain t where lw: "log_write b s = Inr t" using log_write_returns [OF assms] by blast
  note e = log_write_effect [OF assms(1,2) lw] and c = dframe_log [OF e(10)]
  have "0 \<le> lh_n s" using assms(1) by (simp add: log_inv_def)
  note l = log_write_logged [OF this refl, of t x]
  have "lh_sector t = (lh_sector s)(log_slot x s := x)"
    "lh_n t = (if int (log_slot x s) = lh_n s then lh_n s + 1 else lh_n s)" using c by simp_all
  note l = l [OF this]
  have "log_slot x s < length (logged t)" using l(2) by simp
  with lw l(1,3) e(6,8,9) e(11) [OF assms(2)] log_write_inv [OF assms(1,2) lw] show ?thesis
    by (intro exI [of _ t] exI [of _ "log_slot x s"]) simp
qed

lemma ex_locked:
  "\<exists>b s. log_inv s \<and> owns s b 7 \<and> log_busy s \<and> lh_n s < int LOGSIZE \<and> lh_n s < log_size s - 1 \<and> room (s :: log_state)"
proof -
  let ?s0 = "ex_log (\<lambda>_ _. 0)"
  let ?s1 = "?s0\<lparr>log_busy := True\<rparr>"
  have it1: "log_inv ?s1" using ex_log_idle bio_cong [of ?s1 ?s0]
    by (simp add: log_idle_def log_inv_def logged_def)
  have s1: "bcache_inv ?s1" "7 < disksize ?s1" "7 \<notin> lockset ?s1" "dirtyset ?s1 = {}" "lockset ?s1 = {}" "room ?s1"
    using bio_cong [of ?s1 ?s0] by (simp_all add: ex_log_ok)
  obtain b s2 where br: "bread 1 7 ?s1 = Inr (b, s2)" using bread_total [OF s1(1-3)] s1(6) by blast
  note r = bread_ok [OF s1(1) br] and c = dframe_log [OF dframe_bufframe [OF bread_ok(10) [OF s1(1) br]]]
  have "log_inv s2" by (rule tstep_inv [OF t_read [OF br] it1]) (simp add: ex_log_ok)
  with r(5,7,8) c s1 show ?thesis
    by (intro exI [of _ b] exI [of _ s2]) (simp add: ex_log_ok LOGSIZE_def room_def NBUF_def)
qed

theorem log_write_absorbs_witness:
  "\<exists>b (s :: log_state) t i. log_write b s = Inr t \<and> log_inv t \<and>
    logged t = (if 7 \<in> set (logged s) then logged s else logged s @ [7]) \<and>
    i < length (logged t) \<and> logged t ! i = 7 \<and> 7 \<in> dirtyset t \<and> owns t b 7 \<and>
    disk t = (disk s)(log_block (log_start s) i := b_data (bufs s b)) \<and>
    writes t = writes s @ [(log_block (log_start s) i, b_data (bufs s b))]"
proof -
  obtain b and s :: log_state where s: "log_inv s" "owns s b 7" "log_busy s" "lh_n s < int LOGSIZE" "lh_n s < log_size s - 1" "room s"
    using ex_locked by blast
  show ?thesis by (rule exI [of _ b], rule exI [of _ s], rule log_write_absorbs [OF s])
qed

text \<open>
  C4: After a reboot, \<open>initlog\<close> finds the log where the super block puts it, returns, leaves the
  log idle and its invariant true, and the disk is the recovered one.
\<close>

theorem initlog_recovers:
  assumes "boot_ok s" "\<not> log_busy s" "sb = decode_sb (disk s 1)"
    "start = sb_size sb - sb_nlog sb" "1 < start" "1 < sint (sb_nlog sb)"
    "log_fits start (nat (sint (sb_nlog sb))) (disksize s)"
    "log_wf start (nat (sint (sb_nlog sb))) (disk s)"
  shows "\<exists>t. initlog s = Inr t \<and> log_idle t \<and> bview t = disk t \<and> disk t = recover_disk start (disk s) \<and>
    log_start t = start \<and> log_size t = sint (sb_nlog sb)"
proof -
  obtain t where t: "initlog s = Inr t" "log_idle t" "disk t = recover_disk start (disk s)"
    "log_start t = start" "log_size t = sint (sb_nlog sb)"
    by (rule initlog_ok [OF assms(1,3-8,2)])
  have "boot_ok t" using t(2) by (simp add: log_idle_def log_inv_def boot_ok_def logged_def)
  with t show ?thesis using boot_view [of t] by blast
qed

theorem initlog_recovers_witness:
  "\<exists>t. initlog (ex_log (ex_crash(1 := put32 12 10 (put32 0 1024 (\<lambda>_. 0))))) = Inr t \<and> log_idle t \<and> bview t = disk t \<and>
    disk t = recover_disk 1014 (ex_crash(1 := put32 12 10 (put32 0 1024 (\<lambda>_. 0)))) \<and> log_start t = 1014 \<and> log_size t = 10"
proof -
  let ?d = "ex_crash(1 := put32 12 10 (put32 0 1024 (\<lambda>_. 0)))"
  have sb: "decode_sb (?d 1) = \<lparr>sb_size = 1024, sb_nblocks = 0, sb_ninodes = 0, sb_nlog = 10\<rparr>"
    by (simp add: decode_sb_def)
  have wf: "log_wf 1014 10 ?d" using ex_crash_wf by (simp add: log_wf_def)
  show ?thesis
    using initlog_recovers [of "ex_log ?d" _ 1014] sb wf by (simp add: ex_log_ok log_fits_def)
qed

end
