(* ===== verification/Inode.thy ===== *)
theory Inode
  imports Log
begin

text \<open>
  The lower half of fs.c: the block allocator, the inode cache and the block map of an inode. An
  inode pointer is its index in \<open>icache.inode\<close>. The critical sections under \<open>icache.lock\<close> are
  atomic, and a sleep on a locked inode is the outcome \<open>Sleep\<close>. The lemmas describe each
  operation by what it does to the blocks in front of the log, and show that it is a run of the
  steps of a transaction.
\<close>

section \<open>Data\<close>

definition NINODE :: nat where "NINODE = 50"
definition NDEV :: nat where "NDEV = 10"
definition ROOTINO :: u32 where "ROOTINO = 1"
definition NDIRECT :: nat where "NDIRECT = 12"
definition NINDIRECT :: nat where "NINDIRECT = BSIZE div 4"
definition MAXFILE :: nat where "MAXFILE = NDIRECT + NINDIRECT"

definition T_DIR :: u16 where "T_DIR = 1"
definition T_FILE :: u16 where "T_FILE = 2"
definition T_DEV :: u16 where "T_DEV = 3"

definition I_BUSY :: u32 where "I_BUSY = 0x1"
definition I_VALID :: u32 where "I_VALID = 0x2"

text \<open>\<open>struct dinode\<close> takes 64 bytes of a block.\<close>

record dinode =
  d_type :: u16
  d_major :: u16
  d_minor :: u16
  d_nlink :: u16
  d_size :: u32
  d_addrs :: "nat \<Rightarrow> u32"

definition IPB :: u32 where "IPB = of_nat BSIZE div 64"
definition BPB :: u32 where "BPB = of_nat BSIZE * 8"

definition IBLOCK :: "u32 \<Rightarrow> u32" where "IBLOCK i = i div IPB + 2"
definition BBLOCK :: "u32 \<Rightarrow> u32 \<Rightarrow> u32" where "BBLOCK b ninodes = b div BPB + ninodes div IPB + 3"

definition get_dinode :: "nat \<Rightarrow> block \<Rightarrow> dinode" where
  "get_dinode k d =
     \<lparr>d_type = get16 d (64 * k), d_major = get16 d (64 * k + 2), d_minor = get16 d (64 * k + 4),
      d_nlink = get16 d (64 * k + 6), d_size = get32 d (64 * k + 8),
      d_addrs = (\<lambda>i. get32 d (64 * k + 12 + 4 * i))\<rparr>"

definition put_dinode :: "nat \<Rightarrow> dinode \<Rightarrow> block \<Rightarrow> block" where
  "put_dinode k x d =
     (let d = put16 (64 * k) (d_type x) d;
          d = put16 (64 * k + 2) (d_major x) d;
          d = put16 (64 * k + 4) (d_minor x) d;
          d = put16 (64 * k + 6) (d_nlink x) d;
          d = put32 (64 * k + 8) (d_size x) d
      in fold (\<lambda>i. put32 (64 * k + 12 + 4 * i) (d_addrs x i)) [0..<NDIRECT + 1] d)"

record inode =
  i_dev :: u32
  i_inum :: u32
  i_ref :: int
  i_flags :: u32
  i_type :: u16
  i_major :: u16
  i_minor :: u16
  i_nlink :: u16
  i_size :: u32
  i_addrs :: "nat \<Rightarrow> u32"

record fs_state = log_state +
  inodes :: "nat \<Rightarrow> inode"     \<comment> \<open>\<open>icache.inode\<close>\<close>

definition upd_inode :: "nat \<Rightarrow> (inode \<Rightarrow> inode) \<Rightarrow> 'a fs_state_scheme \<Rightarrow> 'a fs_state_scheme" where
  "upd_inode ip f s = s\<lparr>inodes := (inodes s)(ip := f (inodes s ip))\<rparr>"

definition upd_data :: "nat \<Rightarrow> (block \<Rightarrow> block) \<Rightarrow> 'a bio_state_scheme \<Rightarrow> 'a bio_state_scheme" where
  "upd_data b f s = upd_buf b (\<lambda>x. x\<lparr>b_data := f (b_data x)\<rparr>) s"

section \<open>Blocks\<close>

definition bzero :: "u32 \<Rightarrow> u32 \<Rightarrow> 'a log_state_scheme \<Rightarrow> 'a log_state_scheme kres" where
  "bzero dev bno s =
     kbind (bread dev bno s) (\<lambda>(bp, s).
       kbind (log_write bp (upd_data bp (\<lambda>_ _. 0) s)) (brelse bp))"

text \<open>The bit of block number \<open>bi\<close> in a block of the bitmap.\<close>

definition bit_mask :: "nat \<Rightarrow> u8" where "bit_mask bi = push_bit (bi mod 8) 1"

definition block_free :: "block \<Rightarrow> nat \<Rightarrow> bool" where
  "block_free d bi \<longleftrightarrow> d (bi div 8) AND bit_mask bi = 0"

definition mark_used :: "nat \<Rightarrow> block \<Rightarrow> block" where
  "mark_used bi d = d(bi div 8 := d (bi div 8) OR bit_mask bi)"

definition mark_free :: "nat \<Rightarrow> block \<Rightarrow> block" where
  "mark_free bi d = d(bi div 8 := d (bi div 8) AND NOT (bit_mask bi))"

text \<open>The outer loop of \<open>balloc\<close> over the first block numbers \<open>b\<close> of the bitmap blocks.\<close>

fun balloc_loop :: "u32 \<Rightarrow> superblock \<Rightarrow> nat list \<Rightarrow> 'a log_state_scheme \<Rightarrow> (u32 \<times> 'a log_state_scheme) kres" where
  "balloc_loop dev sb [] s = Inl (Panic ''balloc: out of blocks'')"
| "balloc_loop dev sb (b # bs) s =
     kbind (bread dev (BBLOCK (of_nat b) (sb_ninodes sb)) s) (\<lambda>(bp, s).
       case List.find (\<lambda>bi. b + bi < unat (sb_size sb) \<and> block_free (b_data (bufs s bp)) bi) [0..<unat BPB] of
         Some bi \<Rightarrow>
           kbind (log_write bp (upd_data bp (mark_used bi) s)) (\<lambda>s.
           kbind (brelse bp s) (\<lambda>s.
           kbind (bzero dev (of_nat (b + bi)) s) (\<lambda>s.
           Inr (of_nat (b + bi), s))))
       | None \<Rightarrow> kbind (brelse bp s) (balloc_loop dev sb bs))"

definition bitmap_starts :: "u32 \<Rightarrow> nat list" where
  "bitmap_starts n = map (\<lambda>k. unat BPB * k) [0..<(unat n + unat BPB - 1) div unat BPB]"

definition balloc :: "u32 \<Rightarrow> 'a log_state_scheme \<Rightarrow> (u32 \<times> 'a log_state_scheme) kres" where
  "balloc dev s = kbind (readsb dev s) (\<lambda>(sb, s). balloc_loop dev sb (bitmap_starts (sb_size sb)) s)"

definition bfree :: "u32 \<Rightarrow> u32 \<Rightarrow> 'a log_state_scheme \<Rightarrow> 'a log_state_scheme kres" where
  "bfree dev b s =
     kbind (readsb dev s) (\<lambda>(sb, s).
     kbind (bread dev (BBLOCK b (sb_ninodes sb)) s) (\<lambda>(bp, s).
       let bi = unat (b mod BPB)
       in if block_free (b_data (bufs s bp)) bi then Inl (Panic ''freeing free block'')
          else kbind (log_write bp (upd_data bp (mark_free bi) s)) (brelse bp)))"

section \<open>Inodes\<close>

definition iget :: "u32 \<Rightarrow> u32 \<Rightarrow> 'a fs_state_scheme \<Rightarrow> (nat \<times> 'a fs_state_scheme) kres" where
  "iget dev inum s =
     (case List.find (\<lambda>i. i_ref (inodes s i) > 0 \<and> i_dev (inodes s i) = dev \<and> i_inum (inodes s i) = inum) [0..<NINODE] of
        Some ip \<Rightarrow> Inr (ip, upd_inode ip (\<lambda>x. x\<lparr>i_ref := i_ref x + 1\<rparr>) s)
      | None \<Rightarrow>
          (case List.find (\<lambda>i. i_ref (inodes s i) = 0) [0..<NINODE] of
             None \<Rightarrow> Inl (Panic ''iget: no inodes'')
           | Some ip \<Rightarrow> Inr (ip, upd_inode ip (\<lambda>x. x\<lparr>i_dev := dev, i_inum := inum, i_ref := 1, i_flags := 0\<rparr>) s)))"

definition inode_slot :: "u32 \<Rightarrow> nat" where "inode_slot inum = unat (inum mod IPB)"

fun ialloc_loop :: "u32 \<Rightarrow> u16 \<Rightarrow> nat list \<Rightarrow> 'a fs_state_scheme \<Rightarrow> (nat \<times> 'a fs_state_scheme) kres" where
  "ialloc_loop dev ty [] s = Inl (Panic ''ialloc: no inodes'')"
| "ialloc_loop dev ty (inum # is) s =
     kbind (bread dev (IBLOCK (of_nat inum)) s) (\<lambda>(bp, s).
       let k = inode_slot (of_nat inum)
       in if d_type (get_dinode k (b_data (bufs s bp))) = 0 then
            kbind (log_write bp (upd_data bp (\<lambda>d. put16 (64 * k) ty (blit (64 * k) 64 (\<lambda>_. 0) d)) s)) (\<lambda>s.
            kbind (brelse bp s) (iget dev (of_nat inum)))
          else kbind (brelse bp s) (ialloc_loop dev ty is))"

definition ialloc :: "u32 \<Rightarrow> u16 \<Rightarrow> 'a fs_state_scheme \<Rightarrow> (nat \<times> 'a fs_state_scheme) kres" where
  "ialloc dev ty s = kbind (readsb dev s) (\<lambda>(sb, s). ialloc_loop dev ty [1..<unat (sb_ninodes sb)] s)"

definition dinode_of :: "inode \<Rightarrow> dinode" where
  "dinode_of x = \<lparr>d_type = i_type x, d_major = i_major x, d_minor = i_minor x, d_nlink = i_nlink x,
     d_size = i_size x, d_addrs = i_addrs x\<rparr>"

definition iupdate :: "nat \<Rightarrow> 'a fs_state_scheme \<Rightarrow> 'a fs_state_scheme kres" where
  "iupdate ip s =
     kbind (bread (i_dev (inodes s ip)) (IBLOCK (i_inum (inodes s ip))) s) (\<lambda>(bp, s).
       kbind (log_write bp (upd_data bp (put_dinode (inode_slot (i_inum (inodes s ip))) (dinode_of (inodes s ip))) s))
         (brelse bp))"

definition idup :: "nat \<Rightarrow> 'a fs_state_scheme \<Rightarrow> nat \<times> 'a fs_state_scheme" where
  "idup ip s = (ip, upd_inode ip (\<lambda>x. x\<lparr>i_ref := i_ref x + 1\<rparr>) s)"

definition load_dinode :: "dinode \<Rightarrow> inode \<Rightarrow> inode" where
  "load_dinode d x = x\<lparr>i_type := d_type d, i_major := d_major d, i_minor := d_minor d, i_nlink := d_nlink d,
     i_size := d_size d, i_addrs := d_addrs d\<rparr>"

definition ilock :: "nat \<Rightarrow> 'a fs_state_scheme \<Rightarrow> 'a fs_state_scheme kres" where
  "ilock ip s =
     (if i_ref (inodes s ip) < 1 then Inl (Panic ''ilock'')
      else if i_flags (inodes s ip) AND I_BUSY \<noteq> 0 then Inl (Sleep (ChInode ip))
      else
        let s = upd_inode ip (\<lambda>x. x\<lparr>i_flags := i_flags x OR I_BUSY\<rparr>) s
        in if i_flags (inodes s ip) AND I_VALID = 0 then
             kbind (bread (i_dev (inodes s ip)) (IBLOCK (i_inum (inodes s ip))) s) (\<lambda>(bp, s).
               let dip = get_dinode (inode_slot (i_inum (inodes s ip))) (b_data (bufs s bp));
                   s = upd_inode ip (load_dinode dip) s
               in kbind (brelse bp s) (\<lambda>s.
                  let s = upd_inode ip (\<lambda>x. x\<lparr>i_flags := i_flags x OR I_VALID\<rparr>) s
                  in if i_type (inodes s ip) = 0 then Inl (Panic ''ilock: no type'') else Inr s))
           else Inr s)"

definition iunlock :: "nat \<Rightarrow> 'a fs_state_scheme \<Rightarrow> 'a fs_state_scheme kres" where
  "iunlock ip s =
     (if i_flags (inodes s ip) AND I_BUSY = 0 \<or> i_ref (inodes s ip) < 1 then Inl (Panic ''iunlock'')
      else Inr (wakeup (ChInode ip) (upd_inode ip (\<lambda>x. x\<lparr>i_flags := i_flags x AND NOT I_BUSY\<rparr>) s)))"

section \<open>Inode content\<close>

definition set_addr :: "nat \<Rightarrow> nat \<Rightarrow> u32 \<Rightarrow> 'a fs_state_scheme \<Rightarrow> 'a fs_state_scheme" where
  "set_addr ip i a = upd_inode ip (\<lambda>x. x\<lparr>i_addrs := (i_addrs x)(i := a)\<rparr>)"

text \<open>Slot \<open>i\<close> of the addresses of an inode, allocated when it is empty.\<close>

definition addr_slot :: "nat \<Rightarrow> nat \<Rightarrow> 'a fs_state_scheme \<Rightarrow> (u32 \<times> 'a fs_state_scheme) kres" where
  "addr_slot ip i s =
     (let addr = i_addrs (inodes s ip) i
      in if addr = 0 then kbind (balloc (i_dev (inodes s ip)) s) (\<lambda>(addr, s). Inr (addr, set_addr ip i addr s))
         else Inr (addr, s))"

text \<open>Entry \<open>k\<close> of the indirect block in buffer \<open>bp\<close>, allocated when it is empty.\<close>

definition indirect_slot :: "nat \<Rightarrow> nat \<Rightarrow> nat \<Rightarrow> 'a fs_state_scheme \<Rightarrow> (u32 \<times> 'a fs_state_scheme) kres" where
  "indirect_slot ip bp k s =
     (let addr = get32 (b_data (bufs s bp)) (4 * k)
      in if addr = 0 then
           kbind (balloc (i_dev (inodes s ip)) s) (\<lambda>(addr, s).
           kbind (log_write bp (upd_data bp (put32 (4 * k) addr) s)) (\<lambda>s. Inr (addr, s)))
         else Inr (addr, s))"

definition bmap :: "nat \<Rightarrow> u32 \<Rightarrow> 'a fs_state_scheme \<Rightarrow> (u32 \<times> 'a fs_state_scheme) kres" where
  "bmap ip bn s =
     (if unat bn < NDIRECT then addr_slot ip (unat bn) s
      else
        let k = unat bn - NDIRECT
        in if k < NINDIRECT then
             kbind (addr_slot ip NDIRECT s) (\<lambda>(addr, s).
             kbind (bread (i_dev (inodes s ip)) addr s) (\<lambda>(bp, s).
             kbind (indirect_slot ip bp k s) (\<lambda>(addr, s).
             kbind (brelse bp s) (\<lambda>s.
             Inr (addr, s)))))
           else Inl (Panic ''bmap: out of range''))"

definition itrunc_direct :: "nat \<Rightarrow> nat \<Rightarrow> 'a fs_state_scheme \<Rightarrow> 'a fs_state_scheme kres" where
  "itrunc_direct ip i s =
     (if i_addrs (inodes s ip) i \<noteq> 0 then
        kbind (bfree (i_dev (inodes s ip)) (i_addrs (inodes s ip) i) s) (\<lambda>s. Inr (set_addr ip i 0 s))
      else Inr s)"

definition itrunc_indirect :: "nat \<Rightarrow> nat \<Rightarrow> nat \<Rightarrow> 'a fs_state_scheme \<Rightarrow> 'a fs_state_scheme kres" where
  "itrunc_indirect ip bp j s =
     (if get32 (b_data (bufs s bp)) (4 * j) \<noteq> 0
      then bfree (i_dev (inodes s ip)) (get32 (b_data (bufs s bp)) (4 * j)) s else Inr s)"

definition itrunc :: "nat \<Rightarrow> 'a fs_state_scheme \<Rightarrow> 'a fs_state_scheme kres" where
  "itrunc ip s =
     kbind (kfold (itrunc_direct ip) [0..<NDIRECT] s) (\<lambda>s.
     kbind (if i_addrs (inodes s ip) NDIRECT \<noteq> 0 then
              kbind (bread (i_dev (inodes s ip)) (i_addrs (inodes s ip) NDIRECT) s) (\<lambda>(bp, s).
              kbind (kfold (itrunc_indirect ip bp) [0..<NINDIRECT] s) (\<lambda>s.
              kbind (brelse bp s) (\<lambda>s.
              kbind (bfree (i_dev (inodes s ip)) (i_addrs (inodes s ip) NDIRECT) s) (\<lambda>s.
              Inr (set_addr ip NDIRECT 0 s)))))
            else Inr s) (\<lambda>s.
     iupdate ip (upd_inode ip (\<lambda>x. x\<lparr>i_size := 0\<rparr>) s)))"

definition iput :: "nat \<Rightarrow> 'a fs_state_scheme \<Rightarrow> 'a fs_state_scheme kres" where
  "iput ip s =
     kbind
       (if i_ref (inodes s ip) = 1 \<and> i_flags (inodes s ip) AND I_VALID \<noteq> 0 \<and> i_nlink (inodes s ip) = 0 then
          if i_flags (inodes s ip) AND I_BUSY \<noteq> 0 then Inl (Panic ''iput busy'')
          else
            kbind (itrunc ip (upd_inode ip (\<lambda>x. x\<lparr>i_flags := i_flags x OR I_BUSY\<rparr>) s)) (\<lambda>s.
            kbind (iupdate ip (upd_inode ip (\<lambda>x. x\<lparr>i_type := 0\<rparr>) s)) (\<lambda>s.
            Inr (wakeup (ChInode ip) (upd_inode ip (\<lambda>x. x\<lparr>i_flags := 0\<rparr>) s))))
        else Inr s)
       (\<lambda>s. Inr (upd_inode ip (\<lambda>x. x\<lparr>i_ref := i_ref x - 1\<rparr>) s))"

definition iunlockput :: "nat \<Rightarrow> 'a fs_state_scheme \<Rightarrow> 'a fs_state_scheme kres" where
  "iunlockput ip s = kbind (iunlock ip s) (iput ip)"

record stat =
  st_type :: u16
  st_dev :: u32
  st_ino :: u32
  st_nlink :: u16
  st_size :: u32

definition stati :: "nat \<Rightarrow> 'a fs_state_scheme \<Rightarrow> stat" where
  "stati ip s =
     (let x = inodes s ip
      in \<lparr>st_type = i_type x, st_dev = i_dev x, st_ino = i_inum x, st_nlink = i_nlink x, st_size = i_size x\<rparr>)"

section \<open>Blocks in front of the log\<close>

text \<open>The contents of the file system: what the cache stands for, in front of the log.\<close>

definition hview :: "'a log_state_scheme \<Rightarrow> u32 \<Rightarrow> block" where
  "hview s x = (if x < log_start s then bview s x else (\<lambda>_. 0))"

definition lframe :: "'a log_state_scheme \<Rightarrow> 'a log_state_scheme \<Rightarrow> bool" where
  "lframe s t \<longleftrightarrow> t = s\<lparr>bufs := bufs t, ptable := ptable t, disk := disk t, writes := writes t,
                      lh_n := lh_n t, lh_sector := lh_sector t\<rparr>"

lemma lframe_refl [simp, intro]: "lframe s s"
  by (simp add: lframe_def)

lemma lframe_trans [trans]: "lframe s t \<Longrightarrow> lframe t u \<Longrightarrow> lframe s u"
  by (cases s; cases t; cases u) (simp add: lframe_def)

lemma lframe_dframe: "dframe s t \<Longrightarrow> lframe s t"
  by (cases s; cases t) (simp add: lframe_def dframe_def)

lemma lframe_same:
  assumes "lframe s t"
  shows "log_start t = log_start s" "log_size t = log_size s" "log_busy t = log_busy s" "log_dev t = log_dev s"
    "disksize t = disksize s" "mem t = mem s" "cur t = cur s"
  using assms by (cases s; cases t; simp add: lframe_def)+

lemma lframe_inodes: "lframe s t \<Longrightarrow> inodes t = inodes s" for s :: "'a fs_state_scheme"
  by (cases s; cases t) (simp add: lframe_def)

text \<open>A run of transaction steps that gives back every buffer it locks and leaves those of others alone.\<close>

definition txrun :: "'a log_state_scheme \<Rightarrow> 'a log_state_scheme \<Rightarrow> bool" where
  "txrun s t \<longleftrightarrow> tstep\<^sup>*\<^sup>* s t \<and> lockset t = lockset s \<and>
     (\<forall>c x. owns s c x \<longrightarrow> owns t c x \<and> b_data (bufs t c) = b_data (bufs s c))"

lemma txrun_refl [simp, intro]: "txrun s s"
  by (simp add: txrun_def)

lemma txrun_trans [trans]: "txrun s t \<Longrightarrow> txrun t u \<Longrightarrow> txrun s u"
  unfolding txrun_def by (metis rtranclp_trans)

lemma steps_inv: "tstep\<^sup>*\<^sup>* s t \<Longrightarrow> log_inv s \<Longrightarrow> log_inv t"
  by (induction rule: rtranclp_induct) (auto intro: tstep_inv)

lemma txrun_inv: "txrun s t \<Longrightarrow> log_inv s \<Longrightarrow> log_inv t"
  unfolding txrun_def by (blast intro: steps_inv)

lemma same_log_txrun: "same_log s t \<Longrightarrow> txrun s t"
  unfolding txrun_def using same_log_inv [of s t] r_into_rtranclp [of tstep, OF t_other [of s t]]
  by (simp add: same_log_def)

lemma same_log_hview: "same_log s t \<Longrightarrow> hview t = hview s"
  using same_log_inv [of s t] by (auto simp: hview_def same_log_def fun_eq_iff)

lemma owner_low: "log_inv s \<Longrightarrow> owns s b x \<Longrightarrow> x < log_start s"
  unfolding log_inv_def by (blast dest: owns_lockset)

lemma log_inv_bio: "log_inv s \<Longrightarrow> bcache_inv s"
  by (simp add: log_inv_def)

lemma owner_view: "log_inv s \<Longrightarrow> owns s b x \<Longrightarrow> b_data (bufs s b) = hview s x"
  using owner_low [of s b x] bview_cached [OF log_inv_bio, of s b x] by (simp add: hview_def owns_def)

lemma bread_step:
  assumes inv: "log_inv s" and x: "x < log_start s" and br: "bread dv x s = Inr (b, t)"
  shows "dv = 1" "tstep s t" "log_inv t" "hview t = hview s" "lockset t = insert x (lockset s)" "x \<notin> lockset s"
    "owns t b x" "b_data (bufs t b) = hview s x" "saved t b x" "lframe s t"
    "owns s c y \<Longrightarrow> owns t c y \<and> c \<noteq> b \<and> b_data (bufs t c) = b_data (bufs s c)"
proof -
  have b: "bcache_inv s" using inv by (simp add: log_inv_def)
  note r = bread_ok [OF b br]
  note fr = dframe_log [OF dframe_bufframe [OF r(10)]] and d = bufframe_same [OF r(10)]
  show "dv = 1" "lockset t = insert x (lockset s)" "x \<notin> lockset s" "owns t b x"
    "owns s c y \<Longrightarrow> owns t c y \<and> c \<noteq> b \<and> b_data (bufs t c) = b_data (bufs s c)"
    using r by auto
  have br1: "bread 1 x s = Inr (b, t)" using br r(1) by simp
  show st: "tstep s t" by (rule t_read [OF br1 x])
  show "log_inv t" by (rule tstep_inv [OF st inv])
  show "hview t = hview s" by (rule ext) (simp add: hview_def fr r(4))
  show v: "b_data (bufs t b) = hview s x" using r(6) x by (simp add: hview_def)
  show "lframe s t" by (rule lframe_dframe [OF dframe_bufframe [OF r(10)]])
  have slot: "log_slot x t = log_slot x s" by (simp add: log_slot_def fr cong: option.case_cong)
  have "disk s (log_block (log_start s) (log_slot x s)) = bview s x" if "x \<in> dirtyset s"
  proof -
    from that inv obtain i where i: "i < length (logged s)" "x = logged s ! i"
      by (auto simp: log_inv_def image_iff)
    then show ?thesis using log_slot_logged [OF inv i(1)] inv r(9) by (simp add: log_inv_def)
  qed
  then show "saved t b x" using v x r(7,12) d by (simp add: saved_def slot fr hview_def)
qed

lemma brelse_step:
  assumes inv: "log_inv s" and own: "owns s b x" and sv: "saved s b x" and br: "brelse b s = Inr t"
  shows "tstep s t" "log_inv t" "hview t = hview s" "lockset t = lockset s - {x}" "lframe s t"
    "owns t c y \<longleftrightarrow> owns s c y \<and> c \<noteq> b" "b_data (bufs t c) = b_data (bufs s c)"
proof -
  have b: "bcache_inv s" using inv by (simp add: log_inv_def)
  show st: "tstep s t" by (rule t_release [OF own sv br])
  show "log_inv t" by (rule tstep_inv [OF st inv])
  have "dirty s b" if "x \<in> dirtyset s"
    using that own bcache_invD(3) [OF b] by (auto simp: dirtyset_def owns_def)
  then have "dirty s b \<or> b_data (bufs s b) = disk s x" using sv by (auto simp: saved_def split: if_splits)
  note e = brelse_ok [OF b own br this]
  show "hview t = hview s" by (rule ext) (simp add: hview_def e(2) dframe_log [OF dframe_bframe [OF e(7)]])
  show "lockset t = lockset s - {x}" "owns t c y \<longleftrightarrow> owns s c y \<and> c \<noteq> b" "b_data (bufs t c) = b_data (bufs s c)"
    using e by simp_all
  show "lframe s t" by (rule lframe_dframe [OF dframe_bframe [OF e(7)]])
qed

lemma log_write_step:
  assumes inv: "log_inv s" and own: "owns s b x" and lw: "log_write b (upd_data b f s) = Inr t"
  shows "tstep\<^sup>*\<^sup>* s t" "log_inv t" "hview t = (hview s)(x := f (hview s x))" "lockset t = lockset s" "lframe s t"
    "owns s c y \<Longrightarrow> owns t c y" "owns s c y \<Longrightarrow> b_data (bufs t c) = (if c = b then f (hview s x) else b_data (bufs s c))"
    "saved t b x"
proof -
  let ?u = "upd_data b f s"
  have b: "bcache_inv s" using inv by (simp add: log_inv_def)
  note m = set_data_ok [OF b own, of "\<lambda>x. f (b_data x)", folded upd_data_def]
  have st: "tstep s ?u" unfolding upd_data_def by (rule t_store [OF own])
  have invu: "log_inv ?u" by (rule tstep_inv [OF st inv])
  have ownu: "owns ?u b x" using m(5) own by simp
  note e = log_write_effect [OF invu ownu lw]
  have st2: "tstep ?u t" by (rule t_log [OF ownu lw])
  show "tstep\<^sup>*\<^sup>* s t" using st st2 by (meson converse_rtranclp_into_rtranclp r_into_rtranclp)
  show inv': "log_inv t" by (rule tstep_inv [OF st2 invu])
  note fu = dframe_log [OF dframe_bufframe [OF m(7)]] and ft = dframe_log [OF e(10)]
  have lf: "lframe ?u t" using e(10) by (cases ?u; cases t) (simp add: lframe_def dframe_def)
  with lframe_trans [OF lframe_dframe [OF dframe_bufframe [OF m(7)]]] show "lframe s t" .
  have low: "x < log_start s" by (rule owner_low [OF inv own])
  have v: "b_data (bufs s b) = hview s x" by (rule owner_view [OF inv own])
  let ?i = "log_slot x ?u"
  have n0: "0 \<le> lh_n ?u" using invu by (simp add: log_inv_def)
  have lt: "lh_sector t = (lh_sector ?u)(?i := x)" "lh_n t = (if int ?i = lh_n ?u then lh_n ?u + 1 else lh_n ?u)"
    using ft by simp_all
  note lg = log_write_logged [OF n0 refl lt]
  have "?i + 1 < nat (log_size ?u)"
    using lg(2) lt(2) e(2) n0 by (auto split: if_splits)
  then have gt: "log_start s < log_block (log_start ?u) ?i"
    using log_block_gt [of "log_start ?u" "nat (log_size ?u)" "disksize ?u" ?i] invu fu(1) by (simp add: log_inv_def)
  show "hview t = (hview s)(x := f (hview s x))"
  proof
    fix y
    show "hview t y = ((hview s)(x := f (hview s x))) y"
      using gt low v by (auto simp: hview_def e(5) m(2) m(6) ft fu)
  qed
  show "lockset t = lockset s" using e(7) m(4) by simp
  show "owns s c y \<Longrightarrow> owns t c y" using e(11) [of c y] m(5) [of c y] by simp
  show "owns s c y \<Longrightarrow> b_data (bufs t c) = (if c = b then f (hview s x) else b_data (bufs s c))"
    using e(11) [of c y] m(5,6) v by simp
  have "log_slot x t = ?i" using log_slot_logged [OF inv', of ?i] lg(2,3) by simp
  then show "saved t b x"
    using e(6,8) e(11) [OF ownu] m(6) by (simp add: saved_def ft fu)
qed

text \<open>Two shapes of code: read a block and release it, and change a block, log it and release it.\<close>

lemma read_release:
  assumes inv: "log_inv s" and x: "x < log_start s" and br: "bread dv x s = Inr (b, u)"
    and rel: "brelse b u = Inr t"
  shows "dv = 1" "txrun s t" "hview t = hview s" "lframe s t" "b_data (bufs u b) = hview s x" "x \<notin> lockset s"
proof -
  note r = bread_step [OF inv x br]
  note e = brelse_step [OF r(3,7,9) rel]
  show "dv = 1" "hview t = hview s" "lframe s t" "b_data (bufs u b) = hview s x" "x \<notin> lockset s"
    using r e lframe_trans by auto
  have "owns t c y \<and> b_data (bufs t c) = b_data (bufs s c)" if "owns s c y" for c y
    using r(11) [OF that] e(6,7) by simp
  moreover have "tstep\<^sup>*\<^sup>* s t" using r(2) e(1) by (meson converse_rtranclp_into_rtranclp r_into_rtranclp)
  ultimately show "txrun s t" using r(5,6) e(4) by (auto simp: txrun_def)
qed

lemma modify_release:
  assumes inv: "log_inv s" and x: "x < log_start s" and br: "bread dv x s = Inr (b, u)"
    and lw: "log_write b (upd_data b f u) = Inr v" and rel: "brelse b v = Inr t"
  shows "dv = 1" "txrun s t" "hview t = (hview s)(x := f (hview s x))" "lframe s t" "lframe s u"
    "b_data (bufs u b) = hview s x" "x \<notin> lockset s"
proof -
  note r = bread_step [OF inv x br]
  note w = log_write_step [OF r(3,7) lw]
  note e = brelse_step [OF w(2) w(6) [OF r(7)] w(8) rel]
  show "dv = 1" "hview t = (hview s)(x := f (hview s x))" "lframe s t" "lframe s u"
    "b_data (bufs u b) = hview s x" "x \<notin> lockset s"
    using r w e by (auto intro: lframe_trans)
  have "owns t c y \<and> b_data (bufs t c) = b_data (bufs s c)" if "owns s c y" for c y
    using r(11) [OF that] w(6,7) [of c y] e(6,7) by simp
  moreover have "tstep\<^sup>*\<^sup>* s t" using r(2) w(1) e(1)
    by (meson converse_rtranclp_into_rtranclp r_into_rtranclp rtranclp_trans)
  ultimately show "txrun s t" using r(5,6) w(4) e(4) by (auto simp: txrun_def)
qed

lemma readsb_step:
  assumes inv: "log_inv s" and x: "1 < log_start s" and rd: "readsb dv s = Inr (sb, t)"
  shows "dv = 1" "txrun s t" "hview t = hview s" "lframe s t" "sb = decode_sb (hview s 1)"
proof -
  from rd obtain b u where br: "bread dv 1 s = Inr (b, u)" "brelse b u = Inr t" "sb = decode_sb (b_data (bufs u b))"
    by (auto simp: readsb_def kbind_returns Let_def)
  with read_release [OF inv x br(1,2)]
  show "dv = 1" "txrun s t" "hview t = hview s" "lframe s t" "sb = decode_sb (hview s 1)" by simp_all
qed

lemma bzero_step:
  assumes "log_inv s" "x < log_start s" "bzero dv x s = Inr t"
  shows "txrun s t" "hview t = (hview s)(x := (\<lambda>_. 0))" "lframe s t"
proof -
  from assms(3) obtain b u v where "bread dv x s = Inr (b, u)" "log_write b (upd_data b (\<lambda>_ _. 0) u) = Inr v" "brelse b v = Inr t"
    by (auto simp: bzero_def kbind_returns)
  from modify_release [OF assms(1,2) this] show "txrun s t" "hview t = (hview s)(x := (\<lambda>_. 0))" "lframe s t"
    by simp_all
qed

section \<open>The contents of the file system\<close>

text \<open>
  Everything the file system keeps is a function of the blocks \<open>d\<close> in front of the log: the super
  block, the bitmap and the inodes on the disk.
\<close>

type_synonym fsdisk = "u32 \<Rightarrow> block"

definition dsb :: "fsdisk \<Rightarrow> superblock" where "dsb d = decode_sb (d 1)"

definition bblock :: "fsdisk \<Rightarrow> u32 \<Rightarrow> u32" where "bblock d b = BBLOCK b (sb_ninodes (dsb d))"

definition dused :: "fsdisk \<Rightarrow> u32 \<Rightarrow> bool" where
  "dused d b \<longleftrightarrow> \<not> block_free (d (bblock d b)) (unat (b mod BPB))"

definition set_used :: "u32 \<Rightarrow> fsdisk \<Rightarrow> fsdisk" where
  "set_used b d = d(bblock d b := mark_used (unat (b mod BPB)) (d (bblock d b)))"

definition set_free :: "u32 \<Rightarrow> fsdisk \<Rightarrow> fsdisk" where
  "set_free b d = d(bblock d b := mark_free (unat (b mod BPB)) (d (bblock d b)))"

text \<open>The last block of the bitmap, with which the metadata ends.\<close>

definition last_meta :: "fsdisk \<Rightarrow> u32" where "last_meta d = bblock d (sb_size (dsb d) - 1)"

text \<open>
  The layout: the metadata lies in front of the log, and the blocks of the metadata and those from
  the log on are marked in the bitmap.
\<close>

definition fs_geo :: "u32 \<Rightarrow> fsdisk \<Rightarrow> bool" where
  "fs_geo start d \<longleftrightarrow> 0 < sb_size (dsb d) \<and> last_meta d < start \<and> start \<le> sb_size (dsb d) \<and>
     (\<forall>b < sb_size (dsb d). b \<le> last_meta d \<or> start \<le> b \<longrightarrow> dused d b)"

lemma block_free_bit: "block_free d i \<longleftrightarrow> \<not> bit (d (i div 8)) (i mod 8)"
proof -
  have "d (i div 8) AND bit_mask i = 0 \<longleftrightarrow> d (i div 8) AND 2 ^ (i mod 8) = 0"
    by (simp add: bit_mask_def push_bit_eq_mult)
  then show ?thesis by (simp add: block_free_def and_exp_eq_0_iff_not_bit)
qed

lemma bit_mask_bit: "bit (bit_mask i) n \<longleftrightarrow> n = i mod 8"
proof -
  have "bit_mask i = 2 ^ (i mod 8)" by (simp add: bit_mask_def push_bit_eq_mult)
  moreover have "possible_bit TYPE(u8) (i mod 8)" by (simp add: possible_bit_word)
  ultimately show ?thesis by (auto simp only: bit_exp_iff)
qed

lemma mod8_div8: "i div 8 = j div 8 \<Longrightarrow> i mod 8 = j mod 8 \<longleftrightarrow> i = j" for i j :: nat
  by (metis div_mult_mod_eq)

lemma mark_used_free: "block_free (mark_used i d) j \<longleftrightarrow> block_free d j \<and> j \<noteq> i"
  using mod8_div8 [of j i] by (auto simp: block_free_bit mark_used_def bit_or_iff bit_mask_bit)

lemma mark_free_free: "block_free (mark_free i d) j \<longleftrightarrow> block_free d j \<or> j = i"
  using mod8_div8 [of j i] by (auto simp: block_free_bit mark_free_def bit_and_iff bit_not_iff bit_mask_bit)

lemma BPB_simps: "unat BPB = 4096" "BPB = 4096" "IPB = 8" "unat IPB = 8"
  by (simp_all add: BPB_def IPB_def BSIZE_def)

lemma unat_of_nat_eq_u32: "n < 2 ^ 32 \<Longrightarrow> unat (of_nat n :: u32) = n"
  by (simp add: unat_of_nat)

lemma unat_div_mod: "unat (a div 4096 :: u32) = unat a div 4096" "unat (a mod 4096 :: u32) = unat a mod 4096"
  "unat (a div 8 :: u32) = unat a div 8" "unat (a mod 8 :: u32) = unat a mod 8"
  by (simp_all add: unat_div unat_mod)

lemma BBLOCK_unat: "unat (BBLOCK b n) = unat b div 4096 + unat n div 8 + 3"
proof -
  have "unat b < 2 ^ 32" "unat n < 2 ^ 32" by (rule unat_lt2p_u32)+
  then have lt: "unat b div 4096 + unat n div 8 + 3 < 2 ^ 32" by simp
  have "unat (b div 4096 + n div 8) = unat b div 4096 + unat n div 8"
    using lt by (subst unat_add_lem [THEN iffD1]) (simp_all add: unat_div_mod)
  with lt show ?thesis unfolding BBLOCK_def BPB_simps
    by (subst unat_add_lem [THEN iffD1]) simp_all
qed

lemma BBLOCK_eq: "BBLOCK b n = BBLOCK c n \<longleftrightarrow> unat b div 4096 = unat c div 4096"
  using BBLOCK_unat [of b n] BBLOCK_unat [of c n] by (metis add_right_cancel unsigned_word_eqI)

lemma bblock_ge: "2 < bblock d b" "bblock d b \<noteq> 1" "bblock d b \<noteq> 0"
  using BBLOCK_unat [of b "sb_ninodes (dsb d)"] by (auto simp: bblock_def word_less_nat_alt)

lemma bblock_le: "fs_geo start d \<Longrightarrow> b < sb_size (dsb d) \<Longrightarrow> bblock d b \<le> last_meta d \<and> bblock d b < start"
proof -
  assume g: "fs_geo start d" and b: "b < sb_size (dsb d)"
  then have "b \<le> sb_size (dsb d) - 1" by (simp add: word_le_nat_alt word_less_nat_alt unat_sub_if')
  then have "bblock d b \<le> last_meta d"
    by (simp add: last_meta_def bblock_def word_le_nat_alt BBLOCK_unat div_le_mono)
  then show ?thesis using g by (auto simp: fs_geo_def)
qed

lemma upd_dsb: "x \<noteq> 1 \<Longrightarrow> dsb (d(x := v)) = dsb d \<and> bblock (d(x := v)) = bblock d"
  by (simp add: dsb_def bblock_def fun_eq_iff)

lemma set_used_sb [simp]: "dsb (set_used b d) = dsb d" "bblock (set_used b d) = bblock d"
  "dsb (set_free b d) = dsb d" "bblock (set_free b d) = bblock d"
  using upd_dsb [OF bblock_ge(2)] by (simp_all add: set_used_def set_free_def)

lemma bblock_split: "bblock d b = bblock d c \<Longrightarrow> unat (b mod BPB) = unat (c mod BPB) \<longleftrightarrow> b = c"
proof -
  assume "bblock d b = bblock d c"
  then have "unat b div 4096 = unat c div 4096" by (simp add: bblock_def BBLOCK_eq)
  then show ?thesis by (metis BPB_simps(2) div_mult_mod_eq unat_div_mod(2) unsigned_word_eqI)
qed

lemma dused_set_used [simp]: "dused (set_used b d) c \<longleftrightarrow> dused d c \<or> c = b"
proof -
  have "set_used b d (bblock d c) = (if bblock d c = bblock d b then mark_used (unat (b mod BPB)) (d (bblock d b)) else d (bblock d c))"
    by (simp add: set_used_def)
  then show ?thesis using bblock_split [of d c b] by (auto simp: dused_def mark_used_free)
qed

lemma dused_set_free [simp]: "dused (set_free b d) c \<longleftrightarrow> dused d c \<and> c \<noteq> b"
proof -
  have "set_free b d (bblock d c) = (if bblock d c = bblock d b then mark_free (unat (b mod BPB)) (d (bblock d b)) else d (bblock d c))"
    by (simp add: set_free_def)
  then show ?thesis using bblock_split [of d c b] by (auto simp: dused_def mark_free_free)
qed

text \<open>What keeps the layout: changes of the bitmap for data blocks, and of blocks outside the bitmap.\<close>

definition data_block :: "u32 \<Rightarrow> fsdisk \<Rightarrow> u32 \<Rightarrow> bool" where
  "data_block start d b \<longleftrightarrow> last_meta d < b \<and> b < start"

lemma last_meta_set [simp]: "last_meta (set_used b d) = last_meta d" "last_meta (set_free b d) = last_meta d"
  by (simp_all add: last_meta_def)

lemma data_block_set [simp]:
  "data_block start (set_used b d) = data_block start d" "data_block start (set_free b d) = data_block start d"
  by (simp_all add: data_block_def fun_eq_iff)

lemma geo_set_used: "fs_geo start d \<Longrightarrow> fs_geo start (set_used b d)"
  by (auto simp: fs_geo_def)

lemma geo_set_free: "fs_geo start d \<Longrightarrow> data_block start d b \<Longrightarrow> fs_geo start (set_free b d)"
  by (auto simp: fs_geo_def data_block_def)

lemma upd_used:
  assumes "fs_geo start d" "x \<noteq> 1" "\<And>b. b < sb_size (dsb d) \<Longrightarrow> bblock d b \<noteq> x"
  shows "dsb (d(x := v)) = dsb d" "bblock (d(x := v)) = bblock d" "last_meta (d(x := v)) = last_meta d"
    "data_block start (d(x := v)) = data_block start d"
    "b < sb_size (dsb d) \<Longrightarrow> dused (d(x := v)) b = dused d b" "fs_geo start (d(x := v))"
proof -
  show s: "dsb (d(x := v)) = dsb d" "bblock (d(x := v)) = bblock d" using upd_dsb [OF assms(2)] by auto
  then show l: "last_meta (d(x := v)) = last_meta d" by (simp add: last_meta_def)
  then show "data_block start (d(x := v)) = data_block start d" by (simp add: data_block_def fun_eq_iff)
  show u: "b < sb_size (dsb d) \<Longrightarrow> dused (d(x := v)) b = dused d b" for b
    using assms(3) by (simp add: dused_def s)
  then show "fs_geo start (d(x := v))" using assms(1) by (auto simp: fs_geo_def s l)
qed

lemma data_block_upd:
  assumes g: "fs_geo start d" and x: "data_block start d x"
  shows "x \<noteq> 1" "b < sb_size (dsb d) \<Longrightarrow> bblock d b \<noteq> x"
proof -
  have "2 < last_meta d" by (simp add: last_meta_def bblock_ge)
  then have "2 < x" using x by (auto simp: data_block_def intro: less_trans)
  then show "x \<noteq> 1" by auto
  show "b < sb_size (dsb d) \<Longrightarrow> bblock d b \<noteq> x" using bblock_le [OF g, of b] x by (auto simp: data_block_def)
qed

lemma upd_data_block:
  assumes g: "fs_geo start d" and x: "data_block start d x"
  shows "dsb (d(x := v)) = dsb d" "bblock (d(x := v)) = bblock d" "last_meta (d(x := v)) = last_meta d"
    "data_block start (d(x := v)) = data_block start d"
    "b < sb_size (dsb d) \<Longrightarrow> dused (d(x := v)) b = dused d b" "fs_geo start (d(x := v))"
  by (rule upd_used [OF g data_block_upd [OF g x]]; assumption)+

section \<open>The block allocator\<close>

lemma balloc_loop_step:
  assumes "log_inv s" "fs_geo (log_start s) d" "hview s = d" "sb = dsb d"
    and "\<forall>b\<in>set bs. 4096 dvd b \<and> b < unat (sb_size sb)"
    and "balloc_loop dv sb bs s = Inr (a, t)"
  shows "dv = 1 \<and> a < sb_size sb \<and> \<not> dused d a \<and> txrun s t \<and> lframe s t \<and> hview t = (set_used a d)(a := (\<lambda>_. 0))"
  using assms
proof (induction bs arbitrary: s)
  case (Cons b bs)
  let ?x = "BBLOCK (of_nat b) (sb_ninodes sb)"
  have b: "4096 dvd b" "b < unat (sb_size sb)" using Cons.prems(5) by auto
  then have ub: "unat (of_nat b :: u32) = b" using unat_lt2p_u32 [of "sb_size sb"] by (intro unat_of_nat_eq_u32) simp
  have x: "?x = bblock d (of_nat b)" by (simp add: bblock_def Cons.prems(4))
  have "(of_nat b :: u32) < sb_size (dsb d)" using b ub Cons.prems(4) by (simp add: word_less_nat_alt)
  then have xl: "?x < log_start s" unfolding x using bblock_le [OF Cons.prems(2)] by blast
  from Cons.prems(6) obtain bp u where br: "bread dv ?x s = Inr (bp, u)"
    and rest: "(case List.find (\<lambda>bi. b + bi < unat (sb_size sb) \<and> block_free (b_data (bufs u bp)) bi) [0..<unat BPB] of
         Some bi \<Rightarrow>
           kbind (log_write bp (upd_data bp (mark_used bi) u)) (\<lambda>s.
           kbind (brelse bp s) (\<lambda>s.
           kbind (bzero dv (of_nat (b + bi)) s) (\<lambda>s.
           Inr (of_nat (b + bi), s))))
       | None \<Rightarrow> kbind (brelse bp u) (balloc_loop dv sb bs)) = Inr (a, t)"
    by (auto simp: kbind_returns)
  note dat = bread_step(8) [OF Cons.prems(1) xl br]
  show ?case
  proof (cases "List.find (\<lambda>bi. b + bi < unat (sb_size sb) \<and> block_free (b_data (bufs u bp)) bi) [0..<unat BPB]")
    case None
    with rest obtain v where v: "brelse bp u = Inr v" "balloc_loop dv sb bs v = Inr (a, t)" by (auto simp: kbind_returns)
    note r = read_release [OF Cons.prems(1) xl br v(1)]
    have "dv = 1 \<and> a < sb_size sb \<and> \<not> dused d a \<and> txrun v t \<and> lframe v t \<and> hview t = (set_used a d)(a := (\<lambda>_. 0))"
      using Cons.prems r v(2) by (intro Cons.IH) (auto intro: txrun_inv simp: lframe_same)
    with r show ?thesis using txrun_trans lframe_trans by blast
  next
    case (Some bi)
    from find_SomeD [OF Some] have bi: "bi < 4096" "b + bi < unat (sb_size sb)" "block_free (hview s ?x) bi"
      by (auto simp: BPB_simps dat)
    from rest Some obtain v w where v: "log_write bp (upd_data bp (mark_used bi) u) = Inr v" "brelse bp v = Inr w"
      "bzero dv (of_nat (b + bi)) w = Inr t" and a: "a = of_nat (b + bi)"
      by (auto simp: kbind_returns)
    have ua: "unat a = b + bi"
      unfolding a using bi(2) unat_lt2p_u32 [of "sb_size sb"] by (intro unat_of_nat_eq_u32) simp
    have sz: "a < sb_size sb" using ua bi(2) by (simp add: word_less_nat_alt)
    have xa: "?x = bblock d a" using b(1) bi(1) by (auto simp: bblock_def Cons.prems(4) BBLOCK_eq ua ub elim!: dvdE)
    have am: "unat (a mod BPB) = bi" using b(1) bi(1) by (auto simp: BPB_simps unat_div_mod ua elim!: dvdE)
    have fr: "\<not> dused d a" using bi(3) by (simp add: dused_def am Cons.prems(3) flip: xa)
    note m = modify_release [OF Cons.prems(1) xl br v(1,2)]
    have hw: "hview w = set_used a d" using m(3) by (simp add: set_used_def am Cons.prems(3) flip: xa)
    have "a < log_start w"
      using Cons.prems(2,4) sz fr lframe_same(1) [OF m(4)] by (auto simp: fs_geo_def not_le [symmetric])
    note z = bzero_step [OF txrun_inv [OF m(2) Cons.prems(1)] this v(3) [folded a]]
    from m(1,2,4) z hw sz fr show ?thesis by (auto intro: txrun_trans lframe_trans)
  qed
qed simp

lemma bitmap_starts_ok: "b \<in> set (bitmap_starts n) \<longleftrightarrow> 4096 dvd b \<and> b < unat n"
proof -
  have "k < (m + 4095) div 4096 \<longleftrightarrow> 4096 * k < m" for k m :: nat by linarith
  then show ?thesis by (auto simp: bitmap_starts_def BPB_simps elim!: dvdE)
qed

lemma geo_start: "fs_geo start d \<Longrightarrow> 1 < start"
proof -
  assume g: "fs_geo start d"
  have "2 < last_meta d" by (simp add: last_meta_def bblock_ge)
  then have "2 < start" using g by (auto simp: fs_geo_def intro: less_trans)
  then show ?thesis by (rule less_trans [rotated]) simp
qed

lemma balloc_step:
  assumes inv: "log_inv s" and g: "fs_geo (log_start s) (hview s)" and ba: "balloc dv s = Inr (a, t)"
  shows "dv = 1" "txrun s t" "lframe s t" "hview t = (set_used a (hview s))(a := (\<lambda>_. 0))"
    "\<not> dused (hview s) a" "data_block (log_start s) (hview s) a" "a < sb_size (dsb (hview s))"
    "fs_geo (log_start s) (hview t)" "dsb (hview t) = dsb (hview s)"
    "b < sb_size (dsb (hview s)) \<Longrightarrow> dused (hview t) b \<longleftrightarrow> dused (hview s) b \<or> b = a"
proof -
  let ?d = "hview s"
  from ba obtain sb u where rd: "readsb dv s = Inr (sb, u)" and lp: "balloc_loop dv sb (bitmap_starts (sb_size sb)) u = Inr (a, t)"
    by (auto simp: balloc_def kbind_returns)
  note r = readsb_step [OF inv geo_start [OF g] rd]
  have "dv = 1 \<and> a < sb_size sb \<and> \<not> dused ?d a \<and> txrun u t \<and> lframe u t \<and> hview t = (set_used a ?d)(a := (\<lambda>_. 0))"
    using lp r g txrun_inv [OF r(2) inv] lframe_same [OF r(4)] bitmap_starts_ok
    by (intro balloc_loop_step [where d = ?d]) (auto simp: dsb_def)
  then have l: "dv = 1" "a < sb_size (dsb ?d)" "\<not> dused ?d a" "txrun u t" "lframe u t"
      "hview t = (set_used a ?d)(a := (\<lambda>_. 0))"
    using r(5) by (auto simp: dsb_def)
  show "dv = 1" "\<not> dused ?d a" "a < sb_size (dsb ?d)" "hview t = (set_used a ?d)(a := (\<lambda>_. 0))" using l by auto
  show "txrun s t" "lframe s t" using r l by (auto intro: txrun_trans lframe_trans)
  show db: "data_block (log_start s) ?d a" using l g by (auto simp: data_block_def fs_geo_def not_le [symmetric])
  have "data_block (log_start s) (set_used a ?d) a" using db by simp
  note u = upd_data_block [OF geo_set_used [OF g] this]
  show "fs_geo (log_start s) (hview t)" "dsb (hview t) = dsb ?d" using u by (simp_all add: l(6))
  show "b < sb_size (dsb ?d) \<Longrightarrow> dused (hview t) b \<longleftrightarrow> dused ?d b \<or> b = a"
    using u(5) [of b] by (simp add: l(6))
qed

lemma bfree_step:
  assumes inv: "log_inv s" and g: "fs_geo (log_start s) (hview s)" and b: "b < sb_size (dsb (hview s))"
    and bf: "bfree dv b s = Inr t"
  shows "dv = 1" "txrun s t" "lframe s t" "hview t = set_free b (hview s)" "dused (hview s) b"
proof -
  let ?d = "hview s" and ?bi = "unat (b mod BPB)"
  from bf obtain sb u bp v w where rd: "readsb dv s = Inr (sb, u)" and br: "bread dv (BBLOCK b (sb_ninodes sb)) u = Inr (bp, v)"
    and nf: "\<not> block_free (b_data (bufs v bp)) ?bi"
    and lw: "log_write bp (upd_data bp (mark_free ?bi) v) = Inr w" and rel: "brelse bp w = Inr t"
    by (auto simp: bfree_def kbind_returns Let_def split: if_splits)
  note r = readsb_step [OF inv geo_start [OF g] rd]
  have x: "BBLOCK b (sb_ninodes sb) = bblock ?d b" by (simp add: bblock_def r(5) dsb_def)
  have xl: "BBLOCK b (sb_ninodes sb) < log_start u"
    unfolding x using bblock_le [OF g b] lframe_same(1) [OF r(4)] by simp
  note m = modify_release [OF txrun_inv [OF r(2) inv] xl br lw rel]
  show "dv = 1" "txrun s t" "lframe s t" using r m by (auto intro: txrun_trans lframe_trans)
  show "hview t = set_free b ?d" using m(3) r(3) by (simp add: x set_free_def)
  show "dused ?d b" using nf m(6) r(3) by (simp add: dused_def x)
qed

section \<open>Inodes on the disk\<close>

definition dino :: "fsdisk \<Rightarrow> u32 \<Rightarrow> dinode" where
  "dino d inum = get_dinode (inode_slot inum) (d (IBLOCK inum))"

definition same_dinode :: "dinode \<Rightarrow> dinode \<Rightarrow> bool" where
  "same_dinode x y \<longleftrightarrow> d_type x = d_type y \<and> d_major x = d_major y \<and> d_minor x = d_minor y \<and> d_nlink x = d_nlink y \<and>
     d_size x = d_size y \<and> (\<forall>i \<le> NDIRECT. d_addrs x i = d_addrs y i)"

lemma put_addrs:
  assumes "j < m \<or> off + 4 * m \<le> p \<or> p + 4 \<le> off"
  shows "get32 (fold (\<lambda>i. put32 (off + 4 * i) (f i)) [0..<m] d) (if j < m then off + 4 * j else p) = (if j < m then f j else get32 d p)"
  using assms
proof (induction m arbitrary: p)
  case (Suc m)
  show ?case
  proof (cases "j < m")
    case True
    with Suc.IH [of p] show ?thesis by simp
  next
    case False
    show ?thesis
    proof (cases "j = m")
      case False
      with \<open>\<not> j < m\<close> Suc.prems have "off + 4 * Suc m \<le> p \<or> p + 4 \<le> off" by auto
      with Suc.IH [of p] False \<open>\<not> j < m\<close> show ?thesis by (auto simp: less_Suc_eq)
    qed simp
  qed
qed auto

lemma put_addrs_at: "j < m \<Longrightarrow> get32 (fold (\<lambda>i. put32 (off + 4 * i) (f i)) [0..<m] d) (off + 4 * j) = f j"
  using put_addrs [of j m off 0 f d] by simp

lemma put_addrs_outside:
  "p < off \<or> off + 4 * m \<le> p \<Longrightarrow> fold (\<lambda>i. put32 (off + 4 * i) (f i)) [0..<m] d p = d p"
  by (induction m) (auto simp: put32_outside)

lemma get_cong: "(\<And>j. i \<le> j \<Longrightarrow> j < i + 4 \<Longrightarrow> d j = e j) \<Longrightarrow> get32 d i = get32 e i"
  "(\<And>j. i \<le> j \<Longrightarrow> j < i + 2 \<Longrightarrow> d j = e j) \<Longrightarrow> get16 d i = get16 e i"
  by (simp_all add: get32_def get16_def)

lemma put_dinode_outside: "p < 64 * k \<or> 64 * k + 64 \<le> p \<Longrightarrow> put_dinode k x d p = d p"
  unfolding put_dinode_def Let_def
  by (subst put_addrs_outside) (auto simp: NDIRECT_def put32_outside put16_outside)

lemma get_put_dinode: "same_dinode (get_dinode k (put_dinode k x d)) x"
proof -
  define e where "e = put32 (64 * k + 8) (d_size x) (put16 (64 * k + 6) (d_nlink x) (put16 (64 * k + 4) (d_minor x)
    (put16 (64 * k + 2) (d_major x) (put16 (64 * k) (d_type x) d))))"
  have p: "put_dinode k x d = fold (\<lambda>i. put32 (64 * k + 12 + 4 * i) (d_addrs x i)) [0..<NDIRECT + 1] e"
    by (simp add: put_dinode_def e_def Let_def)
  have lo: "get16 (put_dinode k x d) q = get16 e q" if "q + 2 \<le> 64 * k + 12" for q
    unfolding p by (rule get_cong, rule put_addrs_outside) (use that in auto)
  have lo32: "get32 (put_dinode k x d) q = get32 e q" if "q + 4 \<le> 64 * k + 12" for q
    unfolding p by (rule get_cong, rule put_addrs_outside) (use that in auto)
  have "get32 (put_dinode k x d) (64 * k + 12 + 4 * i) = d_addrs x i" if "i \<le> NDIRECT" for i
    unfolding p using that by (intro put_addrs_at) simp
  moreover have "get16 e (64 * k) = d_type x" "get16 e (64 * k + 2) = d_major x" "get16 e (64 * k + 4) = d_minor x"
    "get16 e (64 * k + 6) = d_nlink x" "get32 e (64 * k + 8) = d_size x"
    by (simp_all add: e_def)
  ultimately show ?thesis using lo lo32 by (simp add: same_dinode_def get_dinode_def)
qed

lemma get_dinode_other:
  assumes "j \<noteq> k" "\<And>p. p < 64 * k \<or> 64 * k + 64 \<le> p \<Longrightarrow> e p = d p"
  shows "same_dinode (get_dinode j e) (get_dinode j d)"
proof -
  have out: "e (64 * j + q) = d (64 * j + q)" if "q < 64" for q
    using assms(1) that by (intro assms(2)) (cases "j < k"; auto)
  have "get16 e (64 * j + q) = get16 d (64 * j + q)" if "q + 2 \<le> 64" for q
    using out [of q] out [of "q + 1"] that by (simp add: get16_def add.assoc)
  moreover have "get32 e (64 * j + q) = get32 d (64 * j + q)" if "q + 4 \<le> 64" for q
    using out [of q] out [of "q + 1"] out [of "q + 2"] out [of "q + 3"] that by (simp add: get32_def add.assoc)
  note this [of "12 + 4 * i" for i] this [of 8] calculation [of 0] calculation [of 2] calculation [of 4] calculation [of 6]
  ultimately show ?thesis by (simp add: same_dinode_def get_dinode_def NDIRECT_def add.assoc)
qed

lemma IBLOCK_unat: "unat (IBLOCK i) = unat i div 8 + 2"
proof -
  have "unat i div 8 + 2 < 2 ^ 32" using unat_lt2p_u32 [of i] by simp
  then show ?thesis unfolding IBLOCK_def BPB_simps
    by (subst unat_add_lem [THEN iffD1]) (simp_all add: unat_div_mod)
qed

lemma inode_block:
  assumes g: "fs_geo start d" and i: "i < sb_ninodes (dsb d)"
  shows "IBLOCK i \<noteq> 1" "bblock d b \<noteq> IBLOCK i" "IBLOCK i < start" "IBLOCK i \<le> last_meta d"
proof -
  have le: "unat i div 8 \<le> unat (sb_ninodes (dsb d)) div 8" using i by (intro div_le_mono) (simp add: word_less_nat_alt)
  show "IBLOCK i \<noteq> 1" using IBLOCK_unat [of i] by auto
  have lt: "IBLOCK i < bblock d b" for b
    using le by (simp add: word_less_nat_alt bblock_def BBLOCK_unat IBLOCK_unat)
  then show "bblock d b \<noteq> IBLOCK i" by (metis less_irrefl)
  show lm: "IBLOCK i \<le> last_meta d" using lt by (simp add: last_meta_def less_imp_le)
  then show "IBLOCK i < start" using g by (auto simp: fs_geo_def)
qed

lemma upd_inode_block:
  assumes g: "fs_geo start d" and i: "i < sb_ninodes (dsb d)"
  shows "dsb (d(IBLOCK i := v)) = dsb d" "bblock (d(IBLOCK i := v)) = bblock d" "last_meta (d(IBLOCK i := v)) = last_meta d"
    "data_block start (d(IBLOCK i := v)) = data_block start d"
    "b < sb_size (dsb d) \<Longrightarrow> dused (d(IBLOCK i := v)) b = dused d b" "fs_geo start (d(IBLOCK i := v))"
  by (rule upd_used [OF g inode_block(1,2) [OF g i]]; assumption)+

lemma same_log_inode [simp]: "same_log s (upd_inode ip f s)"
  by (simp add: same_log_def upd_inode_def)

lemma upd_inode_simps [simp]:
  "log_inv (upd_inode ip f s) = log_inv s" "hview (upd_inode ip f s) = hview s" "lockset (upd_inode ip f s) = lockset s"
  "log_start (upd_inode ip f s) = log_start s" "owns (upd_inode ip f s) = owns s" "bufs (upd_inode ip f s) = bufs s"
  "txrun s (upd_inode ip f s)"
  using same_log_inv [OF same_log_inode] same_log_hview [OF same_log_inode] same_log_txrun [OF same_log_inode]
  by (simp_all add: upd_inode_def)

lemma upd_inode_same [simp]: "inodes (upd_inode ip f s) = (inodes s)(ip := f (inodes s ip))"
  by (simp add: upd_inode_def)

lemma iupdate_step:
  assumes inv: "log_inv s" and g: "fs_geo (log_start s) (hview s)"
    and i: "i_inum (inodes s ip) = i" "i < sb_ninodes (dsb (hview s))" and up: "iupdate ip s = Inr t"
  shows "i_dev (inodes s ip) = 1" "txrun s t" "lframe s t"
    "hview t = (hview s)(IBLOCK i := put_dinode (inode_slot i) (dinode_of (inodes s ip)) (hview s (IBLOCK i)))"
    "fs_geo (log_start s) (hview t)"
proof -
  from up obtain b u v where br: "bread (i_dev (inodes s ip)) (IBLOCK i) s = Inr (b, u)"
    and lw: "log_write b (upd_data b (put_dinode (inode_slot (i_inum (inodes u ip))) (dinode_of (inodes u ip))) u) = Inr v"
    and rel: "brelse b v = Inr t"
    by (auto simp: iupdate_def kbind_returns i(1))
  note m = modify_release [OF inv inode_block(3) [OF g i(2)] br lw rel]
  have "inodes u = inodes s" by (rule lframe_inodes [OF m(5)])
  with m show "i_dev (inodes s ip) = 1" "txrun s t" "lframe s t"
    and h: "hview t = (hview s)(IBLOCK i := put_dinode (inode_slot i) (dinode_of (inodes s ip)) (hview s (IBLOCK i)))"
    by (simp_all add: i(1))
  show "fs_geo (log_start s) (hview t)" unfolding h by (rule upd_inode_block(6) [OF g i(2)])
qed

text \<open>Writing an inode to its slot leaves every other inode of the disk as it was.\<close>

lemma inode_slot_inj: "IBLOCK i = IBLOCK j \<Longrightarrow> inode_slot i = inode_slot j \<longleftrightarrow> i = j"
proof -
  assume "IBLOCK i = IBLOCK j"
  then have "unat i div 8 = unat j div 8" using IBLOCK_unat [of i] IBLOCK_unat [of j] by simp
  then show ?thesis unfolding inode_slot_def BPB_simps unat_div_mod
    by (metis div_mult_mod_eq unsigned_word_eqI)
qed

lemma same_dinode_refl [simp, intro]: "same_dinode x x"
  by (simp add: same_dinode_def)

lemma dino_update:
  fixes d :: fsdisk
  assumes "\<And>p. p < 64 * inode_slot i \<or> 64 * inode_slot i + 64 \<le> p \<Longrightarrow> e p = d (IBLOCK i) p" "j \<noteq> i"
  shows "same_dinode (dino (d(IBLOCK i := e)) j) (dino d j)"
proof (cases "IBLOCK j = IBLOCK i")
  case True
  with assms(2) have "inode_slot j \<noteq> inode_slot i" using inode_slot_inj by blast
  from get_dinode_other [OF this assms(1)] True show ?thesis by (simp add: dino_def)
qed (simp add: dino_def)

lemma dino_put:
  "same_dinode (dino (d(IBLOCK i := put_dinode (inode_slot i) x (d (IBLOCK i)))) i) x"
  "j \<noteq> i \<Longrightarrow> same_dinode (dino (d(IBLOCK i := put_dinode (inode_slot i) x (d (IBLOCK i)))) j) (dino d j)"
  by (simp add: dino_def get_put_dinode) (rule dino_update, auto simp: put_dinode_outside)

section \<open>The block map of an inode\<close>

definition baddr :: "fsdisk \<Rightarrow> inode \<Rightarrow> nat \<Rightarrow> u32" where
  "baddr d x bn =
     (if bn < NDIRECT then i_addrs x bn
      else if i_addrs x NDIRECT = 0 then 0
      else get32 (d (i_addrs x NDIRECT)) (4 * (bn - NDIRECT)))"

text \<open>The blocks of an inode are distinct used data blocks.\<close>

definition file_ok :: "u32 \<Rightarrow> fsdisk \<Rightarrow> inode \<Rightarrow> bool" where
  "file_ok start d x \<longleftrightarrow>
     (\<forall>bn < MAXFILE. baddr d x bn \<noteq> 0 \<longrightarrow> data_block start d (baddr d x bn) \<and> dused d (baddr d x bn) \<and>
        baddr d x bn < sb_size (dsb d) \<and> baddr d x bn \<noteq> i_addrs x NDIRECT) \<and>
     (i_addrs x NDIRECT \<noteq> 0 \<longrightarrow> data_block start d (i_addrs x NDIRECT) \<and> dused d (i_addrs x NDIRECT) \<and>
        i_addrs x NDIRECT < sb_size (dsb d)) \<and>
     (\<forall>bn < MAXFILE. \<forall>bn' < MAXFILE. baddr d x bn = baddr d x bn' \<and> baddr d x bn \<noteq> 0 \<longrightarrow> bn = bn')"

lemma data_block_nonzero: "data_block start d b \<Longrightarrow> b \<noteq> 0"
  by (auto simp: data_block_def)

text \<open>The contents \<open>e\<close> agree with \<open>d\<close> on the used data blocks other than \<open>z\<close>.\<close>

definition keeps_files :: "u32 \<Rightarrow> u32 \<Rightarrow> fsdisk \<Rightarrow> fsdisk \<Rightarrow> bool" where
  "keeps_files start z d e \<longleftrightarrow> dsb e = dsb d \<and>
     (\<forall>b. data_block start d b \<and> dused d b \<and> b < sb_size (dsb d) \<and> b \<noteq> z \<longrightarrow> e b = d b) \<and>
     (\<forall>b. b < sb_size (dsb d) \<and> dused d b \<longrightarrow> dused e b) \<and> (\<forall>i < sb_ninodes (dsb d). e (IBLOCK i) = d (IBLOCK i))"

lemma keeps_refl [simp, intro]: "keeps_files start z d d"
  by (simp add: keeps_files_def)

lemma keeps_trans: "keeps_files start z d e \<Longrightarrow> keeps_files start z e f \<Longrightarrow> keeps_files start z d f"
proof -
  assume a: "keeps_files start z d e" "keeps_files start z e f"
  have "bblock e = bblock d" "data_block start e = data_block start d"
    using a(1) by (auto simp: keeps_files_def bblock_def data_block_def last_meta_def fun_eq_iff)
  with a show ?thesis unfolding keeps_files_def by metis
qed

lemma balloc_keeps:
  assumes inv: "log_inv s" and g: "fs_geo (log_start s) (hview s)" and ba: "balloc dv s = Inr (a, t)"
  shows "keeps_files (log_start s) z (hview s) (hview t)"
proof -
  let ?d = "hview s"
  note b = balloc_step [OF inv g ba]
  have bm: "bblock ?d a \<le> last_meta ?d" using bblock_le [OF g b(7)] by simp
  have "hview t c = ?d c" if "last_meta ?d < c" "c \<noteq> a" for c
    using that bm by (auto simp: b(4) set_used_def)
  moreover have "hview t (IBLOCK i) = ?d (IBLOCK i)" if "i < sb_ninodes (dsb ?d)" for i
  proof -
    have "IBLOCK i \<noteq> a" using inode_block(4) [OF g that] b(6) by (auto simp: data_block_def)
    moreover have "IBLOCK i \<noteq> bblock ?d a" using inode_block(2) [OF g that, of a] by metis
    ultimately show ?thesis by (simp add: b(4) set_used_def)
  qed
  ultimately show ?thesis using b(5,9,10) by (auto simp: keeps_files_def data_block_def)
qed

lemma keeps_file_ok:
  assumes k: "keeps_files start z d e" and f: "file_ok start d x" and z: "z = 0 \<or> \<not> dused d z"
  shows "file_ok start e x" "baddr e x bn = baddr d x bn"
proof -
  have s: "dsb e = dsb d" "data_block start e = data_block start d"
    using k by (auto simp: keeps_files_def bblock_def data_block_def last_meta_def fun_eq_iff)
  have ind: "e (i_addrs x NDIRECT) = d (i_addrs x NDIRECT)" if "i_addrs x NDIRECT \<noteq> 0"
    using that k f z by (auto simp: keeps_files_def file_ok_def)
  then show b: "baddr e x bn = baddr d x bn" for bn by (simp add: baddr_def)
  show "file_ok start e x" using f k unfolding file_ok_def b s keeps_files_def by auto
qed

text \<open>Adding a fresh block to the map of an inode.\<close>

lemma file_ok_extend:
  assumes f: "file_ok start d x" and bn: "bn < MAXFILE"
    and b: "\<And>n. n < MAXFILE \<Longrightarrow> baddr e y n = (if n = bn then a else baddr d x n)"
    and ind: "i_addrs y NDIRECT = i_addrs x NDIRECT"
    and s: "dsb e = dsb d" and u: "\<And>c. c < sb_size (dsb d) \<Longrightarrow> dused e c \<longleftrightarrow> dused d c \<or> c = a"
    and fresh: "\<not> dused d a" "data_block start d a" "a < sb_size (dsb d)"
  shows "file_ok start e y"
proof -
  have db: "data_block start e = data_block start d"
    using s by (simp add: data_block_def last_meta_def bblock_def fun_eq_iff)
  have ne: "baddr d x n \<noteq> a" if "n < MAXFILE" for n
    using f fresh that data_block_nonzero [OF fresh(2)] by (auto simp: file_ok_def)
  have "i_addrs x NDIRECT \<noteq> a" using f fresh data_block_nonzero [OF fresh(2)] by (auto simp: file_ok_def)
  then show ?thesis
    using f bn fresh ne unfolding file_ok_def db s ind
    by (auto simp: b u)
qed

lemma file_ok_indirect:
  assumes f: "file_ok start d x" and z: "i_addrs x NDIRECT = 0"
    and y: "y = x\<lparr>i_addrs := (i_addrs x)(NDIRECT := a)\<rparr>" and e: "e a = (\<lambda>_. 0)"
    and s: "dsb e = dsb d" and u: "\<And>c. c < sb_size (dsb d) \<Longrightarrow> dused e c \<longleftrightarrow> dused d c \<or> c = a"
    and fresh: "\<not> dused d a" "data_block start d a" "a < sb_size (dsb d)"
  shows "file_ok start e y" "baddr e y bn = baddr d x bn"
proof -
  have db: "data_block start e = data_block start d"
    using s by (simp add: data_block_def last_meta_def bblock_def fun_eq_iff)
  show b: "baddr e y bn = baddr d x bn" for bn by (simp add: baddr_def y z e)
  have ia: "i_addrs y NDIRECT = a" by (simp add: y)
  have "baddr d x n \<noteq> a" if "n < MAXFILE" for n
    using f fresh that data_block_nonzero [OF fresh(2)] by (auto simp: file_ok_def)
  then show "file_ok start e y"
    using f fresh u unfolding file_ok_def db s b ia by auto
qed

text \<open>What \<open>bmap\<close> promises about block \<open>bn\<close> of inode \<open>ip\<close>.\<close>

definition bmap_post :: "nat \<Rightarrow> nat \<Rightarrow> 'a fs_state_scheme \<Rightarrow> u32 \<Rightarrow> 'a fs_state_scheme \<Rightarrow> bool" where
  "bmap_post ip bn s a t \<longleftrightarrow>
     txrun s t \<and> log_start t = log_start s \<and> fs_geo (log_start s) (hview t) \<and>
     (\<exists>A. inodes t = (inodes s)(ip := (inodes s ip)\<lparr>i_addrs := A\<rparr>)) \<and>
     file_ok (log_start s) (hview t) (inodes t ip) \<and>
     bn < MAXFILE \<and> a \<noteq> 0 \<and> baddr (hview t) (inodes t ip) bn = a \<and>
     (\<forall>n<MAXFILE. n \<noteq> bn \<longrightarrow> baddr (hview t) (inodes t ip) n = baddr (hview s) (inodes s ip) n) \<and>
     keeps_files (log_start s) (i_addrs (inodes s ip) NDIRECT) (hview s) (hview t) \<and>
     (i_addrs (inodes t ip) NDIRECT = i_addrs (inodes s ip) NDIRECT \<or>
        i_addrs (inodes s ip) NDIRECT = 0 \<and> \<not> dused (hview s) (i_addrs (inodes t ip) NDIRECT)) \<and>
     (if baddr (hview s) (inodes s ip) bn = 0 then \<not> dused (hview s) a \<and> hview t a = (\<lambda>_. 0)
      else hview t = hview s \<and> inodes t = inodes s)"

lemma keeps_weaken: "keeps_files start 0 d e \<Longrightarrow> keeps_files start z d e"
  unfolding keeps_files_def data_block_def by auto

lemma bmap_direct:
  assumes inv: "log_inv s" and g: "fs_geo (log_start s) (hview s)" and f: "file_ok (log_start s) (hview s) (inodes s ip)"
    and i: "i < NDIRECT" and sl: "addr_slot ip i s = Inr (a, t)"
  shows "bmap_post ip i s a t"
proof (cases "i_addrs (inodes s ip) i = 0")
  case False
  then have "t = s" "a = i_addrs (inodes s ip) i" using sl by (auto simp: addr_slot_def Let_def)
  with False i g f show ?thesis
    by (auto simp: bmap_post_def baddr_def MAXFILE_def intro!: exI [of _ "i_addrs (inodes s ip)"])
next
  case True
  with sl obtain u where ba: "balloc (i_dev (inodes s ip)) s = Inr (a, u)" and t: "t = set_addr ip i a u"
    by (auto simp: addr_slot_def Let_def kbind_returns)
  note b = balloc_step [OF inv g ba] and k = balloc_keeps [OF inv g ba]
  have iu: "inodes u = inodes s" by (rule lframe_inodes [OF b(3)])
  let ?y = "(inodes s ip)\<lparr>i_addrs := (i_addrs (inodes s ip))(i := a)\<rparr>"
  have it: "inodes t = (inodes s)(ip := ?y)" by (simp add: t set_addr_def iu)
  have ind: "i_addrs ?y NDIRECT = i_addrs (inodes s ip) NDIRECT" using i by simp
  have bb: "baddr (hview u) ?y n = (if n = i then a else baddr (hview s) (inodes s ip) n)" for n
    using i keeps_file_ok(2) [OF k f, of 0 n] by (auto simp: baddr_def)
  have "file_ok (log_start s) (hview u) ?y"
    by (rule file_ok_extend [OF f _ bb ind b(9,10,5-7)]) (use i in \<open>simp_all add: MAXFILE_def\<close>)
  moreover have "txrun s t" unfolding t set_addr_def by (rule txrun_trans [OF b(2)]) simp
  moreover have "hview u a = (\<lambda>_. 0)" by (simp add: b(4))
  moreover have "a \<noteq> 0" by (rule data_block_nonzero [OF b(6)])
  ultimately show ?thesis
    using True i b(5,8) k bb lframe_same(1) [OF b(3)] it
    by (auto simp: bmap_post_def t set_addr_def baddr_def MAXFILE_def)
qed

text \<open>A block that is locked, worked on and released while other steps run.\<close>

lemma locked_run:
  assumes inv: "log_inv s" and x: "x < log_start s" and br: "bread dv x s = Inr (b, u)"
    and st: "tstep\<^sup>*\<^sup>* u v" "lockset v = lockset u" "owns v b x" "saved v b x"
    and ow: "\<And>c y. owns u c y \<Longrightarrow> c \<noteq> b \<Longrightarrow> owns v c y \<and> b_data (bufs v c) = b_data (bufs u c)"
    and rel: "brelse b v = Inr t"
  shows "txrun s t" "hview t = hview v" "lframe v t" "log_inv t"
proof -
  note r = bread_step [OF inv x br]
  have invv: "log_inv v" by (rule steps_inv [OF st(1) r(3)])
  note e = brelse_step [OF invv st(3,4) rel]
  show "hview t = hview v" "lframe v t" "log_inv t" using e by auto
  have "owns t c y \<and> b_data (bufs t c) = b_data (bufs s c)" if "owns s c y" for c y
    using r(11) [OF that] ow [of c y] e(6,7) by simp
  moreover have "tstep\<^sup>*\<^sup>* s t" using r(2) st(1) e(1)
    by (meson converse_rtranclp_into_rtranclp r_into_rtranclp rtranclp_trans)
  ultimately show "txrun s t" using r(5,6) st(2) e(4) by (auto simp: txrun_def)
qed

lemma get32_put32_slot: "get32 (put32 (4 * k) w d) (4 * j) = (if j = k then w else get32 d (4 * j))"
  by (cases j k rule: linorder_cases) (auto intro: get32_put32_other)

lemma bmap_indirect_new:
  assumes inv: "log_inv s" and g: "fs_geo (log_start s) (hview s)" and f: "file_ok (log_start s) (hview s) (inodes s ip)"
    and z: "z = i_addrs (inodes s ip) NDIRECT" "z \<noteq> 0" and k: "k < NINDIRECT"
    and br: "bread dv z s = Inr (bp, u)" and zero: "get32 (b_data (bufs u bp)) (4 * k) = 0"
    and ba: "balloc dv' u = Inr (a, v)" and lw: "log_write bp (upd_data bp (put32 (4 * k) a) v) = Inr w"
    and rel: "brelse bp w = Inr t"
  shows "bmap_post ip (NDIRECT + k) s a t"
proof -
  let ?d = "hview s"
  have zb: "data_block (log_start s) ?d z" "dused ?d z" "z < sb_size (dsb ?d)" using f z by (auto simp: file_ok_def)
  then have zl: "z < log_start s" by (simp add: data_block_def)
  note r = bread_step [OF inv zl br]
  have gu: "fs_geo (log_start u) (hview u)" using g r(4) lframe_same(1) [OF r(10)] by simp
  note b = balloc_step [OF r(3) gu ba] and kp = balloc_keeps [OF r(3) gu ba, of 0]
  have su: "log_start u = log_start s" "log_start v = log_start s" using lframe_same(1) r(10) b(3) by metis+
  have ov: "owns v bp z" and invv: "log_inv v" using b(2) r(3,7) txrun_inv by (auto simp: txrun_def)
  note w = log_write_step [OF invv ov lw]
  have za: "z \<noteq> a" using b(5) zb(2) r(4) by auto
  have hz: "hview v z = ?d z"
    using kp zb za r(4) z(2) by (auto simp: keeps_files_def su)
  have st: "tstep\<^sup>*\<^sup>* u w" using b(2) w(1) by (auto simp: txrun_def)
  have lk: "lockset w = lockset u" using b(2) w(4) by (simp add: txrun_def)
  have ow: "owns w c y \<and> b_data (bufs w c) = b_data (bufs u c)" if "owns u c y" "c \<noteq> bp" for c y
  proof -
    have "owns v c y" "b_data (bufs v c) = b_data (bufs u c)" using b(2) that(1) by (auto simp: txrun_def)
    with w(6,7) [of c y] that(2) show ?thesis by simp
  qed
  note l = locked_run [OF inv zl br st lk w(6) [OF ov] w(8) ow rel]
  have ht: "hview t = (hview v)(z := put32 (4 * k) a (?d z))" using l(2) w(3) hz by simp
  have it: "inodes t = inodes s"
    using lframe_inodes [OF l(3)] lframe_inodes [OF w(5)] lframe_inodes [OF b(3)] lframe_inodes [OF r(10)] by simp
  have st': "log_start t = log_start s" using lframe_same(1) [OF l(3)] lframe_same(1) [OF w(5)] su by simp
  have g': "fs_geo (log_start s) (hview v)" using b(8) su by simp
  have db: "data_block (log_start s) (hview v) z"
    using zb(1) b(9) r(4) by (simp add: data_block_def last_meta_def bblock_def)
  note up = upd_data_block [OF g' db, where v = "put32 (4 * k) a (?d z)", folded ht]
  have zero': "get32 (?d z) (4 * k) = 0" using zero r(8) by simp
  have bb: "baddr (hview t) (inodes s ip) n = (if n = NDIRECT + k then a else baddr ?d (inodes s ip) n)" for n
    using z by (auto simp: baddr_def ht get32_put32_slot)
  have "file_ok (log_start s) (hview t) (inodes s ip)"
    by (rule file_ok_extend [OF f _ bb refl])
      (use k up b r(4) su in \<open>simp_all add: MAXFILE_def\<close>)
  moreover have "hview t a = (\<lambda>_. 0)" using za by (simp add: ht b(4))
  moreover have "IBLOCK i \<noteq> z" if "i < sb_ninodes (dsb ?d)" for i
    using inode_block(4) [OF g that] zb(1) by (auto simp: data_block_def)
  then have "keeps_files (log_start s) z ?d (hview t)"
    using kp r(4) up(1,5) b(9,10) unfolding keeps_files_def by (auto simp: su ht dest: data_block_nonzero)
  moreover have "baddr ?d (inodes s ip) (NDIRECT + k) = 0" using z zero' by (simp add: baddr_def)
  ultimately show ?thesis
    using l(1) st' up(6) k b(5) r(4) data_block_nonzero [OF b(6)] bb z
    by (auto simp: bmap_post_def it MAXFILE_def intro!: exI [of _ "i_addrs (inodes s ip)"])
qed

lemma bmap_indirect_old:
  assumes inv: "log_inv s" and g: "fs_geo (log_start s) (hview s)" and f: "file_ok (log_start s) (hview s) (inodes s ip)"
    and z: "z = i_addrs (inodes s ip) NDIRECT" "z \<noteq> 0" and k: "k < NINDIRECT"
    and br: "bread dv z s = Inr (bp, u)" and a: "a = get32 (b_data (bufs u bp)) (4 * k)" "a \<noteq> 0"
    and rel: "brelse bp u = Inr t"
  shows "bmap_post ip (NDIRECT + k) s a t"
proof -
  have zl: "z < log_start s" using f z by (auto simp: file_ok_def data_block_def)
  note r = read_release [OF inv zl br rel]
  have "inodes t = inodes s" "log_start t = log_start s" by (rule lframe_inodes [OF r(4)]) (rule lframe_same(1) [OF r(4)])
  then show ?thesis
    using r g f k a z by (auto simp: bmap_post_def baddr_def MAXFILE_def intro!: exI [of _ "i_addrs (inodes s ip)"])
qed

lemma bmap_post_before:
  assumes inv: "log_inv s" and g: "fs_geo (log_start s) (hview s)" and f: "file_ok (log_start s) (hview s) (inodes s ip)"
    and z: "i_addrs (inodes s ip) NDIRECT = 0" and ba: "balloc dv s = Inr (a0, u)"
    and u': "u' = set_addr ip NDIRECT a0 u" and p: "bmap_post ip bn u' a t" and bn: "NDIRECT \<le> bn"
  shows "bmap_post ip bn s a t"
proof -
  let ?d = "hview s" and ?x = "inodes s ip"
  note b = balloc_step [OF inv g ba] and k = balloc_keeps [OF inv g ba, of 0]
  have iu: "inodes u' = (inodes s)(ip := ?x\<lparr>i_addrs := (i_addrs ?x)(NDIRECT := a0)\<rparr>)"
    using lframe_inodes [OF b(3)] by (simp add: u' set_addr_def)
  have hu: "hview u' = hview u" "log_start u' = log_start s"
    using lframe_same(1) [OF b(3)] by (simp_all add: u' set_addr_def)
  have "txrun s u'" unfolding u' set_addr_def by (rule txrun_trans [OF b(2)]) simp
  with p have tx: "txrun s t" by (auto simp: bmap_post_def intro: txrun_trans)
  have ba0: "hview u a0 = (\<lambda>_. 0)" by (simp add: b(4))
  note fi = file_ok_indirect [OF f z refl ba0 b(9,10,5-7)]
  have bb: "baddr (hview u') (inodes u' ip) n = baddr ?d ?x n" for n
    using fi(2) [of n] by (simp add: iu hu)
  have ku: "keeps_files (log_start s) a0 (hview u) (hview t)" using p by (simp add: bmap_post_def iu hu)
  have db: "data_block (log_start s) (hview u) = data_block (log_start s) ?d"
    using b(9) by (simp add: data_block_def last_meta_def bblock_def fun_eq_iff)
  have kt: "keeps_files (log_start s) 0 ?d (hview t)"
    using k ku b(5) unfolding keeps_files_def db by (metis b(9))
  have bn0: "baddr ?d ?x bn = 0" using bn z by (simp add: baddr_def)
  have un: "\<not> dused (hview u) a" "hview t a = (\<lambda>_. 0)" using p bb bn0 by (auto simp: bmap_post_def hu)
  have dt: "dsb (hview t) = dsb ?d" using kt by (simp add: keeps_files_def)
  have "file_ok (log_start s) (hview t) (inodes t ip)" "bn < MAXFILE" "a \<noteq> 0" "baddr (hview t) (inodes t ip) bn = a"
    using p hu(2) by (simp_all add: bmap_post_def)
  then have "a < sb_size (dsb ?d)" unfolding file_ok_def dt by metis
  then have "\<not> dused ?d a" using un(1) b(10) by blast
  then show ?thesis using p tx kt bb bn0 un(2) z b(5) data_block_nonzero [OF b(6)] by (auto simp: bmap_post_def hu iu)
qed

lemma bmap_step:
  assumes inv: "log_inv s" and g: "fs_geo (log_start s) (hview s)" and f: "file_ok (log_start s) (hview s) (inodes s ip)"
    and bm: "bmap ip bn s = Inr (a, t)"
  shows "bmap_post ip (unat bn) s a t"
proof (cases "unat bn < NDIRECT")
  case True
  with bm bmap_direct [OF inv g f] show ?thesis by (simp add: bmap_def)
next
  case False
  let ?k = "unat bn - NDIRECT"
  have bn: "NDIRECT + ?k = unat bn" using False by simp
  from bm False obtain z s1 bp u v where k: "?k < NINDIRECT" and sl: "addr_slot ip NDIRECT s = Inr (z, s1)"
    and br: "bread (i_dev (inodes s1 ip)) z s1 = Inr (bp, u)"
    and md: "indirect_slot ip bp ?k u = Inr (a, v)"
    and rel: "brelse bp v = Inr t"
    by (auto simp: bmap_def Let_def kbind_returns split: if_splits)
  have via: "bmap_post ip (unat bn) s1 a t"
    if "log_inv s1" "fs_geo (log_start s1) (hview s1)" "file_ok (log_start s1) (hview s1) (inodes s1 ip)"
      "z = i_addrs (inodes s1 ip) NDIRECT" "z \<noteq> 0"
  proof (cases "get32 (b_data (bufs u bp)) (4 * ?k) = 0")
    case True
    with md obtain w where "balloc (i_dev (inodes u ip)) u = Inr (a, w)"
      "log_write bp (upd_data bp (put32 (4 * ?k) a) w) = Inr v"
      by (auto simp: kbind_returns indirect_slot_def)
    from bmap_indirect_new [OF that k br True this rel] show ?thesis by (simp add: bn)
  next
    case False
    with md have "a = get32 (b_data (bufs u bp)) (4 * ?k)" "a \<noteq> 0" "v = u" by (auto simp: indirect_slot_def)
    from bmap_indirect_old [OF that k br this(1,2)] rel this(3) show ?thesis by (simp add: bn)
  qed
  show ?thesis
  proof (cases "i_addrs (inodes s ip) NDIRECT = 0")
    case False
    then have "s1 = s" "z = i_addrs (inodes s ip) NDIRECT" using sl by (auto simp: addr_slot_def Let_def)
    with via False inv g f show ?thesis by simp
  next
    case True
    with sl obtain w where ba: "balloc (i_dev (inodes s ip)) s = Inr (z, w)" and s1: "s1 = set_addr ip NDIRECT z w"
      by (auto simp: addr_slot_def Let_def kbind_returns)
    note b = balloc_step [OF inv g ba]
    have "hview w z = (\<lambda>_. 0)" by (simp add: b(4))
    note fi = file_ok_indirect [OF f True refl this b(9,10,5-7)]
    have "bmap_post ip (unat bn) s1 a t"
      by (rule via)
        (use txrun_inv [OF b(2) inv] b(8) fi(1) lframe_same(1) [OF b(3)] lframe_inodes [OF b(3)] data_block_nonzero [OF b(6)]
         in \<open>simp_all add: s1 set_addr_def\<close>)
    from bmap_post_before [OF inv g f True ba s1 this] False show ?thesis by simp
  qed
qed

end
