(* ===== verification/Console.thy ===== *)
theory Console
  imports Inode "HOL-Library.Signed_Division"
begin

text \<open>
  The output half of the console (console.c), the serial port it echoes to (uart.c) and the device
  functions of the console. The screen is the array of cells at \<open>crt\<close>, by position; a position
  outside the screen stands for the memory around it. The cursor position lives in two byte
  registers of the controller. Text goes to the serial port as a list of bytes. \<open>C_Key\<close> and the other
  strings stand without their terminating zero.
\<close>

section \<open>Data\<close>

definition BACKSPACE :: int where "BACKSPACE = 0x100"
definition TAB :: int where "TAB = 9"
definition UPARROW :: int where "UPARROW = 226"
definition DOWNARROW :: int where "DOWNARROW = 227"
definition LEFTARROW :: int where "LEFTARROW = 228"
definition RIGHTARROW :: int where "RIGHTARROW = 229"
definition INPUT_BUF :: nat where "INPUT_BUF = 128"
definition COMMAND_BUF :: nat where "COMMAND_BUF = 128"
definition CONSOLE :: nat where "CONSOLE = 1"

type_synonym cstring = "u8 list"     \<comment> \<open>a string without its terminating zero\<close>

definition bytes :: "string \<Rightarrow> cstring" where "bytes s = map (\<lambda>c. of_nat (of_char c)) s"

definition C_Key :: "cstring list" where
  "C_Key = map bytes [''int'', ''int*'', ''double'', ''double*'', ''char'', ''char*'', ''bool'', ''for'', ''while'',
     ''if'', ''return'', ''static'', ''void'', ''do'', ''else'', ''switch'', ''case'', ''break'', ''continue'',
     ''#define'', ''default'']"

record commandLine =
  cl_buf :: "nat \<Rightarrow> u8"
  cl_next :: nat
  cl_pre :: nat

text \<open>A function pointer in \<open>devsw\<close> can only be that of the console.\<close>

datatype devops = DevConsole

record cons_state = fs_state +
  devsw :: "nat \<Rightarrow> devops option"
  cons_locking :: bool
  panicked :: bool
  uart :: bool                         \<comment> \<open>is there a serial port\<close>
  uart_out :: "u8 list"                \<comment> \<open>the bytes sent to it\<close>
  crt :: "int \<Rightarrow> u16"
  cursor :: int
  lastblank :: int
  hlighttype :: int
  isConsole :: int
  inputPos :: int
  lastpos :: int
  edit_mode :: bool
  esc_mode :: bool
  gameInput :: int
  gameGet :: bool
  in_buf :: "nat \<Rightarrow> u8"               \<comment> \<open>\<open>input\<close>\<close>
  in_r :: u32
  in_w :: u32
  in_e :: u32
  cmd_init :: bool                     \<comment> \<open>\<open>init\<close> and \<open>first\<close>, and \<open>command\<close>\<close>
  cmd_first :: bool
  cmd_lines :: "nat \<Rightarrow> commandLine"
  cmd_head :: nat
  cmd_tail :: nat
  cmd_current :: nat
  cmd_size :: u32

abbreviation cell :: "'a cons_state_scheme \<Rightarrow> int \<Rightarrow> int" where
  "cell s i \<equiv> uint (crt s i)"

definition set_cell :: "int \<Rightarrow> int \<Rightarrow> 'a cons_state_scheme \<Rightarrow> 'a cons_state_scheme" where
  "set_cell i v s = s\<lparr>crt := (crt s)(i := of_int v)\<rparr>"

text \<open>A character in white on black, and in the colour of a keyword.\<close>

definition white :: "int \<Rightarrow> int" where "white c = or (and c 0xff) 0x0700"

definition paint :: "int \<Rightarrow> int \<Rightarrow> int \<Rightarrow> 'a cons_state_scheme \<Rightarrow> 'a cons_state_scheme" where
  "paint colour a b s = s\<lparr>crt := (\<lambda>i. if a \<le> i \<and> i < b then of_int (or (cell s i mod 256) colour) else crt s i)\<rparr>"

definition set_cursor :: "int \<Rightarrow> 'a cons_state_scheme \<Rightarrow> 'a cons_state_scheme" where
  "set_cursor pos s = s\<lparr>cursor := pos mod 65536\<rparr>"

section \<open>uart.c\<close>

definition uartputc :: "int \<Rightarrow> 'a cons_state_scheme \<Rightarrow> 'a cons_state_scheme" where
  "uartputc c s = (if uart s then s\<lparr>uart_out := uart_out s @ [of_int c]\<rparr> else s)"

section \<open>The screen\<close>

definition scroll_up :: "int \<Rightarrow> 'a cons_state_scheme \<Rightarrow> (int \<times> 'a cons_state_scheme) kres" where
  "scroll_up pos s =
     (if pos sdiv 80 \<ge> 24 then
        let s = s\<lparr>crt := (\<lambda>i. if 0 \<le> i \<and> i < 23 * 80 then crt s (i + 80) else crt s i)\<rparr>;
            pos = pos - 80
        in if pos > 24 * 80 then Inl (Overrun ''crt'')
           else Inr (pos, s\<lparr>crt := (\<lambda>i. if pos \<le> i \<and> i < 24 * 80 then 0 else crt s i)\<rparr>)
      else Inr (pos, s))"

text \<open>A search over the cells in one direction; it is an overrun when it passes 65536 cells.\<close>

fun scan_cells :: "nat \<Rightarrow> int \<Rightarrow> (int \<Rightarrow> bool) \<Rightarrow> int \<Rightarrow> int kres" where
  "scan_cells 0 d P pos = Inl (Overrun ''crt'')"
| "scan_cells (Suc k) d P pos = (if P pos then scan_cells k d P (pos + d) else Inr pos)"

abbreviation scan_crt :: "int \<Rightarrow> (int \<Rightarrow> bool) \<Rightarrow> int \<Rightarrow> int kres" where
  "scan_crt \<equiv> scan_cells (2 ^ 16)"

fun key_from :: "cstring \<Rightarrow> int \<Rightarrow> int \<Rightarrow> 'a cons_state_scheme \<Rightarrow> bool" where
  "key_from [] i len s \<longleftrightarrow> \<not> i < len"
| "key_from (ch # str) i len s \<longleftrightarrow> i < len \<and> cell s (lastblank s + 1 + i) mod 256 = uint ch \<and> key_from str (i + 1) len s"

definition getkey :: "int \<Rightarrow> cstring \<Rightarrow> 'a cons_state_scheme \<Rightarrow> bool" where
  "getkey len str2 s = key_from str2 0 len s"

function back80 :: "int \<Rightarrow> int \<Rightarrow> int" where
  "back80 pos lb = (if pos < lb then back80 pos (lb - 80) else lb)"
  by auto
termination by (relation "measure (\<lambda>(pos, lb). nat (lb - pos))") auto

definition checkkey :: "int \<Rightarrow> 'a cons_state_scheme \<Rightarrow> bool \<times> 'a cons_state_scheme" where
  "checkkey pos s =
     (if lastblank s = -2 then (False, s\<lparr>lastblank := pos\<rparr>)
      else
        let s = s\<lparr>lastblank := back80 pos (lastblank s)\<rparr>
        in (\<exists>k\<in>set C_Key. getkey (pos - lastblank s - 1) k s, s))"

definition dkey :: "int \<Rightarrow> 'a cons_state_scheme \<Rightarrow> bool" where
  "dkey pos s \<longleftrightarrow> cell s (pos - 1) div 256 = 4"

definition cgaputc_h :: "int \<Rightarrow> 'a cons_state_scheme \<Rightarrow> 'a cons_state_scheme kres" where
  "cgaputc_h c s =
     (let pos = cursor s
      in kbind
        (if c = 10 then
           let (k, s) = checkkey pos s;
               s = (if k then paint 0x0400 (lastblank s + 1) pos s else s);
               pos = pos + (80 - pos smod 80)
           in Inr (pos, s\<lparr>lastblank := pos - 1\<rparr>)
         else if c = BACKSPACE then
           let pos = (if pos > 0 then pos - 1 else pos)
           in kbind (if dkey pos s then
                       kbind (scan_crt (-1) (\<lambda>i. cell s i div 256 = 4) (pos - 1)) (\<lambda>i.
                       Inr ((paint 0x0700 (i + 1) pos s)\<lparr>lastblank := i\<rparr>))
                     else Inr s) (\<lambda>s.
              kbind (if cell s pos mod 256 = 32 then
                       kbind (scan_crt (-1) (\<lambda>i. cell s i mod 256 \<noteq> 32) (pos - 2)) (\<lambda>i. Inr (s\<lparr>lastblank := i\<rparr>))
                     else Inr s) (\<lambda>s.
              Inr (pos, s)))
         else if c = 32 then
           let (k, s) = checkkey pos s;
               s = (if k then paint 0x0400 (lastblank s + 1) pos s else s);
               s = set_cell pos (white c) s;
               pos = pos + 1
           in Inr (pos, s\<lparr>lastblank := pos - 1\<rparr>)
         else Inr (pos + 1, set_cell pos (white c) s))
        (\<lambda>(pos, s).
           kbind (scroll_up pos s) (\<lambda>(pos, s).
           Inr (set_cell pos (white 32) (set_cursor pos s)))))"

text \<open>The part of \<open>cgaputc\<close> that depends on the key: the position, the move of the cursor and the state.\<close>

definition cgaputc_key :: "int \<Rightarrow> int \<Rightarrow> 'a cons_state_scheme \<Rightarrow> (int \<times> int \<times> 'a cons_state_scheme) kres" where
  "cgaputc_key c pos s =
     (if c = 10 then Inr (pos + (80 - pos smod 80), 0, s\<lparr>lastpos := pos\<rparr>)
      else if c = BACKSPACE then
        if isConsole s \<noteq> 0 then
          let s = (if inputPos s < 0 \<and> (pos - 1) smod 80 \<noteq> 0 then
                     let e = ((pos - 1) div 80 + 1) * 80
                     in s\<lparr>crt := (\<lambda>i. if pos - 1 \<le> i \<and> i < e then crt s (i + 1) else crt s i)\<rparr>
                   else s)
          in if pos > 0 then Inr (pos - 1, 0, s\<lparr>lastpos := pos\<rparr>) else Inr (pos, 0, s)
        else if pos smod 80 \<noteq> 0 then Inr (pos - 1, 0, s\<lparr>lastpos := pos\<rparr>)
        else kbind (scan_crt (-1) (\<lambda>i. cell s i mod 256 = 0) (pos - 1)) (\<lambda>p. Inr (p, 0, s\<lparr>lastpos := pos\<rparr>))
      else if c = LEFTARROW then
        if isConsole s \<noteq> 0 then Inr (pos, -1, s)
        else if pos > 0 then
          if pos smod 80 \<noteq> 0 then Inr (pos, -1, s)
          else kbind (scan_crt (-1) (\<lambda>i. cell s (i - 1) mod 256 = 0 \<or> cell s (i - 1) mod 256 = 10) (pos - 1))
                 (\<lambda>p. Inr (p, 0, s\<lparr>lastpos := pos\<rparr>))
        else Inr (pos, 0, s)
      else if c = RIGHTARROW then
        if isConsole s \<noteq> 0 then
          Inr (pos, (if cell s pos \<noteq> white 32 \<or> cell s (pos + 1) \<noteq> white 32 then 1 else 0), s)
        else if cell s pos \<noteq> white 0 \<and> cell s pos \<noteq> white 10 then Inr (pos, 1, s)
        else
          let nl = (pos sdiv 80 + 1) * 80
          in if cell s nl mod 256 \<noteq> 0 \<or> (cell s nl mod 256 = 0 \<and> cell s pos = white 10)
             then Inr (nl, 0, s\<lparr>lastpos := pos\<rparr>) else Inr (pos, 0, s)
      else if c = UPARROW then
        if pos \<ge> 80 then
          let s = s\<lparr>lastpos := pos\<rparr>; pos = pos - 80
          in if cell s pos mod 256 = 0 then
               kbind (scan_crt (-1) (\<lambda>i. cell s i mod 256 = 0 \<or> cell s i mod 256 = 10) pos) (\<lambda>p. Inr (p + 1, 0, s))
             else Inr (pos, 0, s)
        else Inr (pos, 0, s)
      else if c = DOWNARROW then
        let s = s\<lparr>lastpos := pos\<rparr>
        in if pos < 80 * 23 then
             kbind (if cell s (pos + 80) mod 256 = 0 then
                      kbind (scan_crt (-1) (\<lambda>i. cell s i mod 256 = 0 \<or> cell s i mod 256 = 10) (pos + 80)) (\<lambda>p. Inr (p + 1))
                    else Inr (pos + 80)) (\<lambda>p.
             Inr (if p sdiv 80 \<le> lastpos s sdiv 80 \<and> cell s p mod 256 = 10 then (p sdiv 80 + 1) * 80 else p, 0, s))
           else Inr (pos, 0, s)
      else
        let s = (if inputPos s < 0 then
                   s\<lparr>crt := (\<lambda>i. if pos + 1 \<le> i \<and> i \<le> pos - inputPos s then crt s (i - 1) else crt s i)\<rparr>
                 else s)
        in Inr (pos + 1, 0, set_cell pos (white c) s))"

text \<open>The first colon of the prompt on the line of \<open>pos\<close>, or \<open>pos\<close>.\<close>

definition prompt_end :: "int \<Rightarrow> 'a cons_state_scheme \<Rightarrow> int" where
  "prompt_end pos s =
     (case List.find (\<lambda>j. cell s j = white 58) [pos - pos smod 80 .. pos - 1] of Some j \<Rightarrow> j | None \<Rightarrow> pos)"

definition cgaputc :: "int \<Rightarrow> 'a cons_state_scheme \<Rightarrow> 'a cons_state_scheme kres" where
  "cgaputc c s =
     (let pos = cursor s
      in if c = UPARROW \<and> isConsole s \<noteq> 0 then Inr s
         else if c = DOWNARROW \<and> isConsole s \<noteq> 0 then Inr (s\<lparr>lastpos := pos\<rparr>)
         else
           kbind (cgaputc_key c pos s) (\<lambda>(pos, move, s).
           kbind (scroll_up pos s) (\<lambda>(pos, s).
             let go = (if isConsole s \<noteq> 0
                       then (pos + move - (prompt_end pos s - (pos - pos smod 80))) smod 80 \<noteq> 0
                       else pos + move \<ge> 0);
                 pos' = (if go then pos + move else pos);
                 s = (if go then s\<lparr>inputPos := inputPos s + move\<rparr> else s);
                 s = set_cursor pos' s
             in Inr (if inputPos s = 0 \<and> isConsole s \<noteq> 0 then set_cell pos' (white 32) s else s))))"

definition consputc :: "int \<Rightarrow> 'a cons_state_scheme \<Rightarrow> 'a cons_state_scheme kres" where
  "consputc c s =
     (if panicked s then Inl Diverge
      else
        let s = (if c = BACKSPACE then uartputc 8 (uartputc 32 (uartputc 8 s)) else uartputc c s)
        in if hlighttype s \<noteq> 0 then cgaputc_h c s else cgaputc c s)"

definition uartinit :: "bool \<Rightarrow> 'a cons_state_scheme \<Rightarrow> 'a cons_state_scheme" where
  "uartinit present s =
     (if present then fold (\<lambda>c. uartputc (uint c)) (bytes ''xv6...'' @ [10]) (s\<lparr>uart := True\<rparr>) else s)"

section \<open>Formatted output\<close>

definition digit_char :: "u32 \<Rightarrow> u8" where
  "digit_char d = bytes ''0123456789abcdef'' ! unat d"

text \<open>The digits of \<open>x\<close>, lowest first: the do-while loop divides until nothing is left.\<close>

function digits_of :: "u32 \<Rightarrow> u32 \<Rightarrow> u8 list" where
  "digits_of base x =
     digit_char (x mod base) # (if x div base = 0 \<or> base < 2 then [] else digits_of base (x div base))"
  by auto
termination
proof (relation "measure (\<lambda>(base, x). unat x)")
  fix base x :: u32 assume "\<not> (x div base = 0 \<or> base < 2)"
  then have "x \<noteq> 0" "1 < unat base" by (auto simp: word_less_nat_alt)
  then have "0 < unat x" "1 < unat base" by (simp_all add: unat_gt_0)
  then have "unat x div unat base < unat x" by (rule div_less_dividend [rotated])
  then show "((base, x div base), base, x) \<in> measure (\<lambda>(base, x). unat x)" by (simp add: unat_div_distrib)
qed simp

definition printint_chars :: "u32 \<Rightarrow> u32 \<Rightarrow> bool \<Rightarrow> u8 list" where
  "printint_chars xx base sign =
     (let neg = sign \<and> sint xx < 0;
          x = (if neg then - xx else xx)
      in (if neg then [45] else []) @ rev (digits_of base x))"

definition printint :: "u32 \<Rightarrow> u32 \<Rightarrow> bool \<Rightarrow> 'a cons_state_scheme \<Rightarrow> 'a cons_state_scheme kres" where
  "printint xx base sign s = kfold (\<lambda>c. consputc (uint c)) (printint_chars xx base sign) s"

text \<open>
  \<open>cprintf\<close> reads its arguments as words \<open>args\<close> from the stack; \<open>str p\<close> is the string at pointer \<open>p\<close>.
  A character of the format is masked to a byte, one of a \<open>%s\<close> string is sign extended.
\<close>

fun cprintf_chars :: "(u32 \<Rightarrow> cstring) \<Rightarrow> cstring \<Rightarrow> u32 list \<Rightarrow> int list" where
  "cprintf_chars str [] args = []"
| "cprintf_chars str (c # fmt) args =
     (if c \<noteq> 37 then uint c # cprintf_chars str fmt args
      else
        case fmt of
          [] \<Rightarrow> []
        | d # fmt \<Rightarrow>
            let a = (case args of [] \<Rightarrow> 0 | a # _ \<Rightarrow> a)
            in if d = 100 then map sint (printint_chars a 10 True) @ cprintf_chars str fmt (tl args)
               else if d = 120 \<or> d = 112 then map sint (printint_chars a 16 False) @ cprintf_chars str fmt (tl args)
               else if d = 115 then map sint (if a = 0 then bytes ''(null)'' else str a) @ cprintf_chars str fmt (tl args)
               else if d = 37 then 37 # cprintf_chars str fmt args
               else 37 # uint d # cprintf_chars str fmt args)"

definition cprintf :: "(u32 \<Rightarrow> cstring) \<Rightarrow> cstring option \<Rightarrow> u32 list \<Rightarrow> 'a cons_state_scheme \<Rightarrow> 'a cons_state_scheme kres" where
  "cprintf str fmt args s =
     (case fmt of None \<Rightarrow> Inl (Panic ''null fmt'') | Some f \<Rightarrow> kfold consputc (cprintf_chars str f args) s)"

section \<open>The console device\<close>

text \<open>
  The loop of \<open>consoleread\<close> for the \<open>n\<close> bytes it still wants: the bytes it delivers and \<open>n\<close> at the
  end. The process sleeps when the buffer is empty; the flag is the return of a killed process.
\<close>

fun consoleread_loop :: "nat \<Rightarrow> nat \<Rightarrow> u8 list \<Rightarrow> 'a cons_state_scheme \<Rightarrow> (bool \<times> u8 list \<times> 'a cons_state_scheme) kres" where
  "consoleread_loop target 0 acc s = Inr (False, acc, s)"
| "consoleread_loop target (Suc n) acc s =
     (if in_r s = in_w s then
        if (case cur s of None \<Rightarrow> False | Some p \<Rightarrow> killed (ptable s p)) then Inr (True, acc, s) else Inl (Sleep ChInput)
      else
        let c = in_buf s (unat (in_r s) mod INPUT_BUF);
            s = s\<lparr>in_r := in_r s + 1\<rparr>
        in if c = 4 then Inr (False, acc, if Suc n < target then s\<lparr>in_r := in_r s - 1\<rparr> else s)
           else if c = 10 then Inr (False, acc @ [c], s)
           else consoleread_loop target n (acc @ [c]) s)"

definition consoleread :: "nat \<Rightarrow> int \<Rightarrow> 'a cons_state_scheme \<Rightarrow> (int \<times> u8 list \<times> 'a cons_state_scheme) kres" where
  "consoleread ip n s =
     kbind (iunlock ip s) (\<lambda>s.
     kbind (consoleread_loop (nat n) (nat n) [] s) (\<lambda>(dead, bs, s).
     kbind (ilock ip s) (\<lambda>s.
     Inr (if dead then -1 else int (length bs), bs, s))))"

definition consolewrite :: "nat \<Rightarrow> block \<Rightarrow> int \<Rightarrow> 'a cons_state_scheme \<Rightarrow> (int \<times> 'a cons_state_scheme) kres" where
  "consolewrite ip src n s =
     kbind (iunlock ip s) (\<lambda>s.
     kbind (kfold (\<lambda>i. consputc (uint (src i))) [0..<nat n] s) (\<lambda>s.
     kbind (ilock ip s) (\<lambda>s.
     Inr (n, s))))"

definition consoleinit :: "'a cons_state_scheme \<Rightarrow> 'a cons_state_scheme" where
  "consoleinit s = s\<lparr>devsw := (devsw s)(CONSOLE := Some DevConsole), cons_locking := True\<rparr>"

section \<open>Direct access to the screen\<close>

definition getpos :: "'a cons_state_scheme \<Rightarrow> int" where "getpos s = cursor s"

definition clearscreen :: "'a cons_state_scheme \<Rightarrow> 'a cons_state_scheme" where
  "clearscreen s =
     (let s = s\<lparr>inputPos := 0, crt := (\<lambda>i. if 0 \<le> i \<and> i < 24 * 80 then 0x700 else crt s i)\<rparr>
      in set_cell 0 (white 32) (set_cursor 0 s))"

definition printat :: "int \<Rightarrow> int \<Rightarrow> int \<Rightarrow> 'a cons_state_scheme \<Rightarrow> 'a cons_state_scheme" where
  "printat x y word s =
     (let pos = 80 * y + x
      in set_cursor (pos + 1) (set_cell pos (or word 0x700) (s\<lparr>inputPos := 0\<rparr>)))"

definition setline :: "(nat \<Rightarrow> u8) \<Rightarrow> int \<Rightarrow> 'a cons_state_scheme \<Rightarrow> 'a cons_state_scheme" where
  "setline line nline s =
     (let a = (nline - 1) * 80
      in s\<lparr>crt := (\<lambda>i. if a \<le> i \<and> i < nline * 80 then of_int (or (sint (line (nat (i - a)))) 0x0700) else crt s i)\<rparr>)"

fun hlight_from :: "nat \<Rightarrow> int \<Rightarrow> 'a cons_state_scheme \<Rightarrow> 'a cons_state_scheme kres" where
  "hlight_from 0 pos s = Inl (Overrun ''crt'')"
| "hlight_from (Suc k) pos s =
     (if cell s pos mod 256 = 0 then Inr s
      else hlight_from k (pos + 1)
        (if cell s pos mod 256 = 32 \<or> cell s pos mod 256 = 10 then
           let (key, s) = checkkey pos s;
               s = (if key then paint 0x0400 (lastblank s + 1) pos s else s)
           in s\<lparr>lastblank := pos\<rparr>
         else s))"

definition updatehlight :: "int \<Rightarrow> 'a cons_state_scheme \<Rightarrow> 'a cons_state_scheme kres" where
  "updatehlight nline s =
     (let pos = (nline - 1) * 80 in hlight_from (2 ^ 16) pos (s\<lparr>lastblank := pos - 1\<rparr>))"

definition deletehlight :: "int \<Rightarrow> 'a cons_state_scheme \<Rightarrow> 'a cons_state_scheme" where
  "deletehlight nline s = (let pos = (nline - 1) * 80 in paint 0x0700 pos (pos + 80) s)"

section \<open>Numerals\<close>

declare digits_of.simps [simp del] back80.simps [simp del]

text \<open>The value of a digit character, and of a list of them with the lowest digit first.\<close>

definition char_digit :: "u8 \<Rightarrow> nat" where
  "char_digit c = (if c < 58 then unat c - 48 else unat c - 87)"

primrec numeral_value :: "nat \<Rightarrow> u8 list \<Rightarrow> nat" where
  "numeral_value base [] = 0"
| "numeral_value base (c # cs) = char_digit c + base * numeral_value base cs"

lemma char_digit_char:
  assumes "unat d < 16" shows "char_digit (digit_char d) = unat d"
proof -
  have "\<forall>k\<in>set [0..<16]. char_digit (bytes ''0123456789abcdef'' ! k) = k"
    by (simp add: char_digit_def bytes_def upt_rec)
  then show ?thesis using assms by (simp add: digit_char_def)
qed

lemma digit_small:
  assumes "2 \<le> unat base" "unat base \<le> 16" shows "unat (x mod base :: u32) < 16"
proof -
  have "unat x mod unat base < unat base" using assms by (intro mod_less_divisor) simp
  then have "unat x mod unat base < 16" using assms(2) by linarith
  then show ?thesis by (simp add: unat_mod_distrib)
qed

lemma numeral_digits:
  assumes "2 \<le> unat base" "unat base \<le> 16"
  shows "numeral_value (unat base) (digits_of base x) = unat x"
  using assms
proof (induction base x rule: digits_of.induct)
  case (1 base x)
  have d: "char_digit (digit_char (x mod base)) = unat x mod unat base"
    using char_digit_char [OF digit_small [OF 1(2,3)]] by (simp add: unat_mod_distrib)
  have b: "\<not> base < 2" using 1 by (simp add: word_less_nat_alt)
  show ?case
  proof (cases "x div base = 0")
    case True
    then have "unat x div unat base = 0" using unat_div_distrib [of x base] by simp
    then have "unat x mod unat base = unat x" using 1(2) by (auto simp: div_eq_0_iff)
    then show ?thesis using True d by (subst digits_of.simps) simp
  next
    case False
    then have "numeral_value (unat base) (digits_of base (x div base)) = unat x div unat base"
      using 1 b by (simp add: unat_div_distrib)
    then show ?thesis using False d b by (subst digits_of.simps) simp
  qed
qed

lemma length_digits:
  assumes "unat x < unat base ^ k" "0 < k" shows "length (digits_of base x) \<le> k"
  using assms
proof (induction base x arbitrary: k rule: digits_of.induct)
  case (1 base x)
  show ?case
  proof (cases "x div base = 0 \<or> base < 2")
    case True then show ?thesis using 1 by (subst digits_of.simps) auto
  next
    case False
    obtain j where k: "k = Suc j" using 1(3) by (cases k) auto
    have nz: "unat x div unat base \<noteq> 0" using False by (metis unat_div_distrib unat_eq_zero)
    have "unat x div unat base < unat base ^ j" using 1(2) k by (simp add: less_mult_imp_div_less mult.commute)
    moreover have "0 < j" using nz 1(2) k by (cases j) auto
    ultimately have "length (digits_of base (x div base)) \<le> j" using False 1(1) by (simp add: unat_div_distrib)
    then show ?thesis using False k by (subst digits_of.simps) auto
  qed
qed

lemma digits_not_minus:
  assumes "2 \<le> unat base" "unat base \<le> 16" shows "45 \<notin> set (digits_of base x)"
  using assms
proof (induction base x rule: digits_of.induct)
  case (1 base x)
  have "unat (x mod base) < 16" by (rule digit_small [OF 1(2,3)])
  moreover have "\<forall>k\<in>set [0..<16]. bytes ''0123456789abcdef'' ! k \<noteq> 45" by (simp add: bytes_def upt_rec)
  ultimately have "digit_char (x mod base) \<noteq> 45" by (simp add: digit_char_def)
  then show ?case using 1 by (subst digits_of.simps) auto
qed

text \<open>The signed reading of what \<open>printint\<close> prints.\<close>

definition printed_value :: "nat \<Rightarrow> u8 list \<Rightarrow> int" where
  "printed_value base cs =
     (case cs of [] \<Rightarrow> 0
      | c # r \<Rightarrow> if c = 45 then - int (numeral_value base (rev r)) else int (numeral_value base (rev cs)))"

lemma digits_nonempty [simp]: "digits_of base x \<noteq> []" by (subst digits_of.simps) simp

lemma printed_digits:
  assumes "2 \<le> unat base" "unat base \<le> 16"
  shows "printed_value (unat base) (rev (digits_of base x)) = uint x"
proof -
  obtain c r where e: "rev (digits_of base x) = c # r" by (cases "rev (digits_of base x)") auto
  then have "c \<in> set (digits_of base x)" by (metis list.set_intros(1) set_rev)
  then have "c \<noteq> 45" using digits_not_minus [OF assms] by auto
  moreover have "rev (c # r) = digits_of base x" using e by (metis rev_rev_ident)
  ultimately show ?thesis
    using numeral_digits [OF assms, of x] unfolding e by (simp add: printed_value_def)
qed

lemma sint_minus_u32:
  "sint (x :: u32) < 0 \<Longrightarrow> - uint (- x) = sint x" "\<not> sint x < 0 \<Longrightarrow> uint x = sint x"
proof -
  have s: "sint x = (uint x + 2 ^ 31) mod 2 ^ 32 - 2 ^ 31"
    by (simp add: sint_uint signed_take_bit_eq_take_bit_shift take_bit_eq_mod)
  have u: "0 \<le> uint x" "uint x < 2 ^ 32" using uint_lt2p [of x] by simp_all
  have m: "uint (- x) = (- uint x) mod 2 ^ 32" by (simp add: uint_word_ariths)
  have lo: "uint x < 2 ^ 31 \<Longrightarrow> sint x = uint x" using s u by simp
  have hi: "sint x = uint x - 2 ^ 32" if "\<not> uint x < 2 ^ 31"
  proof -
    have "uint x + 2 ^ 31 = (uint x - 2 ^ 31) + 2 ^ 32" by simp
    then have "(uint x + 2 ^ 31) mod 2 ^ 32 = (uint x - 2 ^ 31) mod 2 ^ 32" by (metis mod_add_self2)
    also have "\<dots> = uint x - 2 ^ 31" using that u by (intro mod_pos_pos_trivial) auto
    finally show ?thesis using s by simp
  qed
  show "- uint (- x) = sint x" if "sint x < 0"
  proof -
    have h: "\<not> uint x < 2 ^ 31" using that lo u by auto
    have "(- uint x) mod 2 ^ 32 = (- uint x + 2 ^ 32) mod 2 ^ 32" by (metis mod_add_self2)
    also have "\<dots> = (2 ^ 32 - uint x) mod 2 ^ 32" by (metis add.commute diff_conv_add_uminus)
    also have "\<dots> = 2 ^ 32 - uint x" using h u by (intro mod_pos_pos_trivial) auto
    finally show ?thesis using m hi [OF h] by simp
  qed
  show "\<not> sint x < 0 \<Longrightarrow> uint x = sint x" using lo hi u by fastforce
qed

text \<open>
  C25: \<open>printint\<close> is correct: the characters it prints in base 10 denote the signed value of its argument, the
  smallest negative number included, and in base 16 unsigned the unsigned value; it never stores more than
  11 characters in its buffer of 16.
\<close>

theorem printint_value:
  "printed_value 10 (printint_chars xx 10 True) = sint xx
   \<and> printed_value 16 (printint_chars xx 16 False) = uint xx
   \<and> length (printint_chars xx 10 True) \<le> 11 \<and> length (printint_chars xx 16 False) \<le> 11"
proof -
  have l: "unat x < unat (10 :: u32) ^ 10" "unat x < unat (16 :: u32) ^ 10" for x :: u32
    using unat_lt2p_u32 [of x] by auto
  have p: "printed_value 10 (rev (digits_of 10 x)) = uint x" for x :: u32
    using printed_digits [of 10 x] by simp
  have h: "printed_value 16 (rev (digits_of 16 x)) = uint x" for x :: u32
    using printed_digits [of 16 x] by simp
  have neg: "printed_value 10 (45 # rev (digits_of 10 x)) = - uint x" for x :: u32
    using numeral_digits [of 10 x] by (simp add: printed_value_def)
  show ?thesis
    using length_digits [OF l(1), of "xx"] length_digits [OF l(1), of "- xx"] length_digits [OF l(2), of xx]
    by (simp add: printint_chars_def Let_def p h neg sint_minus_u32)
qed

section \<open>Text on the screen\<close>

text \<open>The console shows the shell, the cursor is on the screen and at the end of the typed line.\<close>

definition on_screen :: "'a cons_state_scheme \<Rightarrow> bool" where
  "on_screen s \<longleftrightarrow> 0 \<le> cursor s \<and> cursor s < 24 * 80"

definition shell_mode :: "'a cons_state_scheme \<Rightarrow> bool" where
  "shell_mode s \<longleftrightarrow> \<not> panicked s \<and> isConsole s \<noteq> 0 \<and> hlighttype s = 0 \<and> inputPos s = 0 \<and> on_screen s"

definition text_char :: "int \<Rightarrow> bool" where
  "text_char c \<longleftrightarrow> c \<notin> {UPARROW, DOWNARROW, LEFTARROW, RIGHTARROW, BACKSPACE}"

text \<open>Only the cells of the screen, the cursor and \<open>lastpos\<close> change.\<close>

definition screen_only :: "'a cons_state_scheme \<Rightarrow> 'a cons_state_scheme \<Rightarrow> bool" where
  "screen_only s t \<longleftrightarrow> t = s\<lparr>crt := crt t, cursor := cursor t, lastpos := lastpos t\<rparr>
     \<and> (\<forall>i. i < 0 \<or> 24 * 80 \<le> i \<longrightarrow> crt t i = crt s i)"

lemma smod_nonneg: "0 \<le> (a :: int) \<Longrightarrow> a smod 80 = a mod 80" "0 \<le> a \<Longrightarrow> a sdiv 80 = a div 80"
  by (cases "a = 0"; simp add: signed_modulo_int_def signed_divide_int_def)+

lemma scroll_up_screen:
  assumes "0 \<le> pos" "pos \<le> 24 * 80"
  obtains pos' t where "scroll_up pos s = Inr (pos', t)" "0 \<le> pos'" "pos' < 24 * 80" "t = s\<lparr>crt := crt t\<rparr>"
    "\<forall>i. i < 0 \<or> 24 * 80 \<le> i \<longrightarrow> crt t i = crt s i"
proof (cases "pos = 24 * 80")
  case True
  show ?thesis
    by (rule that [of 1840 "s\<lparr>crt := (\<lambda>i. if 1840 \<le> i \<and> i < 24 * 80 then 0
           else if 0 \<le> i \<and> i < 23 * 80 then crt s (i + 80) else crt s i)\<rparr>"])
      (auto simp: True scroll_up_def smod_nonneg cong: if_cong)
next
  case False
  then show ?thesis using assms by (intro that [of pos s]) (auto simp: scroll_up_def smod_nonneg)
qed

lemma next_line_screen:
  assumes "0 \<le> (pos :: int)" "pos < 24 * 80" shows "pos + (80 - pos mod 80) \<le> 24 * 80"
proof -
  have "pos + (80 - pos mod 80) = 80 * (pos div 80 + 1)" using div_mult_mod_eq [of pos 80] by (simp add: algebra_simps)
  moreover have "pos div 80 \<le> 23" using assms by linarith
  ultimately show ?thesis by simp
qed

lemma cgaputc_key_text:
  assumes "shell_mode s" "text_char c \<or> c = BACKSPACE"
  obtains pos t where "cgaputc_key c (cursor s) s = Inr (pos, 0, t)" "0 \<le> pos" "pos \<le> 24 * 80"
    "screen_only s t" "cursor t = cursor s"
proof -
  have o: "0 \<le> cursor s" "cursor s < 24 * 80" "inputPos s = 0" "isConsole s \<noteq> 0"
    using assms(1) by (auto simp: shell_mode_def on_screen_def)
  consider "c = 10" | "c = BACKSPACE" | "c \<noteq> 10" "c \<noteq> BACKSPACE" by blast
  then show ?thesis
  proof cases
    case 1
    have "0 \<le> cursor s + (80 - cursor s mod 80)" using o(1) pos_mod_bound [of 80 "cursor s"] by linarith
    then show ?thesis using 1 o(1) next_line_screen [OF o(1,2)]
      by (intro that [of "cursor s + (80 - cursor s mod 80)" "s\<lparr>lastpos := cursor s\<rparr>"])
        (auto simp: cgaputc_key_def smod_nonneg screen_only_def)
  next
    case 2
    then show ?thesis using o
      by (intro that [of "if cursor s > 0 then cursor s - 1 else cursor s" "if cursor s > 0 then s\<lparr>lastpos := cursor s\<rparr> else s"])
        (auto simp: cgaputc_key_def BACKSPACE_def screen_only_def)
  next
    case 3
    then show ?thesis using o assms(2)
      by (intro that [of "cursor s + 1" "set_cell (cursor s) (white c) s"])
        (auto simp: cgaputc_key_def text_char_def screen_only_def set_cell_def)
  qed
qed

lemma cgaputc_text:
  assumes "shell_mode s" "text_char c \<or> c = BACKSPACE"
  obtains t where "cgaputc c s = Inr t" "screen_only s t" "on_screen t"
proof -
  obtain pos t where k: "cgaputc_key c (cursor s) s = Inr (pos, 0, t)" "0 \<le> pos" "pos \<le> 24 * 80" "screen_only s t"
    by (rule cgaputc_key_text [OF assms])
  obtain pos' u where u: "scroll_up pos t = Inr (pos', u)" "0 \<le> pos'" "pos' < 24 * 80" "u = t\<lparr>crt := crt u\<rparr>"
    "\<forall>i. i < 0 \<or> 24 * 80 \<le> i \<longrightarrow> crt u i = crt t i" by (rule scroll_up_screen [OF k(2,3)])
  obtain f a b l where t: "t = s\<lparr>crt := a, cursor := b, lastpos := l\<rparr>" and f: "u = t\<lparr>crt := f\<rparr>"
    using k(4) u(4) unfolding screen_only_def by blast
  have e: "isConsole u = isConsole s" "inputPos u = 0"
    using assms(1) by (simp_all add: t f shell_mode_def)
  have c: "c \<noteq> UPARROW" "c \<noteq> DOWNARROW" "isConsole s \<noteq> 0"
    using assms by (auto simp: text_char_def shell_mode_def BACKSPACE_def UPARROW_def DOWNARROW_def)
  let ?w = "set_cell pos' (white 32) (set_cursor pos' u)"
  have "cgaputc c s = Inr (set_cell pos' (white 32) (set_cursor pos' (u\<lparr>inputPos := 0\<rparr>)))
        \<or> cgaputc c s = Inr ?w"
    by (auto simp: cgaputc_def Let_def k(1) u(1) c e set_cursor_def)
  moreover have "u\<lparr>inputPos := 0\<rparr> = u" using e(2) by (cases u) simp
  ultimately have r: "cgaputc c s = Inr ?w" by auto
  show ?thesis
  proof (rule that [OF r])
    show "on_screen ?w" using u(2,3) by (simp add: on_screen_def set_cell_def set_cursor_def)
    show "screen_only s ?w"
      using u(2,3,5) k(4) by (auto simp: screen_only_def t f set_cell_def set_cursor_def)
  qed
qed

lemma uartputc_keeps [simp]:
  "crt (uartputc c s) = crt s" "cursor (uartputc c s) = cursor s" "shell_mode (uartputc c s) = shell_mode s"
  "uart (uartputc c s) = uart s" "uartputc c s\<lparr>uart_out := uart_out s\<rparr> = s"
  by (simp_all add: uartputc_def shell_mode_def on_screen_def)

text \<open>What a text does to the console: the screen changes, the serial port gets the text.\<close>

definition text_shown :: "u8 list \<Rightarrow> 'a cons_state_scheme \<Rightarrow> 'a cons_state_scheme \<Rightarrow> bool" where
  "text_shown cs s t \<longleftrightarrow> shell_mode t \<and> uart_out t = uart_out s @ (if uart s then cs else [])
     \<and> screen_only s (t\<lparr>uart_out := uart_out s\<rparr>)"

lemma screen_only_refl: "screen_only s s"
  by (simp add: screen_only_def)

lemma screen_only_trans:
  assumes "screen_only s t" "screen_only t u" shows "screen_only s u"
proof -
  obtain a b l a' b' l' where t: "t = s\<lparr>crt := a, cursor := b, lastpos := l\<rparr>"
    and u: "u = t\<lparr>crt := a', cursor := b', lastpos := l'\<rparr>"
    using assms unfolding screen_only_def by blast
  show ?thesis using assms by (simp add: screen_only_def t u)
qed

lemma screen_only_uart: "screen_only s t \<Longrightarrow> screen_only (s\<lparr>uart_out := o'\<rparr>) (t\<lparr>uart_out := o'\<rparr>)"
proof -
  assume a: "screen_only s t"
  then obtain a b l where "t = s\<lparr>crt := a, cursor := b, lastpos := l\<rparr>" unfolding screen_only_def by blast
  then show ?thesis using a by (simp add: screen_only_def)
qed

lemma screen_only_shell:
  assumes "screen_only s t" "shell_mode s" "on_screen t" shows "shell_mode t" "uart_out t = uart_out s" "uart t = uart s"
proof -
  obtain a b l where t: "t = s\<lparr>crt := a, cursor := b, lastpos := l\<rparr>" using assms unfolding screen_only_def by blast
  show "shell_mode t" "uart_out t = uart_out s" "uart t = uart s" using assms by (simp_all add: t shell_mode_def)
qed

lemma text_shown_refl: "shell_mode s \<Longrightarrow> text_shown [] s s"
  by (simp add: text_shown_def screen_only_refl)

lemma text_shown_uart:
  assumes "text_shown cs s t" shows "uart t = uart s"
proof -
  obtain a b l where e: "t\<lparr>uart_out := uart_out s\<rparr> = s\<lparr>crt := a, cursor := b, lastpos := l\<rparr>"
    using assms unfolding text_shown_def screen_only_def by blast
  show ?thesis using arg_cong [OF e, of uart] by simp
qed

lemma text_shown_trans:
  assumes "text_shown as s t" "text_shown bs t u" shows "text_shown (as @ bs) s u"
proof -
  have "screen_only (t\<lparr>uart_out := uart_out s\<rparr>) (u\<lparr>uart_out := uart_out t, uart_out := uart_out s\<rparr>)"
    using assms(2) by (intro screen_only_uart) (simp add: text_shown_def)
  then have "screen_only s (u\<lparr>uart_out := uart_out s\<rparr>)"
    using assms(1) by (auto simp: text_shown_def intro: screen_only_trans)
  then show ?thesis using assms text_shown_uart [OF assms(1)] by (auto simp: text_shown_def)
qed

lemma consputc_text:
  assumes "shell_mode s" "text_char c"
  obtains t where "consputc c s = Inr t" "text_shown [of_int c] s t"
proof -
  have m: "shell_mode (uartputc c s)" using assms(1) by simp
  obtain t where t: "cgaputc c (uartputc c s) = Inr t" "screen_only (uartputc c s) t" "on_screen t"
    using assms(2) by (auto intro: cgaputc_text [OF m])
  note k = screen_only_shell [OF t(2) m t(3)]
  have "consputc c s = Inr t"
    using assms t(1) by (auto simp: consputc_def text_char_def shell_mode_def uartputc_def split: if_splits)
  moreover have "text_shown [of_int c] s t"
    using k screen_only_uart [OF t(2), of "uart_out s"] by (auto simp: text_shown_def uartputc_def split: if_splits)
  ultimately show ?thesis by (rule that)
qed

lemma kfold_consputc:
  assumes "shell_mode s" "\<forall>c\<in>set cs. text_char c"
  obtains t where "kfold consputc cs s = Inr t" "text_shown (map of_int cs) s t"
  using assms
proof (induction cs arbitrary: s thesis)
  case Nil then show ?case using text_shown_refl by auto
next
  case (Cons c cs)
  obtain u where u: "consputc c s = Inr u" "text_shown [of_int c] s u"
    using Cons.prems(2,3) by (auto intro: consputc_text)
  obtain t where t: "kfold consputc cs u = Inr t" "text_shown (map of_int cs) u t"
    using Cons.IH [of u] u(2) Cons.prems(3) by (auto simp: text_shown_def)
  show ?case by (rule Cons.prems(1) [of t]) (use u t text_shown_trans [OF u(2) t(2)] in simp_all)
qed

lemma kfold_map: "kfold f (map g xs) s = kfold (\<lambda>x. f (g x)) xs s"
  by (induction xs arbitrary: s) (auto simp: kbind_def split: sum.splits)

text \<open>A console with a serial port, on a given file system.\<close>

definition ex_inode :: inode where
  "ex_inode = \<lparr>i_dev = 0, i_inum = 0, i_ref = 0, i_flags = 0, i_type = 0, i_major = 0, i_minor = 0, i_nlink = 0,
     i_size = 0, i_addrs = (\<lambda>_. 0)\<rparr>"

definition ex_fs :: "(u32 \<Rightarrow> block) \<Rightarrow> (nat \<Rightarrow> inode) \<Rightarrow> 'a \<Rightarrow> 'a fs_state_scheme" where
  "ex_fs d I m = ex_bio d (log_state_ext 1014 10 True 1 0 (\<lambda>_. 0) (fs_state_ext I m))"

lemma ex_fs_ok:
  assumes "head_n (d 1014) = 0"
  shows "log_inv (ex_fs d I m)" "lockset (ex_fs d I m) = {}" "log_busy (ex_fs d I m)" "lh_n (ex_fs d I m) = 0"
    "log_start (ex_fs d I m) = 1014" "log_size (ex_fs d I m) = 10" "inodes (ex_fs d I m) = I"
    "hview (ex_fs d I m) = (\<lambda>x. if x < 1014 then d x else (\<lambda>_. 0))" "fs_state.more (ex_fs d I m) = m"
proof -
  note e = ex_bio_ok [of d "log_state_ext 1014 10 True 1 0 (\<lambda>_. 0) (fs_state_ext I m)", folded ex_fs_def]
  show l: "lockset (ex_fs d I m) = {}" by (rule e(3))
  show f: "log_busy (ex_fs d I m)" "lh_n (ex_fs d I m) = 0" "log_start (ex_fs d I m) = 1014" "log_size (ex_fs d I m) = 10"
    "inodes (ex_fs d I m) = I" "fs_state.more (ex_fs d I m) = m"
    using e(8) by (cases "ex_fs d I m"; simp)+
  have dv: "log_dev (ex_fs d I m) = 1" using e(8) by (cases "ex_fs d I m") simp
  show "log_inv (ex_fs d I m)" using e f dv assms by (simp add: log_inv_def logged_def log_fits_def LOGSIZE_def)
  have "bview (ex_fs d I m) x = d x" for x using log_view [OF e(1), of x] e(2,3,6) by simp
  then show "hview (ex_fs d I m) = (\<lambda>x. if x < 1014 then d x else (\<lambda>_. 0))"
    by (simp add: hview_def f fun_eq_iff)
qed

definition ex_tail :: "'a \<Rightarrow> 'a cons_state_ext" where
  "ex_tail m = cons_state_ext (\<lambda>_. None) False False True [] (\<lambda>_. 0x700) 0 (-2) 0 1 0 0 False False
     5 True (\<lambda>_. 0) 0 0 0 False True (\<lambda>_. \<lparr>cl_buf = (\<lambda>_. 0), cl_next = 0, cl_pre = 0\<rparr>) 0 0 0 0 m"

definition ex_cons :: "(u32 \<Rightarrow> block) \<Rightarrow> (nat \<Rightarrow> inode) \<Rightarrow> 'a \<Rightarrow> 'a cons_state_scheme" where
  "ex_cons d I m = ex_fs d I (ex_tail m)"

lemma ex_cons_fields:
  assumes "head_n (d 1014) = 0"
  shows "uart (ex_cons d I m) = True" "uart_out (ex_cons d I m) = []" "panicked (ex_cons d I m) = False"
    "isConsole (ex_cons d I m) = 1" "hlighttype (ex_cons d I m) = 0" "inputPos (ex_cons d I m) = 0"
    "cursor (ex_cons d I m) = 0" "cons_state.more (ex_cons d I m) = m"
  using ex_fs_ok(9) [of d I "ex_tail m", OF assms, folded ex_cons_def]
  by (cases "ex_cons d I m" rule: fs_state.cases_scheme, simp only: fs_state.select_convs,
      simp only: cons_state.select_convs ex_tail_def)+

lemma ex_cons_shell: "head_n (d 1014) = 0 \<Longrightarrow> shell_mode (ex_cons d I m)"
  by (simp add: ex_cons_fields shell_mode_def on_screen_def)

text \<open>
  C24: \<open>cprintf\<close> at the shell prompt: for a format and arguments whose characters are text (no code of an arrow
  key) it returns, the text it stands for goes to the serial port, the cursor stays on the screen, no memory
  outside the 24 by 80 cells of the screen changes and no other variable of the console but \<open>lastpos\<close> does.
\<close>

theorem cprintf_shows_text:
  assumes "shell_mode s" "\<forall>c\<in>set (cprintf_chars str fmt args). text_char c"
  shows "\<exists>t. cprintf str (Some fmt) args s = Inr t
    \<and> uart_out t = uart_out s @ (if uart s then map of_int (cprintf_chars str fmt args) else [])
    \<and> 0 \<le> cursor t \<and> cursor t < 24 * 80 \<and> (\<forall>i. i < 0 \<or> 24 * 80 \<le> i \<longrightarrow> crt t i = crt s i)
    \<and> t\<lparr>uart_out := uart_out s, crt := crt s, cursor := cursor s, lastpos := lastpos s\<rparr> = s"
proof -
  obtain t where t: "kfold consputc (cprintf_chars str fmt args) s = Inr t"
    "text_shown (map of_int (cprintf_chars str fmt args)) s t"
    by (rule kfold_consputc [OF assms])
  obtain a b l where e: "t\<lparr>uart_out := uart_out s\<rparr> = s\<lparr>crt := a, cursor := b, lastpos := l\<rparr>"
    using t(2) unfolding text_shown_def screen_only_def by blast
  have "t\<lparr>uart_out := uart_out s, crt := crt s, cursor := cursor s, lastpos := lastpos s\<rparr> = s" by (simp add: e)
  then show ?thesis using t by (auto simp: cprintf_def text_shown_def shell_mode_def on_screen_def screen_only_def)
qed

theorem cprintf_shows_text_witness:
  "\<exists>t. cprintf (\<lambda>_. []) (Some (bytes ''pid %d'')) [7] (ex_cons (\<lambda>_ _. 0) (\<lambda>_. ex_inode) ()) = Inr t
    \<and> uart_out t = bytes ''pid 7''"
proof -
  have p: "printint_chars 7 10 True = [55]"
    by (simp add: printint_chars_def digits_of.simps digit_char_def bytes_def)
  have c: "cprintf_chars (\<lambda>_. []) (bytes ''pid %d'') [7] = [112, 105, 100, 32, 55]"
    by (simp add: bytes_def p)
  show ?thesis
    using cprintf_shows_text [of "ex_cons (\<lambda>_ _. 0) (\<lambda>_. ex_inode) ()" "\<lambda>_. []" "bytes ''pid %d''" "[7]"]
    by (auto simp: c p head_n_def ex_cons_fields ex_cons_shell text_char_def UPARROW_def DOWNARROW_def LEFTARROW_def RIGHTARROW_def BACKSPACE_def bytes_def)
qed

end
