(* ===== verification/Fs.thy ===== *)
theory Fs
  imports Console
begin

text \<open>
  The upper half of fs.c: reading and writing the contents of an inode, directories and path names,
  on the block map, the inodes and the log of the theories below. A read delivers the list of the
  bytes it copies to the user's buffer; a write takes its source as an array of bytes. The two
  reach a device through \<open>devsw\<close>.
\<close>

section \<open>Reading and writing\<close>

text \<open>
  The loop of \<open>readi\<close> after its checks: \<open>off + n\<close> does not overflow there, so that the arithmetic
  is that of the natural numbers.
\<close>

function readi_loop :: "nat \<Rightarrow> nat \<Rightarrow> nat \<Rightarrow> 'a fs_state_scheme \<Rightarrow> (u8 list \<times> 'a fs_state_scheme) kres" where
  "readi_loop ip off n s =
     (if n = 0 then Inr ([], s)
      else
        kbind (bmap ip (of_nat (off div BSIZE)) s) (\<lambda>(a, s).
        kbind (bread (i_dev (inodes s ip)) a s) (\<lambda>(bp, s).
          let m = min n (BSIZE - off mod BSIZE);
              bs = map (\<lambda>i. b_data (bufs s bp) (off mod BSIZE + i)) [0..<m]
          in kbind (brelse bp s) (\<lambda>s.
             kbind (readi_loop ip (off + m) (n - m) s) (\<lambda>(r, s).
             Inr (bs @ r, s))))))"
  by pat_completeness auto
termination
  by (relation "measure (\<lambda>(ip, off, n, s). n)") (auto simp: BSIZE_def)

function writei_loop :: "nat \<Rightarrow> block \<Rightarrow> nat \<Rightarrow> nat \<Rightarrow> 'a fs_state_scheme \<Rightarrow> 'a fs_state_scheme kres" where
  "writei_loop ip src off n s =
     (if n = 0 then Inr s
      else
        kbind (bmap ip (of_nat (off div BSIZE)) s) (\<lambda>(a, s).
        kbind (bread (i_dev (inodes s ip)) a s) (\<lambda>(bp, s).
          let m = min n (BSIZE - off mod BSIZE)
          in kbind (log_write bp (upd_data bp (blit (off mod BSIZE) m src) s)) (\<lambda>s.
             kbind (brelse bp s) (\<lambda>s.
             writei_loop ip (\<lambda>i. src (m + i)) (off + m) (n - m) s)))))"
  by pat_completeness auto
termination
  by (relation "measure (\<lambda>(ip, src, off, n, s). n)") (auto simp: BSIZE_def)

declare readi_loop.simps [simp del] writei_loop.simps [simp del]

text \<open>The device of an inode of type \<open>T_DEV\<close>.\<close>

definition device_of :: "nat \<Rightarrow> 'a cons_state_scheme \<Rightarrow> devops option" where
  "device_of ip s =
     (let major = sint (i_major (inodes s ip))
      in if major < 0 \<or> major \<ge> int NDEV then None else devsw s (nat major))"

definition readi :: "nat \<Rightarrow> u32 \<Rightarrow> u32 \<Rightarrow> 'a cons_state_scheme \<Rightarrow> (int \<times> u8 list \<times> 'a cons_state_scheme) kres" where
  "readi ip off n s =
     (if i_type (inodes s ip) = T_DEV then
        (case device_of ip s of None \<Rightarrow> Inr (-1, [], s) | Some DevConsole \<Rightarrow> consoleread ip (sint n) s)
      else if off > i_size (inodes s ip) \<or> off + n < off then Inr (-1, [], s)
      else
        let n = (if off + n > i_size (inodes s ip) then i_size (inodes s ip) - off else n)
        in kbind (readi_loop ip (unat off) (unat n) s) (\<lambda>(bs, s). Inr (sint n, bs, s)))"

definition writei :: "nat \<Rightarrow> block \<Rightarrow> u32 \<Rightarrow> u32 \<Rightarrow> 'a cons_state_scheme \<Rightarrow> (int \<times> 'a cons_state_scheme) kres" where
  "writei ip src off n s =
     (if i_type (inodes s ip) = T_DEV then
        (case device_of ip s of None \<Rightarrow> Inr (-1, s) | Some DevConsole \<Rightarrow> consolewrite ip src (sint n) s)
      else if off > i_size (inodes s ip) \<or> off + n < off then Inr (-1, s)
      else if unat (off + n) > MAXFILE * BSIZE then Inr (-1, s)
      else
        kbind (writei_loop ip src (unat off) (unat n) s) (\<lambda>s.
        kbind (if n > 0 \<and> off + n > i_size (inodes s ip)
               then iupdate ip (upd_inode ip (\<lambda>x. x\<lparr>i_size := off + n\<rparr>) s) else Inr s) (\<lambda>s.
        Inr (sint n, s))))"

section \<open>Directories\<close>

definition DIRSIZ :: nat where "DIRSIZ = 14"

record dirent =
  de_inum :: u16
  de_name :: block

definition arr :: "u8 list \<Rightarrow> block" where "arr bs = (\<lambda>i. if i < length bs then bs ! i else 0)"

definition decode_dirent :: "u8 list \<Rightarrow> dirent" where
  "decode_dirent bs = \<lparr>de_inum = get16 (arr bs) 0, de_name = (\<lambda>i. arr bs (2 + i))\<rparr>"

definition encode_dirent :: "dirent \<Rightarrow> block" where
  "encode_dirent de = put16 0 (de_inum de) (blit 2 DIRSIZ (de_name de) (\<lambda>_. 0))"

definition namecmp :: "block \<Rightarrow> block \<Rightarrow> int" where
  "namecmp s t = strncmp s t DIRSIZ"

definition read_dirent :: "nat \<Rightarrow> nat \<Rightarrow> 'a cons_state_scheme \<Rightarrow> (dirent \<times> 'a cons_state_scheme) kres" where
  "read_dirent dp off s =
     kbind (readi dp (of_nat off) 16 s) (\<lambda>(r, bs, s).
       if r \<noteq> 16 then Inl (Panic ''dirlink read'') else Inr (decode_dirent bs, s))"

function dirlookup_from :: "nat \<Rightarrow> block \<Rightarrow> nat \<Rightarrow> 'a cons_state_scheme \<Rightarrow> ((nat \<times> nat) option \<times> 'a cons_state_scheme) kres" where
  "dirlookup_from dp name off s =
     (if off < unat (i_size (inodes s dp)) then
        kbind (read_dirent dp off s) (\<lambda>(de, s).
          if de_inum de \<noteq> 0 \<and> namecmp name (de_name de) = 0
          then kbind (iget (i_dev (inodes s dp)) (ucast (de_inum de)) s) (\<lambda>(ip, s). Inr (Some (ip, off), s))
          else dirlookup_from dp name (off + 16) s)
      else Inr (None, s))"
  by pat_completeness auto
termination
proof (relation "measure (\<lambda>(dp, name, off, s). 2 ^ 32 - off)", simp)
  fix dp name off and s :: "'a cons_state_scheme" and x de t
  assume "off < unat (i_size (inodes s dp))"
  then have "off < 2 ^ 32" using unat_lt2p_u32 less_trans by blast
  then show "((dp, name, off + 16, t), dp, name, off, s) \<in> measure (\<lambda>(dp, name, off, s). 2 ^ 32 - off)" by simp
qed

text \<open>\<open>dirlookup\<close> returns the inode and the offset of its entry (\<open>*poff\<close>).\<close>

definition dirlookup :: "nat \<Rightarrow> block \<Rightarrow> 'a cons_state_scheme \<Rightarrow> ((nat \<times> nat) option \<times> 'a cons_state_scheme) kres" where
  "dirlookup dp name s =
     (if i_type (inodes s dp) \<noteq> T_DIR then Inl (Panic ''dirlookup not DIR'') else dirlookup_from dp name 0 s)"

text \<open>The offset of the first empty entry, or the size.\<close>

function empty_from :: "nat \<Rightarrow> nat \<Rightarrow> 'a cons_state_scheme \<Rightarrow> (nat \<times> 'a cons_state_scheme) kres" where
  "empty_from dp off s =
     (if off < unat (i_size (inodes s dp)) then
        kbind (read_dirent dp off s) (\<lambda>(de, s).
          if de_inum de = 0 then Inr (off, s) else empty_from dp (off + 16) s)
      else Inr (off, s))"
  by pat_completeness auto
termination
proof (relation "measure (\<lambda>(dp, off, s). 2 ^ 32 - off)", simp)
  fix dp off and s :: "'a cons_state_scheme" and x de t
  assume "off < unat (i_size (inodes s dp))"
  then have "off < 2 ^ 32" using unat_lt2p_u32 less_trans by blast
  then show "((dp, off + 16, t), dp, off, s) \<in> measure (\<lambda>(dp, off, s). 2 ^ 32 - off)" by simp
qed

declare dirlookup_from.simps [simp del] empty_from.simps [simp del]

definition dirlink :: "nat \<Rightarrow> block \<Rightarrow> u32 \<Rightarrow> 'a cons_state_scheme \<Rightarrow> (int \<times> 'a cons_state_scheme) kres" where
  "dirlink dp name inum s =
     kbind (dirlookup dp name s) (\<lambda>(r, s).
       case r of
         Some (ip, _) \<Rightarrow> kbind (iput ip s) (\<lambda>s. Inr (-1, s))
       | None \<Rightarrow>
           kbind (empty_from dp 0 s) (\<lambda>(off, s).
           kbind (writei dp (encode_dirent \<lparr>de_inum = ucast inum, de_name = strncpy (\<lambda>_. 0) name DIRSIZ\<rparr>) (of_nat off) 16 s)
             (\<lambda>(r, s). if r \<noteq> 16 then Inl (Panic ''dirlink'') else Inr (0, s))))"

section \<open>Paths\<close>

text \<open>A path is the list of its characters; \<open>skipelem\<close> copies the element into the array \<open>name\<close>.\<close>

definition skipelem :: "cstring \<Rightarrow> block \<Rightarrow> (cstring \<times> block) option" where
  "skipelem path name =
     (let path = dropWhile (\<lambda>c. c = 47) path
      in if path = [] then None
         else
           let s = path;
               path = dropWhile (\<lambda>c. c \<noteq> 47) path;
               len = length s - length path;
               name = (if len \<ge> DIRSIZ then blit 0 DIRSIZ (arr s) name else (blit 0 len (arr s) name)(len := 0))
           in Some (dropWhile (\<lambda>c. c = 47) path, name))"

lemma skipelem_shorter: "skipelem path name = Some (rest, name') \<Longrightarrow> length rest < length path"
proof -
  assume a: "skipelem path name = Some (rest, name')"
  let ?p = "dropWhile (\<lambda>c. c = 47) path"
  from a have r: "rest = dropWhile (\<lambda>c. c = 47) (dropWhile (\<lambda>c. c \<noteq> 47) ?p)" and n: "?p \<noteq> []"
    by (auto simp: skipelem_def Let_def split: if_splits)
  obtain c q where p: "?p = c # q" using n by (cases ?p) auto
  then have "c \<noteq> 47" using hd_dropWhile [of "\<lambda>c. c = 47" path] by auto
  then have "length rest \<le> length q" unfolding r p by (auto intro: le_trans [OF length_dropWhile_le])
  then show ?thesis using length_dropWhile_le [of "\<lambda>c. c = 47" path] p by simp
qed

function namex_from :: "bool \<Rightarrow> cstring \<Rightarrow> block \<Rightarrow> nat \<Rightarrow> 'a cons_state_scheme \<Rightarrow>
    ((nat option \<times> block) \<times> 'a cons_state_scheme) kres" where
  "namex_from nameiparent path name ip s =
     (case skipelem path name of
        None \<Rightarrow>
          if nameiparent then kbind (iput ip s) (\<lambda>s. Inr ((None, name), s)) else Inr ((Some ip, name), s)
      | Some (rest, name') \<Rightarrow>
          kbind (ilock ip s) (\<lambda>s.
            if i_type (inodes s ip) \<noteq> T_DIR then kbind (iunlockput ip s) (\<lambda>s. Inr ((None, name'), s))
            else if nameiparent \<and> rest = [] then kbind (iunlock ip s) (\<lambda>s. Inr ((Some ip, name'), s))
            else
              kbind (dirlookup ip name' s) (\<lambda>(r, s).
                kbind (iunlockput ip s) (\<lambda>s.
                  case r of
                    None \<Rightarrow> Inr ((None, name'), s)
                  | Some (next, _) \<Rightarrow> namex_from nameiparent rest name' next s))))"
  by pat_completeness auto
termination
  by (relation "measure (\<lambda>(b, path, name, ip, s). length path)") (auto simp: skipelem_shorter)

declare namex_from.simps [simp del]

definition namex :: "cstring \<Rightarrow> bool \<Rightarrow> block \<Rightarrow> 'a cons_state_scheme \<Rightarrow> ((nat option \<times> block) \<times> 'a cons_state_scheme) kres" where
  "namex path nameiparent name s =
     kbind (if path \<noteq> [] \<and> hd path = 47 then iget ROOTDEV ROOTINO s
            else case Option.bind (cur s) (\<lambda>p. cwd (ptable s p)) of
                   None \<Rightarrow> Inl (Overrun ''cwd'')
                 | Some ip \<Rightarrow> Inr (idup ip s))
       (\<lambda>(ip, s). namex_from nameiparent path name ip s)"

definition namei :: "cstring \<Rightarrow> 'a cons_state_scheme \<Rightarrow> (nat option \<times> 'a cons_state_scheme) kres" where
  "namei path s = kbind (namex path False (\<lambda>_. 0) s) (\<lambda>((r, name), s). Inr (r, s))"

definition nameiparent :: "cstring \<Rightarrow> block \<Rightarrow> 'a cons_state_scheme \<Rightarrow> ((nat option \<times> block) \<times> 'a cons_state_scheme) kres" where
  "nameiparent path name s = namex path True name s"

section \<open>The contents of a file\<close>

text \<open>Byte \<open>p\<close> of the file of inode \<open>x\<close>; a block that is not allocated counts as zeros.\<close>

definition fbyte :: "fsdisk \<Rightarrow> inode \<Rightarrow> nat \<Rightarrow> u8" where
  "fbyte d x p = (let a = baddr d x (p div BSIZE) in if a = 0 then 0 else d a (p mod BSIZE))"

definition fblocks :: "fsdisk \<Rightarrow> inode \<Rightarrow> u32 set" where
  "fblocks d x = {a. a \<noteq> 0 \<and> (a = i_addrs x NDIRECT \<or> (\<exists>bn<MAXFILE. a = baddr d x bn))}"

text \<open>
  A run on the file of inode \<open>ip\<close>: transaction steps that keep the layout, the blocks of other files,
  the allocated blocks and the inodes on the disk, and that change the inode in memory in its
  addresses only.
\<close>

definition file_run :: "nat \<Rightarrow> 'a fs_state_scheme \<Rightarrow> 'a fs_state_scheme \<Rightarrow> bool" where
  "file_run ip s t \<longleftrightarrow>
     txrun s t \<and> log_start t = log_start s \<and> fs_geo (log_start s) (hview t) \<and>
     file_ok (log_start s) (hview t) (inodes t ip) \<and>
     (\<exists>A. inodes t = (inodes s)(ip := (inodes s ip)\<lparr>i_addrs := A\<rparr>)) \<and>
     dsb (hview t) = dsb (hview s) \<and>
     (\<forall>b. data_block (log_start s) (hview s) b \<and> dused (hview s) b \<and> b < sb_size (dsb (hview s)) \<and>
          b \<notin> fblocks (hview s) (inodes s ip) \<longrightarrow> hview t b = hview s b) \<and>
     (\<forall>b < sb_size (dsb (hview s)). dused (hview s) b \<longrightarrow> dused (hview t) b) \<and>
     (\<forall>i < sb_ninodes (dsb (hview s)). hview t (IBLOCK i) = hview s (IBLOCK i)) \<and>
     (\<forall>a \<in> fblocks (hview t) (inodes t ip). a \<in> fblocks (hview s) (inodes s ip) \<or> \<not> dused (hview s) a)"

lemma file_run_refl:
  assumes "fs_geo (log_start s) (hview s)" "file_ok (log_start s) (hview s) (inodes s ip)"
  shows "file_run ip s s"
proof -
  have "inodes s = (inodes s)(ip := (inodes s ip)\<lparr>i_addrs := i_addrs (inodes s ip)\<rparr>)" by simp
  then have "\<exists>A. inodes s = (inodes s)(ip := (inodes s ip)\<lparr>i_addrs := A\<rparr>)" by blast
  with assms show ?thesis by (simp add: file_run_def)
qed

lemma data_block_cong: "dsb e = dsb d \<Longrightarrow> data_block start e = data_block start d"
  by (simp add: data_block_def last_meta_def bblock_def fun_eq_iff)

lemma fblocks_size:
  assumes "file_ok start d x" "a \<in> fblocks d x" shows "a < sb_size (dsb d)" "data_block start d a" "dused d a"
  using assms by (auto simp: file_ok_def fblocks_def)

lemma file_runD:
  assumes "file_run ip s t"
  shows "txrun s t" "log_start t = log_start s" "fs_geo (log_start s) (hview t)"
    "file_ok (log_start s) (hview t) (inodes t ip)" "\<exists>A. inodes t = (inodes s)(ip := (inodes s ip)\<lparr>i_addrs := A\<rparr>)"
    "dsb (hview t) = dsb (hview s)" "data_block (log_start s) (hview t) = data_block (log_start s) (hview s)"
    "data_block (log_start s) (hview s) b \<Longrightarrow> dused (hview s) b \<Longrightarrow> b < sb_size (dsb (hview s)) \<Longrightarrow>
       b \<notin> fblocks (hview s) (inodes s ip) \<Longrightarrow> hview t b = hview s b"
    "b < sb_size (dsb (hview s)) \<Longrightarrow> dused (hview s) b \<Longrightarrow> dused (hview t) b"
    "i < sb_ninodes (dsb (hview s)) \<Longrightarrow> hview t (IBLOCK i) = hview s (IBLOCK i)"
    "a \<in> fblocks (hview t) (inodes t ip) \<Longrightarrow> a \<in> fblocks (hview s) (inodes s ip) \<or> \<not> dused (hview s) a"
  using assms data_block_cong [of "hview t" "hview s"] by (simp_all add: file_run_def)

lemma file_run_trans:
  assumes "file_run ip s t" "file_run ip t u" shows "file_run ip s u"
proof -
  note p = file_runD [OF assms(1)] and q = file_runD [OF assms(2)]
  note s = p(2,6,7)
  obtain A B where i: "inodes t = (inodes s)(ip := (inodes s ip)\<lparr>i_addrs := A\<rparr>)"
    "inodes u = (inodes t)(ip := (inodes t ip)\<lparr>i_addrs := B\<rparr>)" using p(5) q(5) by blast
  have iu: "\<exists>B. inodes u = (inodes s)(ip := (inodes s ip)\<lparr>i_addrs := B\<rparr>)" by (intro exI [of _ B]) (simp add: i)
  have blk: "hview u b = hview s b"
    if b: "data_block (log_start s) (hview s) b" "dused (hview s) b" "b < sb_size (dsb (hview s))" "b \<notin> fblocks (hview s) (inodes s ip)" for b
  proof -
    have "hview t b = hview s b" "dused (hview t) b" "b \<notin> fblocks (hview t) (inodes t ip)"
      using p(8) [OF b] p(9) [OF b(3,2)] p(11) [of b] b(2,4) by blast+
    then show ?thesis using q(8) [of b] b(1,3) s by simp
  qed
  have fb: "a \<in> fblocks (hview s) (inodes s ip) \<or> \<not> dused (hview s) a" if a: "a \<in> fblocks (hview u) (inodes u ip)" for a
  proof -
    have "a < sb_size (dsb (hview s))" using fblocks_size(1) [OF q(4) a] q(6) s by simp
    then show ?thesis using q(11) [OF a] p(9,11) [of a] by blast
  qed
  have "dused (hview u) b" if "b < sb_size (dsb (hview s))" "dused (hview s) b" for b
    using q(9) [of b] p(9) [OF that] that s by simp
  moreover have "hview u (IBLOCK j) = hview s (IBLOCK j)" if "j < sb_ninodes (dsb (hview s))" for j
    using q(10) [of j] p(10) [OF that] that s by simp
  ultimately show ?thesis
    unfolding file_run_def using iu blk fb s q(2-4,6) txrun_trans [OF p(1) q(1)] by simp
qed

lemma bmap_file_run:
  assumes g: "fs_geo (log_start s) (hview s)" and f: "file_ok (log_start s) (hview s) (inodes s ip)"
    and p: "bmap_post ip bn s a t"
  shows "file_run ip s t"
proof -
  let ?d = "hview s" and ?x = "inodes s ip" and ?e = "hview t" and ?y = "inodes t ip"
  have k: "keeps_files (log_start s) (i_addrs ?x NDIRECT) ?d ?e" using p by (simp add: bmap_post_def)
  have same: "?e b = ?d b" if "data_block (log_start s) ?d b" "dused ?d b" "b < sb_size (dsb ?d)" "b \<notin> fblocks ?d ?x" for b
  proof -
    have "b \<noteq> i_addrs ?x NDIRECT" using that data_block_nonzero [OF that(1)] by (auto simp: fblocks_def)
    then show ?thesis using k that by (simp add: keeps_files_def)
  qed
  have "c \<in> fblocks ?d ?x \<or> \<not> dused ?d c" if c: "c \<in> fblocks ?e ?y" for c
  proof -
    have ind: "i_addrs ?y NDIRECT = i_addrs ?x NDIRECT \<or> \<not> dused ?d (i_addrs ?y NDIRECT)"
      and ad: "\<And>n. n < MAXFILE \<Longrightarrow> n \<noteq> bn \<Longrightarrow> baddr ?e ?y n = baddr ?d ?x n" "baddr ?e ?y bn = a" "bn < MAXFILE"
      and new: "baddr ?d ?x bn = 0 \<Longrightarrow> \<not> dused ?d a" "baddr ?d ?x bn \<noteq> 0 \<Longrightarrow> baddr ?d ?x bn = a"
      using p by (auto simp: bmap_post_def)
    from c consider "c = i_addrs ?y NDIRECT" | n where "n < MAXFILE" "c = baddr ?e ?y n" by (auto simp: fblocks_def)
    then show ?thesis
    proof cases
      case 1 then show ?thesis using ind c by (auto simp: fblocks_def)
    next
      case 2
      have "c \<noteq> 0" using c by (simp add: fblocks_def)
      then have "(\<exists>m<MAXFILE. c = baddr ?d ?x m) \<or> \<not> dused ?d c" using 2 ad new by metis
      then show ?thesis using \<open>c \<noteq> 0\<close> by (auto simp: fblocks_def)
    qed
  qed
  with same k p show ?thesis unfolding file_run_def bmap_post_def keeps_files_def by simp
qed

lemma bmap_contents:
  assumes f: "file_ok (log_start s) (hview s) (inodes s ip)" and p: "bmap_post ip bn s a t" and q: "q < MAXFILE * BSIZE"
  shows "fbyte (hview t) (inodes t ip) q = fbyte (hview s) (inodes s ip) q"
proof -
  let ?d = "hview s" and ?x = "inodes s ip" and ?n = "q div BSIZE"
  have n: "?n < MAXFILE" using q by (simp add: less_mult_imp_div_less)
  show ?thesis
  proof (cases "?n = bn")
    case True
    then show ?thesis using p by (auto simp: bmap_post_def fbyte_def Let_def split: if_splits)
  next
    case False
    have e: "baddr (hview t) (inodes t ip) ?n = baddr ?d ?x ?n" using p False n by (simp add: bmap_post_def)
    have "hview t (baddr ?d ?x ?n) = ?d (baddr ?d ?x ?n)" if "baddr ?d ?x ?n \<noteq> 0"
      using p f that n unfolding bmap_post_def keeps_files_def file_ok_def by blast
    then show ?thesis using e by (simp add: fbyte_def Let_def)
  qed
qed

text \<open>Storing into a block of the file.\<close>

lemma store_block:
  assumes inv: "log_inv t" and g: "fs_geo (log_start t) (hview t)" and f: "file_ok (log_start t) (hview t) (inodes t ip)"
    and a: "baddr (hview t) (inodes t ip) bn = a" "a \<noteq> 0" "bn < MAXFILE"
    and run: "txrun t u" "lframe t u" "hview u = (hview t)(a := w)"
  shows "file_run ip t u"
    "q < MAXFILE * BSIZE \<Longrightarrow> fbyte (hview u) (inodes u ip) q =
       (if q div BSIZE = bn then w (q mod BSIZE) else fbyte (hview t) (inodes t ip) q)"
proof -
  let ?d = "hview t" and ?x = "inodes t ip"
  have i: "inodes u = inodes t" and ls: "log_start u = log_start t" using lframe_inodes [OF run(2)] lframe_same [OF run(2)] by auto
  have db: "data_block (log_start t) ?d a" "a \<noteq> i_addrs ?x NDIRECT" using f a by (auto simp: file_ok_def)
  note U = upd_data_block [OF g db(1), where v = w]
  have ba: "baddr (?d(a := w)) ?x n = baddr ?d ?x n" for n using db(2) by (simp add: baddr_def)
  have ok: "file_ok (log_start t) (?d(a := w)) ?x" using f U(5) unfolding file_ok_def ba U(1,4) by blast
  have ib: "IBLOCK j \<noteq> a" if "j < sb_ninodes (dsb ?d)" for j using inode_block(4) [OF g that] db(1) by (auto simp: data_block_def)
  have af: "a \<in> fblocks ?d ?x" using a by (auto simp: fblocks_def)
  have fb: "fblocks (?d(a := w)) ?x = fblocks ?d ?x" by (simp add: fblocks_def ba)
  have ii: "\<exists>A. inodes t = (inodes t)(ip := ?x\<lparr>i_addrs := A\<rparr>)" by (intro exI [of _ "i_addrs ?x"]) simp
  show "file_run ip t u" unfolding file_run_def run(3) i ls
    using run(1) U ok ib af fb ii by auto
  show "fbyte (hview u) (inodes u ip) q = (if q div BSIZE = bn then w (q mod BSIZE) else fbyte ?d ?x q)" if "q < MAXFILE * BSIZE"
  proof -
    have n: "q div BSIZE < MAXFILE" using that by (simp add: less_mult_imp_div_less)
    have "baddr ?d ?x (q div BSIZE) \<noteq> a" if "q div BSIZE \<noteq> bn"
      using f a n that unfolding file_ok_def by metis
    then show ?thesis using a by (auto simp: fbyte_def Let_def run(3) i ba)
  qed
qed

section \<open>Reads and writes of a file\<close>

text \<open>The state of a file system in a transaction, with an inode whose file is in order.\<close>

definition file_state :: "nat \<Rightarrow> 'a fs_state_scheme \<Rightarrow> bool" where
  "file_state ip s \<longleftrightarrow> log_inv s \<and> fs_geo (log_start s) (hview s) \<and> file_ok (log_start s) (hview s) (inodes s ip)"

lemma file_run_state:
  assumes "file_run ip s t" "file_state ip s" shows "file_state ip t"
  using file_runD(1-4) [OF assms(1)] txrun_inv assms(2) by (auto simp: file_state_def)

lemma chunk_div:
  fixes off i :: nat
  assumes "i < BSIZE - off mod BSIZE" shows "(off + i) div BSIZE = off div BSIZE" "(off + i) mod BSIZE = off mod BSIZE + i"
proof -
  have e: "off + i = off div BSIZE * BSIZE + (off mod BSIZE + i)" using div_mult_mod_eq [of off BSIZE] by linarith
  have l: "off mod BSIZE + i < BSIZE" using assms by simp
  have "(k * BSIZE + r) div BSIZE = k" "(k * BSIZE + r) mod BSIZE = r" if "r < BSIZE" for k r
    using that by simp_all
  from this [OF l, of "off div BSIZE"] show "(off + i) div BSIZE = off div BSIZE" "(off + i) mod BSIZE = off mod BSIZE + i"
    unfolding e [symmetric] by simp_all
qed

lemma chunk_bn:
  assumes "off + n \<le> MAXFILE * BSIZE" "n \<noteq> 0"
  shows "unat (of_nat (off div BSIZE) :: u32) = off div BSIZE" "off div BSIZE < MAXFILE"
proof -
  have "off < MAXFILE * BSIZE" using assms by simp
  then show l: "off div BSIZE < MAXFILE" by (rule less_mult_imp_div_less)
  have "MAXFILE < 2 ^ 32" by (simp add: MAXFILE_def NDIRECT_def NINDIRECT_def BSIZE_def)
  then have "off div BSIZE < 2 ^ 32" using l by (rule less_trans [rotated])
  then show "unat (of_nat (off div BSIZE) :: u32) = off div BSIZE" by (rule unat_of_nat_eq_u32)
qed

lemma file_bmap:
  assumes f: "file_state ip s" and r: "off + n \<le> MAXFILE * BSIZE" "n \<noteq> 0" and bm: "bmap ip (of_nat (off div BSIZE)) s = Inr (a, t)"
  shows "file_run ip s t" "file_state ip t" "baddr (hview t) (inodes t ip) (off div BSIZE) = a" "a \<noteq> 0" "a < log_start t"
    "q < MAXFILE * BSIZE \<Longrightarrow> fbyte (hview t) (inodes t ip) q = fbyte (hview s) (inodes s ip) q"
proof -
  have f': "log_inv s" "fs_geo (log_start s) (hview s)" "file_ok (log_start s) (hview s) (inodes s ip)"
    using f by (auto simp: file_state_def)
  note b = chunk_bn [OF r]
  have p: "bmap_post ip (off div BSIZE) s a t" using bmap_step [OF f' bm] b by simp
  show fr: "file_run ip s t" by (rule bmap_file_run [OF f'(2,3) p])
  show st: "file_state ip t" by (rule file_run_state [OF fr f])
  show a: "baddr (hview t) (inodes t ip) (off div BSIZE) = a" "a \<noteq> 0" using p by (simp_all add: bmap_post_def)
  have "data_block (log_start t) (hview t) a" using st a b(2) unfolding file_state_def file_ok_def by blast
  then show "a < log_start t" by (simp add: data_block_def)
  show "q < MAXFILE * BSIZE \<Longrightarrow> fbyte (hview t) (inodes t ip) q = fbyte (hview s) (inodes s ip) q"
    by (rule bmap_contents [OF f'(3) p])
qed

lemma file_run_quiet:
  assumes f: "file_state ip s" and r: "txrun s t" "lframe s t" "hview t = hview s"
  shows "file_run ip s t"
proof -
  have "inodes t = inodes s" "log_start t = log_start s" using lframe_inodes [OF r(2)] lframe_same [OF r(2)] by auto
  moreover have "file_run ip s s" using f by (simp add: file_run_refl file_state_def)
  ultimately show ?thesis using r unfolding file_run_def by simp
qed

text \<open>One round of the loop of \<open>readi\<close>, and one of \<open>writei\<close>.\<close>

lemma read_chunk:
  assumes f: "file_state ip s" and r: "off + n \<le> MAXFILE * BSIZE" "n \<noteq> 0"
    and bm: "bmap ip (of_nat (off div BSIZE)) s = Inr (a, t)" and br: "bread (i_dev (inodes t ip)) a t = Inr (bp, u)"
    and rel: "brelse bp u = Inr v" and m: "m = min n (BSIZE - off mod BSIZE)"
  shows "file_run ip s v" "q < MAXFILE * BSIZE \<Longrightarrow> fbyte (hview v) (inodes v ip) q = fbyte (hview s) (inodes s ip) q"
    "map (\<lambda>i. b_data (bufs u bp) (off mod BSIZE + i)) [0..<m] = map (fbyte (hview s) (inodes s ip)) [off..<off + m]"
proof -
  note b = file_bmap [OF f r bm]
  have inv: "log_inv t" using b(2) by (simp add: file_state_def)
  note e = read_release [OF inv b(5) br rel]
  note c = file_run_quiet [OF b(2) e(2) e(4) e(3)]
  show "file_run ip s v" by (rule file_run_trans [OF b(1) c])
  show "q < MAXFILE * BSIZE \<Longrightarrow> fbyte (hview v) (inodes v ip) q = fbyte (hview s) (inodes s ip) q"
    using b(6) [of q] e(3) lframe_inodes [OF e(4)] by simp
  have "b_data (bufs u bp) (off mod BSIZE + i) = fbyte (hview s) (inodes s ip) (off + i)" if "i < m" for i
  proof -
    have i: "i < BSIZE - off mod BSIZE" "off + i < MAXFILE * BSIZE" using that m r by auto
    have "fbyte (hview t) (inodes t ip) (off + i) = hview t a (off mod BSIZE + i)"
      using b(3,4) by (simp add: fbyte_def Let_def chunk_div [OF i(1)])
    then show ?thesis using b(6) [OF i(2)] e(5) by simp
  qed
  then show "map (\<lambda>i. b_data (bufs u bp) (off mod BSIZE + i)) [0..<m] = map (fbyte (hview s) (inodes s ip)) [off..<off + m]"
    by (intro nth_equalityI) simp_all
qed

lemma write_chunk:
  assumes f: "file_state ip s" and r: "off + n \<le> MAXFILE * BSIZE" "n \<noteq> 0"
    and bm: "bmap ip (of_nat (off div BSIZE)) s = Inr (a, t)" and br: "bread (i_dev (inodes t ip)) a t = Inr (bp, u)"
    and lw: "log_write bp (upd_data bp (blit (off mod BSIZE) m src) u) = Inr w" and rel: "brelse bp w = Inr v"
    and m: "m = min n (BSIZE - off mod BSIZE)"
  shows "file_run ip s v" "q < MAXFILE * BSIZE \<Longrightarrow>
    fbyte (hview v) (inodes v ip) q = (if off \<le> q \<and> q < off + m then src (q - off) else fbyte (hview s) (inodes s ip) q)"
proof -
  note b = file_bmap [OF f r bm]
  have st: "log_inv t" "fs_geo (log_start t) (hview t)" "file_ok (log_start t) (hview t) (inodes t ip)"
    using b(2) by (auto simp: file_state_def)
  note e = modify_release [OF st(1) b(5) br lw rel]
  note c = store_block [OF st b(3,4) chunk_bn(2) [OF r] e(2,4,3)]
  show "file_run ip s v" by (rule file_run_trans [OF b(1) c(1)])
  show "fbyte (hview v) (inodes v ip) q = (if off \<le> q \<and> q < off + m then src (q - off) else fbyte (hview s) (inodes s ip) q)"
    if q: "q < MAXFILE * BSIZE"
  proof (cases "q div BSIZE = off div BSIZE")
    case True
    have d: "q = off div BSIZE * BSIZE + q mod BSIZE" "off = off div BSIZE * BSIZE + off mod BSIZE"
      using True div_mult_mod_eq [of q BSIZE] div_mult_mod_eq [of off BSIZE] by simp_all
    have z: "q - off = q mod BSIZE - off mod BSIZE" "off \<le> q \<longleftrightarrow> off mod BSIZE \<le> q mod BSIZE"
      "q < off + m \<longleftrightarrow> q mod BSIZE < off mod BSIZE + m" using d by linarith+
    have "fbyte (hview t) (inodes t ip) q = hview t a (q mod BSIZE)" using b(3,4) True by (simp add: fbyte_def Let_def)
    then show ?thesis using c(2) [OF q] True b(6) [OF q] by (simp add: blit_def z)
  next
    case False
    have "\<not> (off \<le> q \<and> q < off + m)"
    proof
      assume "off \<le> q \<and> q < off + m"
      then have "q - off < BSIZE - off mod BSIZE" "q = off + (q - off)" using m by auto
      then show False using chunk_div(1) False by metis
    qed
    then show ?thesis using c(2) [OF q] False b(6) [OF q] by auto
  qed
qed

lemma readi_loop_ok:
  assumes "file_state ip s" "off + n \<le> MAXFILE * BSIZE" "readi_loop ip off n s = Inr (bs, t)"
  shows "file_run ip s t \<and> bs = map (fbyte (hview s) (inodes s ip)) [off..<off + n] \<and>
    (\<forall>q < MAXFILE * BSIZE. fbyte (hview t) (inodes t ip) q = fbyte (hview s) (inodes s ip) q)"
  using assms
proof (induction n arbitrary: off s bs t rule: less_induct)
  case (less n)
  show ?case
  proof (cases "n = 0")
    case True
    then show ?thesis using less.prems by (auto simp: readi_loop.simps file_state_def intro: file_run_refl)
  next
    case False
    define m where "m = min n (BSIZE - off mod BSIZE)"
    have m0: "0 < m" "m \<le> n" using False by (simp_all add: m_def BSIZE_def)
    from less.prems(3) False obtain a s1 bp s2 s3 r where c: "bmap ip (of_nat (off div BSIZE)) s = Inr (a, s1)"
      "bread (i_dev (inodes s1 ip)) a s1 = Inr (bp, s2)" "brelse bp s2 = Inr s3"
      and rl: "readi_loop ip (off + m) (n - m) s3 = Inr (r, t)"
      and bs: "bs = map (\<lambda>i. b_data (bufs s2 bp) (off mod BSIZE + i)) [0..<m] @ r"
      by (subst (asm) readi_loop.simps) (auto simp: kbind_returns Let_def m_def)
    note h = read_chunk [OF less.prems(1,2) False c m_def]
    have "file_run ip s3 t \<and> r = map (fbyte (hview s3) (inodes s3 ip)) [off + m..<off + m + (n - m)] \<and>
      (\<forall>q < MAXFILE * BSIZE. fbyte (hview t) (inodes t ip) q = fbyte (hview s3) (inodes s3 ip) q)"
      using m0 less.prems(2) by (intro less.IH [OF _ file_run_state [OF h(1) less.prems(1)] _ rl]) auto
    then have i: "file_run ip s3 t" "r = map (fbyte (hview s3) (inodes s3 ip)) [off + m..<off + n]"
      "\<forall>q < MAXFILE * BSIZE. fbyte (hview t) (inodes t ip) q = fbyte (hview s3) (inodes s3 ip) q" using m0 by auto
    have "map (fbyte (hview s3) (inodes s3 ip)) [off + m..<off + n] = map (fbyte (hview s) (inodes s ip)) [off + m..<off + n]"
      using h(2) less.prems(2) by (intro map_cong) auto
    moreover have "[off..<off + n] = [off..<off + m] @ [off + m..<off + n]" using m0 by (metis le_add_diff_inverse add.assoc upt_add_eq_append le_add1)
    ultimately show ?thesis using file_run_trans [OF h(1) i(1)] h(2,3) i(2,3) bs by simp
  qed
qed

lemma writei_loop_ok:
  assumes "file_state ip s" "off + n \<le> MAXFILE * BSIZE" "writei_loop ip src off n s = Inr t"
  shows "file_run ip s t \<and> (\<forall>q < MAXFILE * BSIZE. fbyte (hview t) (inodes t ip) q =
    (if off \<le> q \<and> q < off + n then src (q - off) else fbyte (hview s) (inodes s ip) q))"
  using assms
proof (induction n arbitrary: off s src t rule: less_induct)
  case (less n)
  show ?case
  proof (cases "n = 0")
    case True
    then show ?thesis using less.prems by (auto simp: writei_loop.simps file_state_def intro: file_run_refl)
  next
    case False
    define m where "m = min n (BSIZE - off mod BSIZE)"
    have m0: "0 < m" "m \<le> n" using False by (simp_all add: m_def BSIZE_def)
    from less.prems(3) False obtain a s1 bp s2 s3 s4 where c: "bmap ip (of_nat (off div BSIZE)) s = Inr (a, s1)"
      "bread (i_dev (inodes s1 ip)) a s1 = Inr (bp, s2)" "log_write bp (upd_data bp (blit (off mod BSIZE) m src) s2) = Inr s3"
      "brelse bp s3 = Inr s4" and rl: "writei_loop ip (\<lambda>i. src (m + i)) (off + m) (n - m) s4 = Inr t"
      by (subst (asm) writei_loop.simps) (auto simp: kbind_returns Let_def m_def)
    note h = write_chunk [OF less.prems(1,2) False c m_def]
    have "file_run ip s4 t \<and> (\<forall>q < MAXFILE * BSIZE. fbyte (hview t) (inodes t ip) q =
        (if off + m \<le> q \<and> q < off + m + (n - m) then src (m + (q - (off + m))) else fbyte (hview s4) (inodes s4 ip) q))"
      using m0 less.prems(2) by (intro less.IH [OF _ file_run_state [OF h(1) less.prems(1)] _ rl]) auto
    then have i: "file_run ip s4 t" "\<And>q. q < MAXFILE * BSIZE \<Longrightarrow> fbyte (hview t) (inodes t ip) q =
        (if off + m \<le> q \<and> q < off + n then src (q - off) else fbyte (hview s4) (inodes s4 ip) q)" using m0 by auto
    have "fbyte (hview t) (inodes t ip) q = (if off \<le> q \<and> q < off + n then src (q - off) else fbyte (hview s) (inodes s ip) q)"
      if "q < MAXFILE * BSIZE" for q using i(2) [OF that] h(2) [OF that] m0 by auto
    then show ?thesis using file_run_trans [OF h(1) i(1)] by blast
  qed
qed

lemma sint_small: "unat (x :: u32) < 2 ^ 31 \<Longrightarrow> sint x = int (unat x)"
proof -
  assume "unat x < 2 ^ 31"
  then have "int (unat x) < int (2 ^ 31)" by (simp only: of_nat_less_iff)
  then have "(uint x + 2 ^ 31) mod 2 ^ 32 = uint x + 2 ^ 31"
    by (intro mod_pos_pos_trivial) simp_all
  moreover have "sint x = (uint x + 2 ^ 31) mod 2 ^ 32 - 2 ^ 31"
    by (simp add: sint_uint signed_take_bit_eq_take_bit_shift take_bit_eq_mod)
  ultimately show ?thesis by simp
qed

text \<open>The inode goes to the disk: the file, its contents and all data blocks stay.\<close>

lemma update_file:
  assumes f: "file_state ip s" and i: "i_inum (inodes s ip) = i" "i < sb_ninodes (dsb (hview s))"
    and up: "iupdate ip (upd_inode ip (\<lambda>x. x\<lparr>i_size := k\<rparr>) s) = Inr t"
  shows "txrun s t" "file_state ip t" "log_start t = log_start s" "dsb (hview t) = dsb (hview s)"
    "inodes t = (inodes s)(ip := (inodes s ip)\<lparr>i_size := k\<rparr>)"
    "q < MAXFILE * BSIZE \<Longrightarrow> fbyte (hview t) (inodes t ip) q = fbyte (hview s) (inodes s ip) q"
    "data_block (log_start s) (hview s) b \<Longrightarrow> hview t b = hview s b"
    "same_dinode (dino (hview t) i) (dinode_of (inodes t ip))"
    "j \<noteq> i \<Longrightarrow> same_dinode (dino (hview t) j) (dino (hview s) j)"
proof -
  let ?s = "upd_inode ip (\<lambda>x. x\<lparr>i_size := k\<rparr>) s" and ?d = "hview s" and ?x = "inodes s ip"
  have f': "log_inv s" "fs_geo (log_start s) ?d" "file_ok (log_start s) ?d ?x" using f by (auto simp: file_state_def)
  have h: "hview ?s = ?d" "log_start ?s = log_start s" by simp_all
  have inv: "log_inv ?s" using same_log_inv [of s ?s] f'(1) by simp
  have u: "i_inum (inodes ?s ip) = i" "i < sb_ninodes (dsb (hview ?s))" using i h by simp_all
  have g: "fs_geo (log_start ?s) (hview ?s)" using f'(2) h by simp
  note p = iupdate_step [OF inv g u up]
  note U = upd_inode_block [OF f'(2) i(2)]
  define e where "e = put_dinode (inode_slot i) (dinode_of (inodes ?s ip)) (?d (IBLOCK i))"
  have ht: "hview t = ?d(IBLOCK i := e)" using p(4) h by (simp add: e_def)
  have db: "b \<noteq> IBLOCK i" if "data_block (log_start s) ?d b" for b
    using inode_block(4) [OF f'(2) i(2)] that by (auto simp: data_block_def)
  show ls: "log_start t = log_start s" using lframe_same(1) [OF p(3)] h by simp
  show it: "inodes t = (inodes s)(ip := ?x\<lparr>i_size := k\<rparr>)" using lframe_inodes [OF p(3)] by simp
  show "dsb (hview t) = dsb ?d" unfolding ht by (rule U(1))
  show tx: "txrun s t" by (rule txrun_trans [OF _ p(2)]) (simp add: same_log_txrun)
  show hb: "data_block (log_start s) ?d b \<Longrightarrow> hview t b = ?d b" for b using db by (simp add: ht)
  have ind: "i_addrs ?x NDIRECT \<noteq> 0 \<Longrightarrow> i_addrs ?x NDIRECT \<noteq> IBLOCK i"
    using f'(3) db by (auto simp: file_ok_def)
  have ba: "baddr (hview t) (inodes t ip) n = baddr ?d ?x n" for n using ind by (auto simp: baddr_def ht it)
  have D: "dsb (hview t) = dsb ?d" "data_block (log_start s) (hview t) = data_block (log_start s) ?d"
    "i_addrs (inodes t ip) = i_addrs ?x" using U(1,4) by (simp_all add: ht it)
  have "dused (hview t) b = dused ?d b" if "b < sb_size (dsb ?d)" for b using U(5) that by (simp add: ht)
  then have "file_ok (log_start s) (hview t) (inodes t ip)"
    using f'(3) unfolding file_ok_def ba D by blast
  then show "file_state ip t" using txrun_inv [OF tx f'(1)] p(5) h ls by (simp add: file_state_def)
  show "q < MAXFILE * BSIZE \<Longrightarrow> fbyte (hview t) (inodes t ip) q = fbyte ?d ?x q"
  proof -
    assume "q < MAXFILE * BSIZE"
    then have n: "q div BSIZE < MAXFILE" by (rule less_mult_imp_div_less)
    have "baddr ?d ?x (q div BSIZE) \<noteq> 0 \<Longrightarrow> hview t (baddr ?d ?x (q div BSIZE)) = ?d (baddr ?d ?x (q div BSIZE))"
      using f'(3) n hb unfolding file_ok_def by blast
    then show ?thesis by (simp add: fbyte_def Let_def ba)
  qed
  show "same_dinode (dino (hview t) i) (dinode_of (inodes t ip))"
    unfolding ht e_def using dino_put(1) [of ?d i] by (simp add: it)
  show "j \<noteq> i \<Longrightarrow> same_dinode (dino (hview t) j) (dino ?d j)"
    unfolding ht e_def by (rule dino_put(2))
qed

text \<open>What a write of \<open>n\<close> bytes at \<open>off\<close> leaves.\<close>

definition wrote :: "nat \<Rightarrow> block \<Rightarrow> nat \<Rightarrow> nat \<Rightarrow> 'a fs_state_scheme \<Rightarrow> 'a fs_state_scheme \<Rightarrow> bool" where
  "wrote ip src off n s t \<longleftrightarrow>
     txrun s t \<and> file_state ip t \<and> log_start t = log_start s \<and> dsb (hview t) = dsb (hview s) \<and>
     (\<exists>A k. inodes t = (inodes s)(ip := (inodes s ip)\<lparr>i_addrs := A, i_size := k\<rparr>)) \<and>
     unat (i_size (inodes t ip)) = (if n = 0 then unat (i_size (inodes s ip)) else max (unat (i_size (inodes s ip))) (off + n)) \<and>
     (\<forall>q < MAXFILE * BSIZE. fbyte (hview t) (inodes t ip) q =
        (if off \<le> q \<and> q < off + n then src (q - off) else fbyte (hview s) (inodes s ip) q)) \<and>
     (\<forall>b. data_block (log_start s) (hview s) b \<and> dused (hview s) b \<and> b < sb_size (dsb (hview s)) \<and>
        b \<notin> fblocks (hview s) (inodes s ip) \<longrightarrow> hview t b = hview s b) \<and>
     (\<forall>j < sb_ninodes (dsb (hview s)). j \<noteq> i_inum (inodes s ip) \<longrightarrow> same_dinode (dino (hview t) j) (dino (hview s) j))"

lemma writei_cases:
  assumes "writei ip src off n s = Inr (r, t)" "i_type (inodes s ip) \<noteq> T_DEV" "r \<noteq> -1"
  obtains u where "off \<le> i_size (inodes s ip)" "unat (off + n) = unat off + unat n" "unat off + unat n \<le> MAXFILE * BSIZE"
    "r = int (unat n)" "writei_loop ip src (unat off) (unat n) s = Inr u"
    "(if n > 0 \<and> off + n > i_size (inodes u ip) then iupdate ip (upd_inode ip (\<lambda>x. x\<lparr>i_size := off + n\<rparr>) u) else Inr u) = Inr t"
proof -
  have g: "off \<le> i_size (inodes s ip)" "\<not> off + n < off" "unat (off + n) \<le> MAXFILE * BSIZE"
    using assms by (auto simp: writei_def split: if_splits)
  have o: "unat (off + n) = unat off + unat n" using g(2) by (simp add: not_less unat_plus_simple)
  have "unat n < 2 ^ 31" using g(3) o by (simp add: MAXFILE_def NDIRECT_def NINDIRECT_def BSIZE_def)
  then have sn: "sint n = int (unat n)" by (rule sint_small)
  from assms(1,2) g obtain u where "r = sint n" "writei_loop ip src (unat off) (unat n) s = Inr u"
    "(if n > 0 \<and> off + n > i_size (inodes u ip) then iupdate ip (upd_inode ip (\<lambda>x. x\<lparr>i_size := off + n\<rparr>) u) else Inr u) = Inr t"
    by (auto simp: writei_def kbind_returns split del: if_split split: if_splits)
  with g o sn show ?thesis by (intro that [of u]) auto
qed

lemma writei_ok:
  assumes f: "file_state ip s" and i: "i_inum (inodes s ip) < sb_ninodes (dsb (hview s))"
    and w: "writei ip src off n s = Inr (r, t)" "i_type (inodes s ip) \<noteq> T_DEV" "r \<noteq> -1"
  shows "wrote ip src (unat off) (unat n) s t"
proof -
  obtain u where o: "off \<le> i_size (inodes s ip)" "unat (off + n) = unat off + unat n" "unat off + unat n \<le> MAXFILE * BSIZE"
    and lp: "writei_loop ip src (unat off) (unat n) s = Inr u"
    and up: "(if n > 0 \<and> off + n > i_size (inodes u ip) then iupdate ip (upd_inode ip (\<lambda>x. x\<lparr>i_size := off + n\<rparr>) u) else Inr u) = Inr t"
    by (rule writei_cases [OF w])
  have l: "file_run ip s u" and c: "\<And>q. q < MAXFILE * BSIZE \<Longrightarrow> fbyte (hview u) (inodes u ip) q =
    (if unat off \<le> q \<and> q < unat off + unat n then src (q - unat off) else fbyte (hview s) (inodes s ip) q)"
    using writei_loop_ok [OF f o(3) lp] by blast+
  note d = file_runD [OF l]
  have fu: "file_state ip u" by (rule file_run_state [OF l f])
  obtain A where iu: "inodes u = (inodes s)(ip := (inodes s ip)\<lparr>i_addrs := A\<rparr>)" using d(5) by blast
  have dj: "same_dinode (dino (hview u) j) (dino (hview s) j)" if "j < sb_ninodes (dsb (hview s))" for j
    using d(10) [OF that] by (simp add: dino_def)
  show ?thesis
  proof (cases "n > 0 \<and> off + n > i_size (inodes u ip)")
    case False
    then have t: "t = u" using up by (auto split: if_splits)
    have "unat (i_size (inodes u ip)) = (if unat n = 0 then unat (i_size (inodes s ip)) else max (unat (i_size (inodes s ip))) (unat off + unat n))"
      using False o(2) by (auto simp: iu word_less_nat_alt word_gt_0 unat_eq_zero)
    moreover have "\<exists>A k. inodes u = (inodes s)(ip := (inodes s ip)\<lparr>i_addrs := A, i_size := k\<rparr>)"
      by (intro exI [of _ A] exI [of _ "i_size (inodes s ip)"]) (simp add: iu)
    ultimately show ?thesis unfolding wrote_def t using d c fu dj by simp
  next
    case True
    then have up': "iupdate ip (upd_inode ip (\<lambda>x. x\<lparr>i_size := off + n\<rparr>) u) = Inr t" using up by simp
    have "i_inum (inodes u ip) = i_inum (inodes s ip)" "i_inum (inodes s ip) < sb_ninodes (dsb (hview u))"
      using i d(6) by (simp_all add: iu)
    note e = update_file [OF fu this up']
    have sz: "unat (i_size (inodes t ip)) = (if unat n = 0 then unat (i_size (inodes s ip)) else max (unat (i_size (inodes s ip))) (unat off + unat n))"
      using True o(2) by (auto simp: e(5) iu word_less_nat_alt word_gt_0 unat_eq_zero)
    have it: "\<exists>A k. inodes t = (inodes s)(ip := (inodes s ip)\<lparr>i_addrs := A, i_size := k\<rparr>)"
      by (intro exI [of _ A] exI [of _ "off + n"]) (simp add: e(5) iu)
    have bl: "hview t b = hview s b" if "data_block (log_start s) (hview s) b" "dused (hview s) b" "b < sb_size (dsb (hview s))"
        "b \<notin> fblocks (hview s) (inodes s ip)" for b
      using e(7) [of b] d(8) [OF that] that(1) d(2,7) by simp
    have di: "same_dinode (dino (hview t) j) (dino (hview s) j)" if "j < sb_ninodes (dsb (hview s))" "j \<noteq> i_inum (inodes s ip)" for j
      using e(9) [OF that(2)] dj [OF that(1)] by (simp add: same_dinode_def)
    show ?thesis unfolding wrote_def
      using txrun_trans [OF d(1) e(1)] e(2-4,6) d(2,6) sz it c bl di by simp
  qed
qed

lemma readi_ok:
  assumes f: "file_state ip s" and sz: "unat (i_size (inodes s ip)) \<le> MAXFILE * BSIZE" and ty: "i_type (inodes s ip) \<noteq> T_DEV"
    and rd: "readi ip off n s = Inr (r, bs, t)" and r: "r \<noteq> -1"
  shows "file_run ip s t" "bs = map (fbyte (hview s) (inodes s ip)) [unat off..<min (unat off + unat n) (unat (i_size (inodes s ip)))]"
    "r = int (length bs)" "q < MAXFILE * BSIZE \<Longrightarrow> fbyte (hview t) (inodes t ip) q = fbyte (hview s) (inodes s ip) q"
proof -
  define k where "k = (if off + n > i_size (inodes s ip) then i_size (inodes s ip) - off else n)"
  have g: "off \<le> i_size (inodes s ip)" "\<not> off + n < off" using rd ty r by (auto simp: readi_def split: if_splits)
  have o: "unat (off + n) = unat off + unat n" using g(2) by (simp add: not_less unat_plus_simple)
  have k: "unat off + unat k = min (unat off + unat n) (unat (i_size (inodes s ip)))"
    using g(1) o by (auto simp: k_def word_less_nat_alt word_le_nat_alt unat_sub)
  have "kbind (readi_loop ip (unat off) (unat k) s) (\<lambda>(bs, s). Inr (sint k, bs, s)) = Inr (r, bs, t)"
    using rd ty g unfolding readi_def k_def by (simp add: not_less [symmetric] Let_def)
  then have u: "readi_loop ip (unat off) (unat k) s = Inr (bs, t)" "r = sint k" by (auto simp: kbind_returns)
  have b: "unat off + unat k \<le> MAXFILE * BSIZE" using k sz by simp
  have "unat k < 2 ^ 31" using b by (simp add: MAXFILE_def NDIRECT_def NINDIRECT_def BSIZE_def)
  then have rk: "r = int (unat k)" using u(2) sint_small by simp
  show "file_run ip s t" "bs = map (fbyte (hview s) (inodes s ip)) [unat off..<min (unat off + unat n) (unat (i_size (inodes s ip)))]"
    "q < MAXFILE * BSIZE \<Longrightarrow> fbyte (hview t) (inodes t ip) q = fbyte (hview s) (inodes s ip) q"
    using readi_loop_ok [OF f b u(1)] k by auto
  show "r = int (length bs)" using readi_loop_ok [OF f b u(1)] rk by simp
qed

section \<open>Reads and writes return\<close>

text \<open>An open transaction with \<open>k\<close> more blocks to spare and no buffer locked.\<close>

definition trans_room :: "nat \<Rightarrow> 'a log_state_scheme \<Rightarrow> bool" where
  "trans_room k s \<longleftrightarrow> log_inv s \<and> log_busy s \<and> lockset s = {} \<and> nat (lh_n s) + k < NBUF \<and>
     nat (lh_n s) + k \<le> LOGSIZE \<and> lh_n s + int k < log_size s"

lemma trans_room_bread:
  assumes "trans_room k s" "x < log_start s"
  obtains b u where "bread 1 x s = Inr (b, u)"
proof -
  have inv: "log_inv s" "lockset s = {}" "nat (lh_n s) < NBUF" using assms(1) by (auto simp: trans_room_def)
  have "card (dirtyset s) \<le> nat (lh_n s)"
    using inv(1) card_image_le [of "{..<nat (lh_n s)}" "lh_sector s"] by (simp add: log_inv_def)
  then have "room s" using inv by (simp add: room_def)
  moreover have "x < disksize s" using assms(2) log_inv_quiet(5) [OF inv(1,2)] by (rule less_trans)
  ultimately show ?thesis using bread_total [OF log_inv_bio [OF inv(1)], of x] inv(2) that by auto
qed

lemma modify_returns:
  assumes s: "trans_room (Suc k) s" and x: "x < log_start s"
  obtains b u v t where "bread 1 x s = Inr (b, u)" "log_write b (upd_data b f u) = Inr v" "brelse b v = Inr t"
proof -
  obtain b u where br: "bread 1 x s = Inr (b, u)" by (rule trans_room_bread [OF s x])
  have inv: "log_inv s" "lockset s = {}" "log_busy s" using s by (auto simp: trans_room_def)
  note r = bread_step [OF inv(1) x br] and rb = bread_ok [OF log_inv_bio [OF inv(1)] br]
  note fr = dframe_log [OF dframe_bufframe [OF rb(10)]]
  let ?w = "upd_data b f u"
  note m = set_data_ok [OF rb(3) rb(5), of "\<lambda>x. f (b_data x)", folded upd_data_def]
  note fm = dframe_log [OF dframe_bufframe [OF m(7)]]
  have iw: "log_inv ?w" unfolding upd_data_def by (rule tstep_inv [OF t_store [OF r(7)] r(3)])
  have ow: "owns ?w b x" using m(5) r(7) by simp
  have "card (dirtyset s) \<le> nat (lh_n s)"
    using inv(1) card_image_le [of "{..<nat (lh_n s)}" "lh_sector s"] by (simp add: log_inv_def)
  then have rm: "room ?w" using s inv(2) by (simp add: room_def m(3,4) rb(7,8) trans_room_def)
  have "0 \<le> lh_n s" using inv(1) by (simp add: log_inv_def)
  then have "lh_n ?w < int LOGSIZE" "lh_n ?w < log_size ?w - 1" using s fr fm by (auto simp: trans_room_def)
  then obtain v where lw: "log_write b ?w = Inr v"
    using log_write_returns [OF iw ow _ _ _ rm] inv(3) fr fm by auto
  note w = log_write_step [OF r(3,7) lw]
  obtain t where "brelse b v = Inr t" using brelse_returns [OF w(6) [OF r(7)]] by blast
  with br lw show ?thesis by (rule that)
qed

lemma trans_room_txrun:
  assumes "trans_room (Suc k) s" "txrun s t" "lframe s t" "lh_n t \<le> lh_n s + 1" shows "trans_room k t"
proof -
  have "log_busy t = log_busy s" "log_size t = log_size s" using lframe_same [OF assms(3)] by auto
  moreover have "log_inv t" using assms(1) txrun_inv [OF assms(2)] by (simp add: trans_room_def)
  moreover have "lockset t = lockset s" using assms(2) by (simp add: txrun_def)
  ultimately show ?thesis using assms(1,4) by (auto simp: trans_room_def)
qed

lemma modify_lh:
  assumes inv: "log_inv s" and x: "x < log_start s" and br: "bread dv x s = Inr (b, u)"
    and lw: "log_write b (upd_data b f u) = Inr v" and rel: "brelse b v = Inr t"
  shows "lh_n t \<le> lh_n s + 1"
proof -
  note r = bread_step [OF inv x br] and rb = bread_ok [OF log_inv_bio [OF inv] br]
  let ?w = "upd_data b f u"
  note m = set_data_ok [OF rb(3) rb(5), of "\<lambda>x. f (b_data x)", folded upd_data_def]
  have iw: "log_inv ?w" unfolding upd_data_def by (rule tstep_inv [OF t_store [OF r(7)] r(3)])
  have ow: "owns ?w b x" using m(5) r(7) by simp
  note e = dframe_log(5) [OF log_write_effect(10) [OF iw ow lw]]
  note w = log_write_step [OF r(3,7) lw]
  have "bframe v t" using brelse_effect(1) [OF rel] .
  then have "lh_n t = lh_n v" using dframe_log(5) dframe_bframe by blast
  moreover have "lh_n ?w = lh_n s"
    using dframe_log(5) [OF dframe_bufframe [OF rb(10)]] dframe_log(5) [OF dframe_bufframe [OF m(7)]] by simp
  ultimately show ?thesis using e by (auto split: if_splits)
qed

text \<open>A request inside one direct block that is allocated.\<close>

definition in_block :: "inode \<Rightarrow> u32 \<Rightarrow> u32 \<Rightarrow> bool" where
  "in_block x off n \<longleftrightarrow> unat off div BSIZE < NDIRECT \<and> i_addrs x (unat off div BSIZE) \<noteq> 0 \<and>
     0 < n \<and> unat off mod BSIZE + unat n \<le> BSIZE \<and> unat off + unat n \<le> unat (i_size x) \<and> i_dev x = 1 \<and> i_type x \<noteq> T_DEV"

lemma in_blockD:
  assumes "in_block x off n"
  shows "unat (off + n) = unat off + unat n" "off \<le> i_size x" "\<not> off + n < off" "\<not> off + n > i_size x" "0 < unat n"
    "unat off + unat n \<le> MAXFILE * BSIZE" "min (unat n) (BSIZE - unat off mod BSIZE) = unat n" "unat n < 2 ^ 31"
proof -
  have c: "unat off + unat n \<le> unat (i_size x)" "unat off mod BSIZE + unat n \<le> BSIZE" "unat off div BSIZE < NDIRECT"
    using assms by (auto simp: in_block_def)
  have "unat off + unat n < 2 ^ 32" using c(1) unat_lt2p_u32 [of "i_size x"] by linarith
  then show o: "unat (off + n) = unat off + unat n" by (subst unat_add_lem [THEN iffD1]) simp_all
  show "off \<le> i_size x" "\<not> off + n < off" "\<not> off + n > i_size x" "0 < unat n"
    using c(1) assms by (auto simp: word_le_nat_alt word_less_nat_alt o in_block_def)
  have "unat off = unat off div BSIZE * BSIZE + unat off mod BSIZE" by simp
  then have "unat off + unat n \<le> unat off div BSIZE * BSIZE + BSIZE" using c(2) by linarith
  also have "\<dots> \<le> NDIRECT * BSIZE" using c(3) by (metis Suc_leI add.commute mult_Suc mult_le_mono1)
  also have "\<dots> \<le> MAXFILE * BSIZE" by (simp add: MAXFILE_def)
  finally show "unat off + unat n \<le> MAXFILE * BSIZE" .
  show "min (unat n) (BSIZE - unat off mod BSIZE) = unat n" using c(2) by simp
  show "unat n < 2 ^ 31" using c(2) by (simp add: BSIZE_def)
qed

lemma in_block_bmap:
  assumes "in_block (inodes s ip) off n"
  shows "bmap ip (of_nat (unat off div BSIZE)) s = Inr (i_addrs (inodes s ip) (unat off div BSIZE), s)"
proof -
  have b: "unat (of_nat (unat off div BSIZE) :: u32) = unat off div BSIZE"
    by (rule unat_of_nat_eq_u32) (meson assms div_le_dividend in_block_def le_less_trans unat_lt2p_u32)
  show ?thesis unfolding bmap_def b using assms by (simp add: in_block_def addr_slot_def)
qed

lemma in_block_low:
  assumes "file_state ip s" "in_block (inodes s ip) off n"
  shows "i_addrs (inodes s ip) (unat off div BSIZE) < log_start s"
proof -
  have "baddr (hview s) (inodes s ip) (unat off div BSIZE) = i_addrs (inodes s ip) (unat off div BSIZE)"
    "unat off div BSIZE < MAXFILE" using assms(2) by (auto simp: in_block_def baddr_def MAXFILE_def)
  then show ?thesis using assms unfolding file_state_def file_ok_def data_block_def in_block_def by metis
qed

lemma writei_returns:
  assumes f: "file_state ip s" and b: "in_block (inodes s ip) off n" and r: "trans_room (Suc k) s"
  obtains t where "writei ip src off n s = Inr (int (unat n), t)" "trans_room k t" "inodes t = inodes s"
proof -
  let ?a = "i_addrs (inodes s ip) (unat off div BSIZE)"
  note d = in_blockD [OF b] and low = in_block_low [OF f b]
  obtain bp u v t where w: "bread 1 ?a s = Inr (bp, u)"
    "log_write bp (upd_data bp (blit (unat off mod BSIZE) (unat n) src) u) = Inr v" "brelse bp v = Inr t"
    by (rule modify_returns [OF r low])
  have inv: "log_inv s" using f by (simp add: file_state_def)
  note e = modify_release [OF inv low w]
  have "writei_loop ip src (unat off) (unat n) s = Inr t"
    using d(5,7) b w in_block_bmap [OF b]
    by (subst writei_loop.simps) (simp add: kbind_def in_block_def writei_loop.simps [of _ _ _ 0])
  moreover have it: "inodes t = inodes s" by (rule lframe_inodes [OF e(4)])
  ultimately have "writei ip src off n s = Inr (int (unat n), t)"
    using b d(1-6) sint_small [OF d(8)] by (auto simp: writei_def kbind_def in_block_def)
  then show ?thesis using trans_room_txrun [OF r e(2,4) modify_lh [OF inv low w]] it by (rule that)
qed

lemma readi_returns:
  assumes f: "file_state ip s" and b: "in_block (inodes s ip) off n" and r: "trans_room k s"
  obtains bs t where "readi ip off n s = Inr (int (unat n), bs, t)" "trans_room k t" "inodes t = inodes s"
proof -
  let ?a = "i_addrs (inodes s ip) (unat off div BSIZE)"
  note d = in_blockD [OF b] and low = in_block_low [OF f b]
  obtain bp u where br: "bread 1 ?a s = Inr (bp, u)" by (rule trans_room_bread [OF r low])
  have inv: "log_inv s" using f by (simp add: file_state_def)
  obtain t where rel: "brelse bp u = Inr t" using brelse_returns [OF bread_step(7) [OF inv low br]] by blast
  have "readi_loop ip (unat off) (unat n) s =
      Inr (map (\<lambda>i. b_data (bufs u bp) (unat off mod BSIZE + i)) [0..<unat n], t)"
    using d(5,7) b br rel in_block_bmap [OF b]
    by (subst readi_loop.simps) (simp add: kbind_def in_block_def readi_loop.simps [of _ _ 0])
  then have "readi ip off n s = Inr (int (unat n), map (\<lambda>i. b_data (bufs u bp) (unat off mod BSIZE + i)) [0..<unat n], t)"
    using b d(1-6) sint_small [OF d(8)] by (auto simp: readi_def kbind_def in_block_def Let_def)
  moreover note e = read_release [OF inv low br rel]
  have "lh_n t = lh_n s" using dframe_log(5) [OF dframe_bufframe [OF bread_ok(10) [OF log_inv_bio [OF inv] br]]]
      dframe_log(5) [OF dframe_bframe [OF brelse_effect(1) [OF rel]]] by simp
  then have "trans_room k t" using r lframe_same [OF e(4)] txrun_inv [OF e(2) inv] e(2) by (simp add: trans_room_def txrun_def)
  ultimately show ?thesis using lframe_inodes [OF e(4)] by (rule that)
qed

section \<open>Properties of files\<close>

text \<open>
  A small file system of 1024 blocks with 200 inodes, whose bitmap block is 28 and whose log starts at
  1014; in memory, inode 5 with one block of data in an open transaction.
\<close>

definition ex_disk :: "u32 \<Rightarrow> block" where
  "ex_disk b =
     (if b = 1 then put32 0 1024 (put32 4 985 (put32 8 200 (put32 12 10 (\<lambda>_. 0))))
      else if b = 28 then (\<lambda>_. 255) else (\<lambda>_. 0))"

definition ex_file_inode :: inode where
  "ex_file_inode = \<lparr>i_dev = 1, i_inum = 5, i_ref = 1, i_flags = I_BUSY OR I_VALID, i_type = T_FILE, i_major = 0, i_minor = 0,
     i_nlink = 1, i_size = 512, i_addrs = (\<lambda>i. if i = 0 then 100 else 0)\<rparr>"

definition ex_on :: "inode \<Rightarrow> 'a \<Rightarrow> 'a cons_state_scheme" where
  "ex_on x m = ex_cons ex_disk (\<lambda>i. if i = 0 then x else ex_inode) m"

definition ex_file :: "'a \<Rightarrow> 'a cons_state_scheme" where "ex_file m = ex_on ex_file_inode m"

lemma ex_disk_head: "head_n (ex_disk 1014) = 0"
  by (simp add: ex_disk_def head_n_def)

lemma ex_disk_sb: "sb_size (dsb (\<lambda>x. if x < 1014 then ex_disk x else (\<lambda>_. 0))) = 1024"
  "sb_ninodes (dsb (\<lambda>x. if x < 1014 then ex_disk x else (\<lambda>_. 0))) = 200"
  by (simp_all add: dsb_def decode_sb_def ex_disk_def)

lemma ex_disk_bitmap:
  assumes "b < 1024"
  shows "bblock (\<lambda>x. if x < 1014 then ex_disk x else (\<lambda>_. 0)) b = 28" "dused (\<lambda>x. if x < 1014 then ex_disk x else (\<lambda>_. 0)) b"
proof -
  have "unat b < 1024" using assms by (simp add: word_less_nat_alt)
  then have "unat (BBLOCK b 200) = 28" by (simp add: BBLOCK_unat)
  then show bb: "bblock (\<lambda>x. if x < 1014 then ex_disk x else (\<lambda>_. 0)) b = 28"
    by (simp add: bblock_def ex_disk_sb word_unat_eq_iff)
  have "bit (255 :: u8) (i mod 8)" for i :: nat
  proof -
    have "(255 :: u8) = mask 8" by (simp add: mask_eq_exp_minus_1)
    then show ?thesis by (simp only: bit_mask_iff) simp
  qed
  then show "dused (\<lambda>x. if x < 1014 then ex_disk x else (\<lambda>_. 0)) b"
    by (simp add: dused_def bb block_free_bit ex_disk_def)
qed

lemma ex_disk_geo: "fs_geo 1014 (\<lambda>x. if x < 1014 then ex_disk x else (\<lambda>_. 0))"
  using ex_disk_bitmap by (auto simp: fs_geo_def ex_disk_sb last_meta_def)

lemma ex_on_ok:
  assumes a: "i_addrs x = (\<lambda>i. if i = 0 then 100 else 0)"
  shows "file_state 0 (ex_on x m)" "trans_room 4 (ex_on x m)" "inodes (ex_on x m) 0 = x"
    "sb_ninodes (dsb (hview (ex_on x m))) = 200" "hview (ex_on x m) = (\<lambda>b. if b < 1014 then ex_disk b else (\<lambda>_. 0))"
proof -
  have x: "ex_on x m = ex_fs ex_disk (\<lambda>i. if i = 0 then x else ex_inode) (ex_tail m)"
    by (simp add: ex_on_def ex_cons_def)
  note e = ex_fs_ok [where d = ex_disk and I = "\<lambda>i. if i = 0 then x else ex_inode" and m = "ex_tail m",
      OF ex_disk_head, folded x]
  show i: "inodes (ex_on x m) 0 = x" by (simp add: e)
  let ?d = "\<lambda>x. if x < 1014 then ex_disk x else (\<lambda>_. 0)"
  have b: "baddr ?d x n = (if n = 0 then 100 else 0)" for n
    by (simp add: baddr_def a NDIRECT_def)
  have lm: "last_meta ?d = 28" by (simp add: last_meta_def ex_disk_sb ex_disk_bitmap)
  have nd: "i_addrs x NDIRECT = 0" by (simp add: a NDIRECT_def)
  have "file_ok 1014 ?d x"
    using ex_disk_bitmap(2) [of 100] by (simp add: file_ok_def b data_block_def lm ex_disk_sb nd)
  then show "file_state 0 (ex_on x m)" using ex_disk_geo by (simp add: file_state_def e)
  show "trans_room 4 (ex_on x m)" by (simp add: trans_room_def e NBUF_def LOGSIZE_def)
  show "sb_ninodes (dsb (hview (ex_on x m))) = 200" by (simp add: e ex_disk_sb)
  show "hview (ex_on x m) = (\<lambda>b. if b < 1014 then ex_disk b else (\<lambda>_. 0))" by (rule e(8))
qed

lemma ex_file_ok:
  "file_state 0 (ex_file m)" "trans_room 4 (ex_file m)" "inodes (ex_file m) 0 = ex_file_inode"
  "sb_ninodes (dsb (hview (ex_file m))) = 200"
  unfolding ex_file_def by (rule ex_on_ok; simp add: ex_file_inode_def)+

lemma ex_file_in_block: "unat off + unat n \<le> 512 \<Longrightarrow> 0 < n \<Longrightarrow> in_block ex_file_inode off n"
proof -
  assume a: "unat off + unat n \<le> 512" "0 < n"
  then have "0 < unat n" by (simp add: word_less_nat_alt)
  then have "unat off div 512 = 0" using a(1) by simp
  then show ?thesis using a by (simp add: in_block_def ex_file_inode_def BSIZE_def NDIRECT_def T_FILE_def T_DEV_def)
qed







text \<open>
  C15: The checks of \<open>writei\<close> on a regular file are exact: it fails with -1 and changes nothing precisely when
  the offset is beyond the end, the range overflows a word or it does not fit the largest file.
\<close>

theorem writei_error:
  assumes "i_type (inodes s ip) \<noteq> T_DEV"
  shows "writei ip src off n s = Inr (-1, t) \<longleftrightarrow>
    t = s \<and> (i_size (inodes s ip) < off \<or> 2 ^ 32 \<le> unat off + unat n \<or> MAXFILE * BSIZE < unat off + unat n)"
proof -
  have ov: "off + n < off \<longleftrightarrow> 2 ^ 32 \<le> unat off + unat n"
    using unat_add_lem [of off n] unat_plus_simple [of off n] by (simp add: not_less [symmetric]) (metis not_le)
  have no: "\<not> off + n < off \<Longrightarrow> unat (off + n) = unat off + unat n" by (simp add: not_less unat_plus_simple)
  have sn: "sint n \<noteq> -1" if "unat off + unat n \<le> MAXFILE * BSIZE"
  proof -
    have "unat n < 2 ^ 31" using that by (simp add: MAXFILE_def NDIRECT_def NINDIRECT_def BSIZE_def)
    then have "sint n = int (unat n)" by (rule sint_small)
    then show ?thesis by linarith
  qed
  show ?thesis
    using assms ov no sn by (auto simp: writei_def kbind_returns not_less split: if_splits)
qed

theorem writei_error_witness:
  "writei 0 (\<lambda>_. 7) 513 1 (ex_file () :: cons_state) = Inr (-1, ex_file ())"
  using writei_error [of "ex_file () :: cons_state" 0 "\<lambda>_. 7" 513 1 "ex_file ()"]
  by (simp add: ex_file_ok, simp add: ex_file_inode_def T_FILE_def T_DEV_def)

section \<open>Directories as tables of names\<close>

text \<open>The entry at offset \<open>off\<close> of a directory.\<close>

definition entry :: "fsdisk \<Rightarrow> inode \<Rightarrow> nat \<Rightarrow> dirent" where
  "entry d x off = decode_dirent (map (fbyte d x) [off..<off + 16])"

definition entry_is :: "block \<Rightarrow> dirent \<Rightarrow> bool" where
  "entry_is name de \<longleftrightarrow> de_inum de \<noteq> 0 \<and> namecmp name (de_name de) = 0"

text \<open>A directory in order: its file is sound and its size is a number of entries.\<close>

definition dir_state :: "nat \<Rightarrow> 'a fs_state_scheme \<Rightarrow> bool" where
  "dir_state dp s \<longleftrightarrow> file_state dp s \<and> i_type (inodes s dp) = T_DIR \<and> 16 dvd unat (i_size (inodes s dp)) \<and>
     unat (i_size (inodes s dp)) \<le> MAXFILE * BSIZE"

text \<open>A run that keeps the directory: its size and all its bytes.\<close>

definition dir_run :: "nat \<Rightarrow> 'a fs_state_scheme \<Rightarrow> 'a fs_state_scheme \<Rightarrow> bool" where
  "dir_run dp s t \<longleftrightarrow> file_run dp s t \<and>
     (\<forall>q < MAXFILE * BSIZE. fbyte (hview t) (inodes t dp) q = fbyte (hview s) (inodes s dp) q)"

lemma dir_run_trans: "dir_run dp s t \<Longrightarrow> dir_run dp t u \<Longrightarrow> dir_run dp s u"
  unfolding dir_run_def using file_run_trans [of dp s t u] by simp

lemma dir_run_refl: "dir_state dp s \<Longrightarrow> dir_run dp s s"
  by (simp add: dir_run_def dir_state_def file_state_def file_run_refl)

lemma dir_run_inode:
  assumes "dir_run dp s t"
  shows "i_size (inodes t dp) = i_size (inodes s dp)" "i_type (inodes t dp) = i_type (inodes s dp)"
    "i_dev (inodes t dp) = i_dev (inodes s dp)" "i_inum (inodes t dp) = i_inum (inodes s dp)"
  using file_runD(5) [of dp s t] assms by (auto simp: dir_run_def)

lemma dir_run_state: "dir_run dp s t \<Longrightarrow> dir_state dp s \<Longrightarrow> dir_state dp t"
  using dir_run_inode [of dp s t] file_run_state [of dp s t] by (auto simp: dir_state_def dir_run_def)

lemma dir_run_entry:
  assumes "dir_run dp s t" "off + 16 \<le> MAXFILE * BSIZE"
  shows "entry (hview t) (inodes t dp) off = entry (hview s) (inodes s dp) off"
  unfolding entry_def using assms by (intro arg_cong [of _ _ decode_dirent] map_cong) (auto simp: dir_run_def)

lemma entry_fits: "16 dvd off \<Longrightarrow> 16 dvd k \<Longrightarrow> off < k \<Longrightarrow> off + 16 \<le> (k :: nat)"
  by (elim dvdE) simp

lemma T_DIR_not_DEV [simp]: "T_DIR \<noteq> T_DEV"
  by (simp add: T_DIR_def T_DEV_def)

lemma read_dirent_ok:
  assumes d: "dir_state dp s" and o: "16 dvd off" "off < unat (i_size (inodes s dp))"
    and rd: "read_dirent dp off s = Inr (de, t)"
  shows "dir_run dp s t" "de = entry (hview s) (inodes s dp) off"
proof -
  from rd obtain bs where r: "readi dp (of_nat off) 16 s = Inr (16, bs, t)" "de = decode_dirent bs"
    by (auto simp: read_dirent_def kbind_returns split: if_splits)
  have f: "file_state dp s" "unat (i_size (inodes s dp)) \<le> MAXFILE * BSIZE" "i_type (inodes s dp) \<noteq> T_DEV"
    using d by (auto simp: dir_state_def)
  have fit: "off + 16 \<le> unat (i_size (inodes s dp))" using entry_fits o d by (simp add: dir_state_def)
  have u: "unat (of_nat off :: u32) = off" using fit unat_lt2p_u32 [of "i_size (inodes s dp)"] by (intro unat_of_nat_eq_u32) simp
  note k = readi_ok [OF f r(1)]
  show "dir_run dp s t" using k(1,4) by (simp add: dir_run_def)
  show "de = entry (hview s) (inodes s dp) off" using k(2) fit by (simp add: r(2) entry_def u)
qed

lemma dirlookup_from_ok:
  assumes "dir_state dp s" "16 dvd off" "dirlookup_from dp name off s = Inr (r, t)"
  shows "(case r of
      None \<Rightarrow> dir_run dp s t \<and>
        (\<forall>o'. 16 dvd o' \<and> off \<le> o' \<and> o' < unat (i_size (inodes s dp)) \<longrightarrow> \<not> entry_is name (entry (hview s) (inodes s dp) o'))
    | Some (ip, o') \<Rightarrow> 16 dvd o' \<and> off \<le> o' \<and> o' < unat (i_size (inodes s dp)) \<and> entry_is name (entry (hview s) (inodes s dp) o') \<and>
        (\<forall>p. 16 dvd p \<and> off \<le> p \<and> p < o' \<longrightarrow> \<not> entry_is name (entry (hview s) (inodes s dp) p)) \<and>
        (\<exists>u. dir_run dp s u \<and> iget (i_dev (inodes s dp)) (ucast (de_inum (entry (hview s) (inodes s dp) o'))) u = Inr (ip, t)))"
  using assms
proof (induction "2 ^ 32 - off" arbitrary: off s rule: less_induct)
  case less
  let ?k = "unat (i_size (inodes s dp))"
  show ?case
  proof (cases "off < ?k")
    case False
    then show ?thesis using less.prems by (subst (asm) dirlookup_from.simps) (auto intro: dir_run_refl)
  next
    case True
    then obtain de u where rd: "read_dirent dp off s = Inr (de, u)"
      and c: "(if entry_is name de then kbind (iget (i_dev (inodes u dp)) (ucast (de_inum de)) u) (\<lambda>(ip, s). Inr (Some (ip, off), s))
           else dirlookup_from dp name (off + 16) u) = Inr (r, t)"
      using less.prems(3) by (subst (asm) dirlookup_from.simps) (auto simp: kbind_returns entry_is_def)
    note k = read_dirent_ok [OF less.prems(1,2) True rd]
    show ?thesis
    proof (cases "entry_is name de")
      case True
      then show ?thesis using c k less.prems(2) \<open>off < ?k\<close> dir_run_inode [OF k(1)] by (auto simp: kbind_returns)
    next
      case False
      have fit: "off + 16 \<le> ?k" "?k \<le> MAXFILE * BSIZE" "?k < 2 ^ 32"
        using entry_fits less.prems(1,2) True unat_lt2p_u32 by (auto simp: dir_state_def)
      have e: "entry (hview u) (inodes u dp) p = entry (hview s) (inodes s dp) p" if "16 dvd p" "p < ?k" for p
        using dir_run_entry [OF k(1)] entry_fits [of p ?k] that less.prems(1) fit(2) by (simp add: dir_state_def)
      have du: "dir_state dp u" by (rule dir_run_state [OF k(1) less.prems(1)])
      have "dirlookup_from dp name (off + 16) u = Inr (r, t)" using c False by simp
      note h = less.hyps [OF _ du _ this]
      have split: "p = off \<or> off + 16 \<le> p" if "16 dvd p" "off \<le> p" for p
        using that entry_fits [of off p] less.prems(2) by (cases "off = p") auto
      have z: "i_size (inodes u dp) = i_size (inodes s dp)" "i_dev (inodes u dp) = i_dev (inodes s dp)"
        using dir_run_inode [OF k(1)] by simp_all
      show ?thesis
      proof (cases r)
        case None
        have "dir_run dp u t" "\<forall>p. 16 dvd p \<and> off + 16 \<le> p \<and> p < ?k \<longrightarrow> \<not> entry_is name (entry (hview s) (inodes s dp) p)"
          using h fit less.prems(2) z e by (auto simp: None)
        moreover have "\<not> entry_is name (entry (hview s) (inodes s dp) p)" if "16 dvd p" "off \<le> p" "p < ?k" for p
          using split [OF that(1,2)] calculation(2) that False k(2) by auto
        ultimately show ?thesis using None dir_run_trans [OF k(1)] by auto
      next
        case (Some q)
        obtain ip o' where q: "q = (ip, o')" by (cases q)
        have o: "16 dvd o'" "off + 16 \<le> o'" "o' < ?k" and m: "entry_is name (entry (hview u) (inodes u dp) o')"
          and b: "\<forall>p. 16 dvd p \<and> off + 16 \<le> p \<and> p < o' \<longrightarrow> \<not> entry_is name (entry (hview u) (inodes u dp) p)"
          and g: "\<exists>v. dir_run dp u v \<and> iget (i_dev (inodes u dp)) (ucast (de_inum (entry (hview u) (inodes u dp) o'))) v = Inr (ip, t)"
          using h fit less.prems(2) z by (simp_all add: Some q)
        have "\<not> entry_is name (entry (hview s) (inodes s dp) p)" if "16 dvd p" "off \<le> p" "p < o'" for p
        proof (cases "p = off")
          case True then show ?thesis using False k(2) by simp
        next
          case False
          then have "\<not> entry_is name (entry (hview u) (inodes u dp) p)" using split [OF that(1,2)] b that by blast
          moreover have "p < ?k" using that(3) o(3) by (rule less_trans)
          ultimately show ?thesis using e [OF that(1)] by simp
        qed
        moreover have "\<exists>v. dir_run dp s v \<and> iget (i_dev (inodes s dp)) (ucast (de_inum (entry (hview s) (inodes s dp) o'))) v = Inr (ip, t)"
          using g z e [OF o(1,3)] dir_run_trans [OF k(1)] by auto
        ultimately show ?thesis using o m e [OF o(1,3)] by (simp add: Some q)
      qed
    qed
  qed
qed

lemma empty_from_ok:
  assumes "dir_state dp s" "16 dvd off" "off \<le> unat (i_size (inodes s dp))" "empty_from dp off s = Inr (o', t)"
  shows "dir_run dp s t \<and> 16 dvd o' \<and> o' \<le> unat (i_size (inodes s dp)) \<and>
    (o' < unat (i_size (inodes s dp)) \<longrightarrow> de_inum (entry (hview s) (inodes s dp) o') = 0)"
  using assms
proof (induction "2 ^ 32 - off" arbitrary: off s rule: less_induct)
  case less
  let ?k = "unat (i_size (inodes s dp))"
  show ?case
  proof (cases "off < ?k")
    case False
    then show ?thesis using less.prems by (subst (asm) empty_from.simps) (auto intro: dir_run_refl)
  next
    case True
    then obtain de u where rd: "read_dirent dp off s = Inr (de, u)"
      and c: "(if de_inum de = 0 then Inr (off, u) else empty_from dp (off + 16) u) = Inr (o', t)"
      using less.prems(4) by (subst (asm) empty_from.simps) (auto simp: kbind_returns)
    note k = read_dirent_ok [OF less.prems(1,2) True rd]
    have fit: "off + 16 \<le> ?k" "?k \<le> MAXFILE * BSIZE" "?k < 2 ^ 32"
      using entry_fits less.prems(1,2) True unat_lt2p_u32 by (auto simp: dir_state_def)
    show ?thesis
    proof (cases "de_inum de = 0")
      case True
      then show ?thesis using c k less.prems(2,3) by auto
    next
      case False
      then have e: "empty_from dp (off + 16) u = Inr (o', t)" using c by simp
      have z: "i_size (inodes u dp) = i_size (inodes s dp)" using dir_run_inode [OF k(1)] by simp
      have "dir_run dp u t \<and> 16 dvd o' \<and> o' \<le> ?k \<and> (o' < ?k \<longrightarrow> de_inum (entry (hview u) (inodes u dp) o') = 0)"
        using less.hyps [OF _ dir_run_state [OF k(1) less.prems(1)] _ _ e] fit less.prems(2) z by simp
      moreover have "entry (hview u) (inodes u dp) o' = entry (hview s) (inodes s dp) o'" if "16 dvd o'" "o' < ?k"
        using dir_run_entry [OF k(1)] entry_fits [of o' ?k] that less.prems(1) fit(2) by (simp add: dir_state_def)
      ultimately show ?thesis using dir_run_trans [OF k(1)] by auto
    qed
  qed
qed

lemma decode_encode:
  assumes "\<And>i. i < 16 \<Longrightarrow> bs ! i = encode_dirent de i" "length bs = 16"
  shows "de_inum (decode_dirent bs) = de_inum de" "i < 14 \<Longrightarrow> de_name (decode_dirent bs) i = de_name de i"
proof -
  have a: "arr bs i = encode_dirent de i" if "i < 16" for i using assms that by (simp add: arr_def)
  have "get16 (arr bs) 0 = get16 (encode_dirent de) 0" by (simp add: get16_def a)
  then show "de_inum (decode_dirent bs) = de_inum de" by (simp add: decode_dirent_def encode_dirent_def)
  show "i < 14 \<Longrightarrow> de_name (decode_dirent bs) i = de_name de i"
    using a [of "2 + i"] by (simp add: decode_dirent_def encode_dirent_def put16_def blit_def DIRSIZ_def)
qed

lemma entry_is_cstr: "entry_is name de \<longleftrightarrow> de_inum de \<noteq> 0 \<and> cstr DIRSIZ name = cstr DIRSIZ (de_name de)"
  by (simp add: entry_is_def namecmp_def strncmp_eq_0)

text \<open>What \<open>dirlink\<close> leaves: a new entry at \<open>off\<close>, the other entries as before.\<close>

definition linked :: "nat \<Rightarrow> block \<Rightarrow> u32 \<Rightarrow> nat \<Rightarrow> 'a fs_state_scheme \<Rightarrow> 'a fs_state_scheme \<Rightarrow> bool" where
  "linked dp name inum off s t \<longleftrightarrow>
     dir_state dp t \<and> 16 dvd off \<and> off \<le> unat (i_size (inodes s dp)) \<and>
     unat (i_size (inodes t dp)) = max (unat (i_size (inodes s dp))) (off + 16) \<and>
     (off < unat (i_size (inodes s dp)) \<longrightarrow> de_inum (entry (hview s) (inodes s dp) off) = 0) \<and>
     de_inum (entry (hview t) (inodes t dp) off) = ucast inum \<and>
     cstr DIRSIZ (de_name (entry (hview t) (inodes t dp) off)) = cstr DIRSIZ name \<and>
     (\<forall>p. 16 dvd p \<and> p < unat (i_size (inodes s dp)) \<longrightarrow> \<not> entry_is name (entry (hview s) (inodes s dp) p)) \<and>
     (\<forall>p. 16 dvd p \<and> p < unat (i_size (inodes t dp)) \<and> p \<noteq> off \<longrightarrow>
        entry (hview t) (inodes t dp) p = entry (hview s) (inodes s dp) p)"

lemma wrote_entry:
  assumes w: "wrote dp (encode_dirent de) off 16 s t" and d: "dir_state dp s" and o: "16 dvd off" "off \<le> unat (i_size (inodes s dp))"
    "off + 16 \<le> MAXFILE * BSIZE"
  shows "dir_state dp t" "unat (i_size (inodes t dp)) = max (unat (i_size (inodes s dp))) (off + 16)"
    "de_inum (entry (hview t) (inodes t dp) off) = de_inum de"
    "i < 14 \<Longrightarrow> de_name (entry (hview t) (inodes t dp) off) i = de_name de i"
    "16 dvd p \<Longrightarrow> p + 16 \<le> MAXFILE * BSIZE \<Longrightarrow> p \<noteq> off \<Longrightarrow> entry (hview t) (inodes t dp) p = entry (hview s) (inodes s dp) p"
proof -
  have c: "\<And>q. q < MAXFILE * BSIZE \<Longrightarrow> fbyte (hview t) (inodes t dp) q =
      (if off \<le> q \<and> q < off + 16 then encode_dirent de (q - off) else fbyte (hview s) (inodes s dp) q)"
    and f: "file_state dp t" and sz: "unat (i_size (inodes t dp)) = max (unat (i_size (inodes s dp))) (off + 16)"
    and i: "\<exists>A k. inodes t = (inodes s)(dp := (inodes s dp)\<lparr>i_addrs := A, i_size := k\<rparr>)"
    using w by (simp_all add: wrote_def)
  show "unat (i_size (inodes t dp)) = max (unat (i_size (inodes s dp))) (off + 16)" by (rule sz)
  have "i_type (inodes t dp) = T_DIR" using i d by (auto simp: dir_state_def)
  moreover have "16 dvd max (unat (i_size (inodes s dp))) (off + 16)" using d o(1) by (simp add: dir_state_def max_def)
  ultimately show "dir_state dp t" using f o(3) sz d by (simp add: dir_state_def)
  have "map (fbyte (hview t) (inodes t dp)) [off..<off + 16] ! i = encode_dirent de i" if "i < 16" for i
    using that c [of "off + i"] o(3) by simp
  from decode_encode [OF this] show "de_inum (entry (hview t) (inodes t dp) off) = de_inum de"
    "i < 14 \<Longrightarrow> de_name (entry (hview t) (inodes t dp) off) i = de_name de i" by (simp_all add: entry_def)
  show "entry (hview t) (inodes t dp) p = entry (hview s) (inodes s dp) p" if p: "16 dvd p" "p + 16 \<le> MAXFILE * BSIZE" "p \<noteq> off"
  proof -
    have "p + 16 \<le> off \<or> off + 16 \<le> p" using entry_fits [of p off] entry_fits [of off p] p o(1) by linarith
    then show ?thesis unfolding entry_def using c p by (intro arg_cong [of _ _ decode_dirent] map_cong) auto
  qed
qed

lemma dirlink_ok:
  assumes d: "dir_state dp s" and i: "i_inum (inodes s dp) < sb_ninodes (dsb (hview s))"
    and dl: "dirlink dp name inum s = Inr (0, t)"
  obtains off where "linked dp name inum off s t"
proof -
  let ?de = "\<lparr>de_inum = ucast inum, de_name = strncpy (\<lambda>_. 0) name DIRSIZ\<rparr>" and ?k = "unat (i_size (inodes s dp))"
  from dl obtain r u where l': "dirlookup dp name s = Inr (r, u)" and c: "(case r of
         Some (ip, _) \<Rightarrow> kbind (iput ip u) (\<lambda>s. Inr (-1, s))
       | None \<Rightarrow> kbind (empty_from dp 0 u) (\<lambda>(off, s). kbind (writei dp (encode_dirent ?de) (of_nat off) 16 s)
             (\<lambda>(r, s). if r \<noteq> 16 then Inl (Panic ''dirlink'') else Inr (0, s)))) = Inr (0 :: int, t)"
    by (auto simp: dirlink_def kbind_returns)
  have "r = None" using c by (cases r) (auto simp: kbind_returns)
  with l' c obtain off v where l: "dirlookup dp name s = Inr (None, u)" and e: "empty_from dp 0 u = Inr (off, v)"
    and w: "writei dp (encode_dirent ?de) (of_nat off) 16 v = Inr (16, t)"
    by (auto simp: kbind_returns split: if_splits)
  have lf: "dirlookup_from dp name 0 s = Inr (None, u)" using l d by (simp add: dirlookup_def dir_state_def)
  have r1: "dir_run dp s u" and none: "\<forall>p. 16 dvd p \<and> p < ?k \<longrightarrow> \<not> entry_is name (entry (hview s) (inodes s dp) p)"
    using dirlookup_from_ok [OF d _ lf] by auto
  have du: "dir_state dp u" by (rule dir_run_state [OF r1 d])
  have z: "i_size (inodes u dp) = i_size (inodes s dp)" using dir_run_inode [OF r1] by simp
  have r2: "dir_run dp u v" and o: "16 dvd off" "off \<le> ?k" "off < ?k \<longrightarrow> de_inum (entry (hview u) (inodes u dp) off) = 0"
    using empty_from_ok [OF du _ _ e] z by auto
  have r: "dir_run dp s v" by (rule dir_run_trans [OF r1 r2])
  have dv: "dir_state dp v" by (rule dir_run_state [OF r d])
  have eq: "entry (hview v) (inodes v dp) p = entry (hview s) (inodes s dp) p"
    "entry (hview u) (inodes u dp) p = entry (hview s) (inodes s dp) p" if "p + 16 \<le> MAXFILE * BSIZE" for p
    using dir_run_entry [OF r that] dir_run_entry [OF r1 that] by simp_all
  have zv: "i_size (inodes v dp) = i_size (inodes s dp)" "i_type (inodes v dp) = T_DIR" "i_inum (inodes v dp) = i_inum (inodes s dp)"
    using dir_run_inode [OF r] d by (simp_all add: dir_state_def)
  have iv: "i_inum (inodes v dp) < sb_ninodes (dsb (hview v))" using i zv(3) file_runD(6) [of dp s v] r by (simp add: dir_run_def)
  have u: "unat (of_nat off :: u32) = off" using o(2) unat_lt2p_u32 [of "i_size (inodes s dp)"] by (intro unat_of_nat_eq_u32) simp
  have ty: "i_type (inodes v dp) \<noteq> T_DEV" by (simp add: zv)
  have fv: "file_state dp v" using dv by (simp add: dir_state_def)
  have wr: "wrote dp (encode_dirent ?de) off 16 v t" using writei_ok [OF fv iv w ty] by (simp add: u)
  have mx: "off + 16 \<le> MAXFILE * BSIZE" by (rule writei_cases [OF w ty]) (simp_all add: u)
  note x = wrote_entry [OF wr dv o(1) _ mx]
  have nm: "cstr DIRSIZ (de_name (entry (hview t) (inodes t dp) off)) = cstr DIRSIZ (strncpy (\<lambda>_. 0) name DIRSIZ)"
    using x(4) o(2) zv by (intro cstr_cong) (simp add: DIRSIZ_def)
  have lt: "p + 16 \<le> MAXFILE * BSIZE" if "16 dvd p" "p < unat (i_size (inodes t dp))" for p
    using entry_fits [of p "unat (i_size (inodes t dp))"] that x(1) o(2) zv by (auto simp: dir_state_def)
  have "linked dp name inum off s t" unfolding linked_def
    using x o zv none nm eq lt mx by (auto simp: cstr_strncpy)
  then show ?thesis by (rule that)
qed

text \<open>A directory with one free entry.\<close>

definition ex_dir_inode :: inode where
  "ex_dir_inode = ex_file_inode\<lparr>i_type := T_DIR, i_size := 16\<rparr>"

definition ex_dir :: "'a \<Rightarrow> 'a cons_state_scheme" where "ex_dir m = ex_on ex_dir_inode m"

lemma ex_dir_in_block: "in_block ex_dir_inode 0 16"
  by (simp add: in_block_def ex_dir_inode_def ex_file_inode_def BSIZE_def NDIRECT_def T_DIR_def T_DEV_def)

lemma ex_dir_ok:
  "dir_state 0 (ex_dir m)" "trans_room 4 (ex_dir m)" "inodes (ex_dir m) 0 = ex_dir_inode"
  "sb_ninodes (dsb (hview (ex_dir m))) = 200" "de_inum (entry (hview (ex_dir m)) ex_dir_inode 0) = 0"
proof -
  have a: "i_addrs ex_dir_inode = (\<lambda>i. if i = 0 then 100 else 0)" by (simp add: ex_dir_inode_def ex_file_inode_def)
  note e = ex_on_ok [OF a, where m = m, folded ex_dir_def]
  show "trans_room 4 (ex_dir m)" "inodes (ex_dir m) 0 = ex_dir_inode" "sb_ninodes (dsb (hview (ex_dir m))) = 200" by (rule e)+
  show "dir_state 0 (ex_dir m)" using e by (simp add: dir_state_def, simp add: ex_dir_inode_def MAXFILE_def NDIRECT_def NINDIRECT_def BSIZE_def)
  have "fbyte (hview (ex_dir m)) ex_dir_inode q = 0" if "q < 16" for q
    using that by (simp add: fbyte_def baddr_def a e ex_disk_def BSIZE_def NDIRECT_def Let_def)
  then show "de_inum (entry (hview (ex_dir m)) ex_dir_inode 0) = 0"
    by (simp add: entry_def decode_dirent_def get16_def arr_def le16_def)
qed

lemma ex_dir_read:
  assumes "dir_state 0 s" "trans_room k s" "inodes s 0 = ex_dir_inode"
  obtains t where "read_dirent 0 0 s = Inr (entry (hview s) (inodes s 0) 0, t)" "trans_room k t" "inodes t = inodes s" "dir_run 0 s t"
proof -
  have f: "file_state 0 s" using assms(1) by (simp add: dir_state_def)
  have b: "in_block (inodes s 0) 0 16" using ex_dir_in_block assms(3) by simp
  obtain bs t where t: "readi 0 0 16 s = Inr (int (unat (16 :: u32)), bs, t)" "trans_room k t" "inodes t = inodes s"
    by (rule readi_returns [OF f b assms(2)])
  then have "read_dirent 0 0 s = Inr (decode_dirent bs, t)" by (simp add: read_dirent_def kbind_def)
  moreover from read_dirent_ok [OF assms(1) _ _ this] have "dir_run 0 s t" "decode_dirent bs = entry (hview s) (inodes s 0) 0"
    using assms(3) by (simp_all add: ex_dir_inode_def)
  ultimately show ?thesis using t that by simp
qed

lemma ex_dir_link: "\<exists>t. dirlink 0 (\<lambda>_. 97) 7 (ex_dir m) = Inr (0, t)"
proof -
  let ?s = "ex_dir m" and ?de = "\<lparr>de_inum = ucast (7 :: u32), de_name = strncpy (\<lambda>_. 0) (\<lambda>_. 97) DIRSIZ\<rparr>"
  note e = ex_dir_ok [where m = m]
  have k: "unat (i_size ex_dir_inode) = 16" by (simp add: ex_dir_inode_def)
  obtain u where u: "read_dirent 0 0 ?s = Inr (entry (hview ?s) (inodes ?s 0) 0, u)" "trans_room 4 u" "inodes u = inodes ?s" "dir_run 0 ?s u"
    by (rule ex_dir_read [OF e(1-3)])
  have du: "dir_state 0 u" by (rule dir_run_state [OF u(4) e(1)])
  have l: "dirlookup 0 (\<lambda>_. 97) ?s = Inr (None, u)"
    using e u k by (simp add: dirlookup_def dir_state_def dirlookup_from.simps kbind_def)
  have iu: "inodes u 0 = ex_dir_inode" using u(3) e(3) by simp
  obtain v where v: "read_dirent 0 0 u = Inr (entry (hview u) (inodes u 0) 0, v)" "trans_room 4 v" "inodes v = inodes u" "dir_run 0 u v"
    by (rule ex_dir_read [OF du u(2) iu])
  have "entry (hview u) (inodes u 0) 0 = entry (hview ?s) (inodes ?s 0) 0"
    by (rule dir_run_entry [OF u(4)]) (simp add: MAXFILE_def NDIRECT_def NINDIRECT_def BSIZE_def)
  then have m: "empty_from 0 0 u = Inr (0, v)"
    using v k iu e by (simp add: empty_from.simps kbind_def)
  have b: "in_block (inodes v 0) 0 16" using ex_dir_in_block v(3) iu by simp
  have f: "file_state 0 v" using dir_run_state [OF v(4) du] by (simp add: dir_state_def)
  have r: "trans_room (Suc 3) v" using v(2) by (simp add: numeral_eq_Suc)
  obtain t where "writei 0 (encode_dirent ?de) 0 16 v = Inr (int (unat (16 :: u32)), t)" by (rule writei_returns [OF f b r])
  then show ?thesis using l m by (simp add: dirlink_def kbind_def)
qed



end
