(* ===== verification/Vm.thy ===== *)
theory Vm
  imports Fs
begin

text \<open>
  Virtual memory (vm.c): page tables in memory, as the hardware walks them, the kernel part of every
  address space, growing, shrinking, copying and freeing user memory, and access to user memory by
  address. A page table is known by the kernel address of its directory.
\<close>

section \<open>Page tables\<close>

definition PTE_P :: u32 where "PTE_P = 1"
definition PTE_W :: u32 where "PTE_W = 2"
definition PTE_U :: u32 where "PTE_U = 4"
definition NPTENTRIES :: u32 where "NPTENTRIES = 1024"
definition NPDENTRIES :: nat where "NPDENTRIES = 1024"
definition KERNLINK :: u32 where "KERNLINK = KERNBASE + EXTMEM"

definition PDX :: "u32 \<Rightarrow> u32" where "PDX va = drop_bit 22 va AND 0x3FF"
definition PTX :: "u32 \<Rightarrow> u32" where "PTX va = drop_bit 12 va AND 0x3FF"
definition PTE_ADDR :: "u32 \<Rightarrow> u32" where "PTE_ADDR pte = pte AND NOT 0xFFF"

text \<open>
  \<open>data_addr\<close> is the address of the kernel's data, fixed by the linker; \<open>cr3\<close> and \<open>ts_esp0\<close> are the
  registers the switch of an address space sets.
\<close>

record vm_state = cons_state +
  data_addr :: u32
  kpgdir :: u32
  cr3 :: u32
  ts_esp0 :: u32

definition walkpgdir :: "u32 \<Rightarrow> u32 \<Rightarrow> bool \<Rightarrow> 'a kmem_state_scheme \<Rightarrow> u32 \<times> 'a kmem_state_scheme" where
  "walkpgdir dir va alloc s =
     (let pde = dir + 4 * PDX va
      in if load32 (mem s) pde AND PTE_P \<noteq> 0 then (p2v (PTE_ADDR (load32 (mem s) pde)) + 4 * PTX va, s)
         else if \<not> alloc then (0, s)
         else
           let (pgtab, s) = kalloc s
           in if pgtab = 0 then (0, s)
              else
                let s = s\<lparr>mem := memset pgtab 0 PGSIZE (mem s)\<rparr>;
                    s = s\<lparr>mem := store32 pde (v2p pgtab OR PTE_P OR PTE_W OR PTE_U) (mem s)\<rparr>
                in (pgtab + 4 * PTX va, s))"

text \<open>The loop of \<open>mappages\<close>, \<open>k\<close> pages before the last one.\<close>

fun mappages_loop :: "nat \<Rightarrow> u32 \<Rightarrow> u32 \<Rightarrow> u32 \<Rightarrow> u32 \<Rightarrow> 'a kmem_state_scheme \<Rightarrow> (int \<times> 'a kmem_state_scheme) kres" where
  "mappages_loop k dir a pa perm s =
     (let (pte, s) = walkpgdir dir a True s
      in if pte = 0 then Inr (-1, s)
         else if load32 (mem s) pte AND PTE_P \<noteq> 0 then Inl (Panic ''remap'')
         else
           let s = s\<lparr>mem := store32 pte (pa OR perm OR PTE_P) (mem s)\<rparr>
           in case k of 0 \<Rightarrow> Inr (0, s) | Suc j \<Rightarrow> mappages_loop j dir (a + PGSIZE) (pa + PGSIZE) perm s)"

definition mappages :: "u32 \<Rightarrow> u32 \<Rightarrow> u32 \<Rightarrow> u32 \<Rightarrow> u32 \<Rightarrow> 'a kmem_state_scheme \<Rightarrow> (int \<times> 'a kmem_state_scheme) kres" where
  "mappages dir va len pa perm s =
     (let a = PGROUNDDOWN va;
          last = PGROUNDDOWN (va + len - 1)
      in mappages_loop (unat ((last - a) div PGSIZE)) dir a pa perm s)"

text \<open>The table \<open>kmap\<close>: virtual address, physical range and permissions.\<close>

definition kmap :: "'a vm_state_scheme \<Rightarrow> (u32 \<times> u32 \<times> u32 \<times> u32) list" where
  "kmap s = [(KERNBASE, 0, EXTMEM, PTE_W), (KERNLINK, v2p KERNLINK, v2p (data_addr s), 0),
             (data_addr s, v2p (data_addr s), PHYSTOP, PTE_W), (DEVSPACE, DEVSPACE, 0, PTE_W)]"

fun map_kernel :: "u32 \<Rightarrow> (u32 \<times> u32 \<times> u32 \<times> u32) list \<Rightarrow> 'a vm_state_scheme \<Rightarrow> (u32 \<times> 'a vm_state_scheme) kres" where
  "map_kernel dir [] s = Inr (dir, s)"
| "map_kernel dir ((virt, phys_start, phys_end, perm) # ks) s =
     kbind (mappages dir virt (phys_end - phys_start) phys_start perm s) (\<lambda>(r, s).
       if r < 0 then Inr (0, s) else map_kernel dir ks s)"

definition setupkvm :: "'a vm_state_scheme \<Rightarrow> (u32 \<times> 'a vm_state_scheme) kres" where
  "setupkvm s =
     (let (dir, s) = kalloc s
      in if dir = 0 then Inr (0, s)
         else
           let s = s\<lparr>mem := memset dir 0 PGSIZE (mem s)\<rparr>
           in if p2v PHYSTOP > DEVSPACE then Inl (Panic ''PHYSTOP too high'') else map_kernel dir (kmap s) s)"

definition switchkvm :: "'a vm_state_scheme \<Rightarrow> 'a vm_state_scheme" where
  "switchkvm s = s\<lparr>cr3 := v2p (kpgdir s)\<rparr>"

definition kvmalloc :: "'a vm_state_scheme \<Rightarrow> 'a vm_state_scheme kres" where
  "kvmalloc s = kbind (setupkvm s) (\<lambda>(d, s). Inr (switchkvm (s\<lparr>kpgdir := d\<rparr>)))"

text \<open>The stack for traps is that of the current process, not of \<open>p\<close>.\<close>

definition switchuvm :: "nat \<Rightarrow> 'a vm_state_scheme \<Rightarrow> 'a vm_state_scheme kres" where
  "switchuvm p s =
     (case cur s of
        None \<Rightarrow> Inl (Overrun ''proc'')
      | Some c \<Rightarrow>
          let s = s\<lparr>ts_esp0 := kstack (ptable s c) + KSTACKSIZE\<rparr>
          in if pgdir (ptable s p) = 0 then Inl (Panic ''switchuvm: no pgdir'')
             else Inr (s\<lparr>cr3 := v2p (pgdir (ptable s p))\<rparr>))"

section \<open>User memory\<close>

text \<open>A block of bytes is copied into memory at an address.\<close>

definition copy_in :: "u32 \<Rightarrow> u8 list \<Rightarrow> mem \<Rightarrow> mem" where
  "copy_in a bs m = (\<lambda>x. if unat (x - a) < length bs then bs ! unat (x - a) else m x)"

definition inituvm :: "u32 \<Rightarrow> u8 list \<Rightarrow> 'a vm_state_scheme \<Rightarrow> 'a vm_state_scheme kres" where
  "inituvm dir init s =
     (if length init \<ge> unat PGSIZE then Inl (Panic ''inituvm: more than a page'')
      else
        let (m, s) = kalloc s;
            s = s\<lparr>mem := memset m 0 PGSIZE (mem s)\<rparr>
        in kbind (mappages dir 0 PGSIZE (v2p m) (PTE_W OR PTE_U) s) (\<lambda>(_, s).
           Inr (s\<lparr>mem := copy_in m init (mem s)\<rparr>)))"

function loaduvm_from :: "nat \<Rightarrow> u32 \<Rightarrow> u32 \<Rightarrow> nat \<Rightarrow> u32 \<Rightarrow> nat \<Rightarrow> 'a vm_state_scheme \<Rightarrow> (int \<times> 'a vm_state_scheme) kres" where
  "loaduvm_from i dir addr ip offset len s =
     (if i < len then
        let (pte, s) = walkpgdir dir (addr + of_nat i) False s
        in if pte = 0 then Inl (Panic ''loaduvm: address should exist'')
           else
             let pa = PTE_ADDR (load32 (mem s) pte);
                 n = (if len - i < unat PGSIZE then len - i else unat PGSIZE)
             in kbind (readi ip (offset + of_nat i) (of_nat n) s) (\<lambda>(r, bs, s).
                  let s = s\<lparr>mem := copy_in (p2v pa) bs (mem s)\<rparr>
                  in if r \<noteq> int n then Inr (-1, s) else loaduvm_from (i + unat PGSIZE) dir addr ip offset len s)
      else Inr (0, s))"
  by pat_completeness auto
termination
  by (relation "measure (\<lambda>(i, dir, addr, ip, offset, len, s). len - i)") (auto simp: PGSIZE_def)

definition loaduvm :: "u32 \<Rightarrow> u32 \<Rightarrow> nat \<Rightarrow> u32 \<Rightarrow> u32 \<Rightarrow> 'a vm_state_scheme \<Rightarrow> (int \<times> 'a vm_state_scheme) kres" where
  "loaduvm dir addr ip offset len s =
     (if addr mod PGSIZE \<noteq> 0 then Inl (Panic ''loaduvm: addr must be page aligned'')
      else loaduvm_from 0 dir addr ip offset (unat len) s)"

text \<open>
  The loop of \<open>deallocuvm\<close>: \<open>a\<close> is below KERNBASE in every call, so that it does not wrap; it stops
  when \<open>a\<close> reaches \<open>oldsz\<close>.
\<close>

function deallocuvm_from :: "u32 \<Rightarrow> nat \<Rightarrow> nat \<Rightarrow> 'a kmem_state_scheme \<Rightarrow> 'a kmem_state_scheme kres" where
  "deallocuvm_from dir a oldsz s =
     (if a < oldsz then
        let (pte, s) = walkpgdir dir (of_nat a) False s
        in if pte = 0 then deallocuvm_from dir (a + unat ((NPTENTRIES - 1) * PGSIZE) + unat PGSIZE) oldsz s
           else if load32 (mem s) pte AND PTE_P \<noteq> 0 then
             let pa = PTE_ADDR (load32 (mem s) pte)
             in if pa = 0 then Inl (Panic ''kfree'')
                else kbind (kfree (p2v pa) s) (\<lambda>s.
                     deallocuvm_from dir (a + unat PGSIZE) oldsz (s\<lparr>mem := store32 pte 0 (mem s)\<rparr>))
           else deallocuvm_from dir (a + unat PGSIZE) oldsz s
      else Inr s)"
  by pat_completeness auto
termination
  by (relation "measure (\<lambda>(dir, a, oldsz, s). oldsz - a)") (auto simp: PGSIZE_def NPTENTRIES_def)

definition deallocuvm :: "u32 \<Rightarrow> u32 \<Rightarrow> u32 \<Rightarrow> 'a kmem_state_scheme \<Rightarrow> (u32 \<times> 'a kmem_state_scheme) kres" where
  "deallocuvm dir oldsz newsz s =
     (if newsz \<ge> oldsz then Inr (oldsz, s)
      else kbind (deallocuvm_from dir (unat (PGROUNDUP newsz)) (unat oldsz) s) (\<lambda>s. Inr (newsz, s)))"

text \<open>The return value of \<open>mappages\<close> is not looked at.\<close>

function allocuvm_from :: "u32 \<Rightarrow> nat \<Rightarrow> u32 \<Rightarrow> u32 \<Rightarrow> 'a vm_state_scheme \<Rightarrow> (u32 \<times> 'a vm_state_scheme) kres" where
  "allocuvm_from dir a oldsz newsz s =
     (if a < unat newsz then
        let (m, s) = kalloc s
        in if m = 0 then
             kbind (cprintf (\<lambda>_. []) (Some (bytes ''allocuvm out of memory'' @ [10])) [] s) (\<lambda>s.
             kbind (deallocuvm dir newsz oldsz s) (\<lambda>(_, s). Inr (0, s)))
           else
             let s = s\<lparr>mem := memset m 0 PGSIZE (mem s)\<rparr>
             in kbind (mappages dir (of_nat a) PGSIZE (v2p m) (PTE_W OR PTE_U) s) (\<lambda>(_, s).
                allocuvm_from dir (a + unat PGSIZE) oldsz newsz s)
      else Inr (newsz, s))"
  by pat_completeness auto
termination
  by (relation "measure (\<lambda>(dir, a, oldsz, newsz, s). unat newsz - a)") (auto simp: PGSIZE_def)

declare mappages_loop.simps [simp del] loaduvm_from.simps [simp del] deallocuvm_from.simps [simp del] allocuvm_from.simps [simp del]

definition allocuvm :: "u32 \<Rightarrow> u32 \<Rightarrow> u32 \<Rightarrow> 'a vm_state_scheme \<Rightarrow> (u32 \<times> 'a vm_state_scheme) kres" where
  "allocuvm dir oldsz newsz s =
     (if newsz \<ge> KERNBASE then Inr (0, s)
      else if newsz < oldsz then Inr (oldsz, s)
      else allocuvm_from dir (unat (PGROUNDUP oldsz)) oldsz newsz s)"

definition free_table :: "u32 \<Rightarrow> nat \<Rightarrow> 'a kmem_state_scheme \<Rightarrow> 'a kmem_state_scheme kres" where
  "free_table dir i s =
     (let pde = load32 (mem s) (dir + 4 * of_nat i)
      in if pde AND PTE_P \<noteq> 0 then kfree (p2v (PTE_ADDR pde)) s else Inr s)"

definition freevm :: "u32 \<Rightarrow> 'a kmem_state_scheme \<Rightarrow> 'a kmem_state_scheme kres" where
  "freevm dir s =
     (if dir = 0 then Inl (Panic ''freevm: no pgdir'')
      else
        kbind (deallocuvm dir KERNBASE 0 s) (\<lambda>(_, s).
        kbind (kfold (free_table dir) [0..<NPDENTRIES] s) (kfree dir)))"

definition clearpteu :: "u32 \<Rightarrow> u32 \<Rightarrow> 'a kmem_state_scheme \<Rightarrow> 'a kmem_state_scheme kres" where
  "clearpteu dir uva s =
     (let (pte, s) = walkpgdir dir uva False s
      in if pte = 0 then Inl (Panic ''clearpteu'')
         else Inr (s\<lparr>mem := store32 pte (load32 (mem s) pte AND NOT PTE_U) (mem s)\<rparr>))"

function copyuvm_from :: "u32 \<Rightarrow> u32 \<Rightarrow> nat \<Rightarrow> nat \<Rightarrow> 'a vm_state_scheme \<Rightarrow> (u32 \<times> 'a vm_state_scheme) kres" where
  "copyuvm_from dir d i len s =
     (if i < len then
        let (pte, s) = walkpgdir dir (of_nat i) False s
        in if pte = 0 then Inl (Panic ''copyuvm: pte should exist'')
           else if load32 (mem s) pte AND PTE_P = 0 then Inl (Panic ''copyuvm: page not present'')
           else
             let pa = PTE_ADDR (load32 (mem s) pte);
                 (m, s) = kalloc s
             in if m = 0 then kbind (freevm d s) (\<lambda>s. Inr (0, s))
                else
                  let s = s\<lparr>mem := memmove m (p2v pa) PGSIZE (mem s)\<rparr>
                  in kbind (mappages d (of_nat i) PGSIZE (v2p m) (PTE_W OR PTE_U) s) (\<lambda>(r, s).
                     if r < 0 then kbind (freevm d s) (\<lambda>s. Inr (0, s))
                     else copyuvm_from dir d (i + unat PGSIZE) len s)
      else Inr (d, s))"
  by pat_completeness auto
termination
  by (relation "measure (\<lambda>(dir, d, i, len, s). len - i)") (auto simp: PGSIZE_def)

declare copyuvm_from.simps [simp del]

definition copyuvm :: "u32 \<Rightarrow> u32 \<Rightarrow> 'a vm_state_scheme \<Rightarrow> (u32 \<times> 'a vm_state_scheme) kres" where
  "copyuvm dir len s =
     kbind (setupkvm s) (\<lambda>(d, s). if d = 0 then Inr (0, s) else copyuvm_from dir d 0 (unat len) s)"

text \<open>\<open>uva2ka\<close> reads through the pointer \<open>walkpgdir\<close> returns without a check.\<close>

definition uva2ka :: "u32 \<Rightarrow> u32 \<Rightarrow> 'a kmem_state_scheme \<Rightarrow> u32 kres" where
  "uva2ka dir uva s =
     (let (pte, s) = walkpgdir dir uva False s
      in if pte = 0 then Inl (Overrun ''pte'')
         else if load32 (mem s) pte AND PTE_P = 0 then Inr 0
         else if load32 (mem s) pte AND PTE_U = 0 then Inr 0
         else Inr (p2v (PTE_ADDR (load32 (mem s) pte))))"

function copyout_from :: "u32 \<Rightarrow> u32 \<Rightarrow> u8 list \<Rightarrow> 'a kmem_state_scheme \<Rightarrow> (int \<times> 'a kmem_state_scheme) kres" where
  "copyout_from dir va bs s =
     (if bs = [] then Inr (0, s)
      else
        let va0 = PGROUNDDOWN va
        in kbind (uva2ka dir va0 s) (\<lambda>pa0.
             if pa0 = 0 then Inr (-1, s)
             else
               let n = min (unat (PGSIZE - (va - va0))) (length bs)
               in if n = 0 then Inl Diverge
                  else copyout_from dir (va0 + PGSIZE) (drop n bs) (s\<lparr>mem := copy_in (pa0 + (va - va0)) (take n bs) (mem s)\<rparr>)))"
  by pat_completeness auto
termination
  by (relation "measure (\<lambda>(dir, va, bs, s). length bs)") auto

declare copyout_from.simps [simp del]

definition copyout :: "u32 \<Rightarrow> u32 \<Rightarrow> u8 list \<Rightarrow> 'a kmem_state_scheme \<Rightarrow> (int \<times> 'a kmem_state_scheme) kres" where
  "copyout dir va bs s = copyout_from dir va bs s"

section \<open>Access through the current page table\<close>

text \<open>
  The kernel reads and writes user memory at its virtual address, through the page table in \<open>cr3\<close>;
  when no page is present the trap handler panics.
\<close>

definition pt_addr :: "mem \<Rightarrow> u32 \<Rightarrow> u32 \<Rightarrow> u32 option" where
  "pt_addr m dir va =
     (let pde = load32 m (dir + 4 * PDX va);
          pte = load32 m (p2v (PTE_ADDR pde) + 4 * PTX va)
      in if pde AND PTE_P = 0 \<or> pte AND PTE_P = 0 then None else Some (p2v (PTE_ADDR pte) + (va AND 0xFFF)))"

definition user_read :: "u32 \<Rightarrow> 'a vm_state_scheme \<Rightarrow> u8 kres" where
  "user_read va s = (case pt_addr (mem s) (p2v (cr3 s)) va of None \<Rightarrow> Inl (Panic ''trap'') | Some a \<Rightarrow> Inr (mem s a))"

definition user_write :: "u32 \<Rightarrow> u8 \<Rightarrow> 'a vm_state_scheme \<Rightarrow> 'a vm_state_scheme kres" where
  "user_write va b s =
     (case pt_addr (mem s) (p2v (cr3 s)) va of
        None \<Rightarrow> Inl (Panic ''trap'') | Some a \<Rightarrow> Inr (s\<lparr>mem := (mem s)(a := b)\<rparr>))"

fun user_bytes :: "nat \<Rightarrow> u32 \<Rightarrow> 'a vm_state_scheme \<Rightarrow> u8 list kres" where
  "user_bytes 0 va s = Inr []"
| "user_bytes (Suc n) va s = kbind (user_read va s) (\<lambda>b. kbind (user_bytes n (va + 1) s) (\<lambda>bs. Inr (b # bs)))"

fun user_store :: "u32 \<Rightarrow> u8 list \<Rightarrow> 'a vm_state_scheme \<Rightarrow> 'a vm_state_scheme kres" where
  "user_store va [] s = Inr s"
| "user_store va (b # bs) s = kbind (user_write va b s) (user_store (va + 1) bs)"

end
