(* ===== verification/Fifo.thy ===== *)
theory Fifo
  imports Main
begin

text \<open>
  The contract of a bounded queue with a writer and a reader: what its operations do to the sequence
  of the elements in it, and what follows for every interleaving of writes and reads. The ring
  buffers of the kernel, a pipe and the input of the console, are shown to satisfy it.
\<close>

datatype 'a fifo_op = Put 'a | Get

text \<open>
  A sequence of attempts: a \<open>Put\<close> into a full queue and a \<open>Get\<close> from an empty one have no effect (the
  process sleeps and tries again). The result is what went in, what came out and the queue at the end.
\<close>

fun fifo_run :: "('q \<Rightarrow> bool) \<Rightarrow> ('q \<Rightarrow> bool) \<Rightarrow> ('a \<Rightarrow> 'q \<Rightarrow> 'q) \<Rightarrow> ('q \<Rightarrow> 'a \<times> 'q) \<Rightarrow> 'a fifo_op list \<Rightarrow> 'q \<Rightarrow>
    'a list \<times> 'a list \<times> 'q" where
  "fifo_run isfull isempty put get [] q = ([], [], q)"
| "fifo_run isfull isempty put get (Put x # ops) q =
     (if isfull q then fifo_run isfull isempty put get ops q
      else let (ins, outs, r) = fifo_run isfull isempty put get ops (put x q) in (x # ins, outs, r))"
| "fifo_run isfull isempty put get (Get # ops) q =
     (if isempty q then fifo_run isfull isempty put get ops q
      else let (x, q) = get q; (ins, outs, r) = fifo_run isfull isempty put get ops q in (ins, x # outs, r))"

locale fifo =
  fixes isfull :: "'q \<Rightarrow> bool"
    and isempty :: "'q \<Rightarrow> bool"
    and put :: "'a \<Rightarrow> 'q \<Rightarrow> 'q"
    and get :: "'q \<Rightarrow> 'a \<times> 'q"
    and contents :: "'q \<Rightarrow> 'a list"
    and invar :: "'q \<Rightarrow> bool"
    and cap :: nat
  assumes full: "invar q \<Longrightarrow> isfull q \<longleftrightarrow> length (contents q) = cap"
    and empty: "invar q \<Longrightarrow> isempty q \<longleftrightarrow> contents q = []"
    and put: "invar q \<Longrightarrow> \<not> isfull q \<Longrightarrow> invar (put x q) \<and> contents (put x q) = contents q @ [x]"
    and get: "invar q \<Longrightarrow> \<not> isempty q \<Longrightarrow> invar (snd (get q)) \<and> contents q = fst (get q) # contents (snd (get q))"
    and bound: "invar q \<Longrightarrow> length (contents q) \<le> cap"
begin

lemma run_order:
  assumes "invar q" "fifo_run isfull isempty put get ops q = (ins, outs, r)"
  shows "invar r \<and> contents q @ ins = outs @ contents r"
  using assms
proof (induction ops arbitrary: q ins outs)
  case (Cons op ops)
  show ?case
  proof (cases op)
    case (Put x)
    show ?thesis
    proof (cases "isfull q")
      case True
      then show ?thesis using Cons Put by simp
    next
      case False
      then obtain i where "fifo_run isfull isempty put get ops (put x q) = (i, outs, r)" "ins = x # i"
        using Cons.prems Put by (auto split: prod.splits)
      then show ?thesis using Cons.IH [of "put x q" i outs] put [OF Cons.prems(1) False, of x] by simp
    qed
  next
    case Get
    show ?thesis
    proof (cases "isempty q")
      case True
      then show ?thesis using Cons Get by simp
    next
      case False
      then obtain o' where "fifo_run isfull isempty put get ops (snd (get q)) = (ins, o', r)" "outs = fst (get q) # o'"
        using Cons.prems Get by (auto split: prod.splits)
      then show ?thesis using Cons.IH [of "snd (get q)" ins o'] get [OF Cons.prems(1) False] by simp
    qed
  qed
qed simp

end

end
