(* ===== verification/File.thy ===== *)
theory File
  imports Vm Fifo
begin

text \<open>
  Open files (file.c) and pipes (pipe.c). A file is an entry of the table \<open>ftable\<close>; a pipe lives in a
  page of the allocator and is known by the address of the page. The locks of the table and of a
  pipe make each function atomic up to its sleep.
\<close>

section \<open>Data\<close>

definition NFILE :: nat where "NFILE = 100"
definition PIPESIZE :: nat where "PIPESIZE = 512"

datatype fdtype = FD_NONE | FD_PIPE | FD_INODE

record ofile_t =
  f_type :: fdtype
  f_ref :: int
  f_readable :: bool
  f_writable :: bool
  f_pipe :: u32
  f_ip :: nat
  f_off :: u32

record pipe =
  p_data :: "nat \<Rightarrow> u8"
  p_nread :: u32
  p_nwrite :: u32
  p_readopen :: bool
  p_writeopen :: bool

record ft_state = vm_state +
  ftable :: "nat \<Rightarrow> ofile_t"
  pipes :: "u32 \<Rightarrow> pipe"

definition upd_file :: "nat \<Rightarrow> (ofile_t \<Rightarrow> ofile_t) \<Rightarrow> 'a ft_state_scheme \<Rightarrow> 'a ft_state_scheme" where
  "upd_file f g s = s\<lparr>ftable := (ftable s)(f := g (ftable s f))\<rparr>"

definition upd_pipe :: "u32 \<Rightarrow> (pipe \<Rightarrow> pipe) \<Rightarrow> 'a ft_state_scheme \<Rightarrow> 'a ft_state_scheme" where
  "upd_pipe p g s = s\<lparr>pipes := (pipes s)(p := g (pipes s p))\<rparr>"

definition is_killed :: "'a proc_state_scheme \<Rightarrow> bool" where
  "is_killed s = (case cur s of None \<Rightarrow> False | Some p \<Rightarrow> killed (ptable s p))"

section \<open>The file table\<close>

definition filealloc :: "'a ft_state_scheme \<Rightarrow> nat option \<times> 'a ft_state_scheme" where
  "filealloc s =
     (case List.find (\<lambda>f. f_ref (ftable s f) = 0) [0..<NFILE] of
        None \<Rightarrow> (None, s)
      | Some f \<Rightarrow> (Some f, upd_file f (\<lambda>x. x\<lparr>f_ref := 1\<rparr>) s))"

definition filedup :: "nat \<Rightarrow> 'a ft_state_scheme \<Rightarrow> 'a ft_state_scheme kres" where
  "filedup f s =
     (if f_ref (ftable s f) < 1 then Inl (Panic ''filedup'')
      else Inr (upd_file f (\<lambda>x. x\<lparr>f_ref := f_ref x + 1\<rparr>) s))"

section \<open>Pipes\<close>

definition pipe_full :: "pipe \<Rightarrow> bool" where "pipe_full p \<longleftrightarrow> p_nwrite p = p_nread p + of_nat PIPESIZE"
definition pipe_empty :: "pipe \<Rightarrow> bool" where "pipe_empty p \<longleftrightarrow> p_nread p = p_nwrite p"

definition pipe_put :: "u8 \<Rightarrow> pipe \<Rightarrow> pipe" where
  "pipe_put b p = p\<lparr>p_data := (p_data p)(unat (p_nwrite p) mod PIPESIZE := b), p_nwrite := p_nwrite p + 1\<rparr>"

definition pipe_get :: "pipe \<Rightarrow> u8 \<times> pipe" where
  "pipe_get p = (p_data p (unat (p_nread p) mod PIPESIZE), p\<lparr>p_nread := p_nread p + 1\<rparr>)"

definition pipeclose :: "u32 \<Rightarrow> bool \<Rightarrow> 'a ft_state_scheme \<Rightarrow> 'a ft_state_scheme kres" where
  "pipeclose p writable s =
     (let s = (if writable then wakeup (ChPipeR p) (upd_pipe p (\<lambda>x. x\<lparr>p_writeopen := False\<rparr>) s)
               else wakeup (ChPipeW p) (upd_pipe p (\<lambda>x. x\<lparr>p_readopen := False\<rparr>) s))
      in if \<not> p_readopen (pipes s p) \<and> \<not> p_writeopen (pipes s p) then kfree p s else Inr s)"

text \<open>The loop of \<open>pipewrite\<close>; the flag tells whether all bytes were written.\<close>

fun pipewrite_loop :: "u32 \<Rightarrow> u8 list \<Rightarrow> 'a ft_state_scheme \<Rightarrow> (bool \<times> 'a ft_state_scheme) kres" where
  "pipewrite_loop p [] s = Inr (True, s)"
| "pipewrite_loop p (b # bs) s =
     (if pipe_full (pipes s p) then
        if \<not> p_readopen (pipes s p) \<or> is_killed s then Inr (False, s) else Inl (Sleep (ChPipeW p))
      else pipewrite_loop p bs (upd_pipe p (pipe_put b) s))"

definition pipewrite :: "u32 \<Rightarrow> u8 list \<Rightarrow> 'a ft_state_scheme \<Rightarrow> (int \<times> 'a ft_state_scheme) kres" where
  "pipewrite p bs s =
     kbind (pipewrite_loop p bs s) (\<lambda>(ok, s).
       Inr (if ok then (int (length bs), wakeup (ChPipeR p) s) else (-1, s)))"

fun piperead_loop :: "u32 \<Rightarrow> nat \<Rightarrow> 'a ft_state_scheme \<Rightarrow> u8 list \<times> 'a ft_state_scheme" where
  "piperead_loop p 0 s = ([], s)"
| "piperead_loop p (Suc n) s =
     (if pipe_empty (pipes s p) then ([], s)
      else
        let (b, q) = pipe_get (pipes s p);
            (bs, s) = piperead_loop p n (upd_pipe p (\<lambda>_. q) s)
        in (b # bs, s))"

definition piperead :: "u32 \<Rightarrow> int \<Rightarrow> 'a ft_state_scheme \<Rightarrow> (int \<times> u8 list \<times> 'a ft_state_scheme) kres" where
  "piperead p n s =
     (if pipe_empty (pipes s p) \<and> p_writeopen (pipes s p) then
        if is_killed s then Inr (-1, [], s) else Inl (Sleep (ChPipeR p))
      else
        let (bs, s) = piperead_loop p (nat n) s
        in Inr (int (length bs), bs, wakeup (ChPipeW p) s))"

section \<open>Operations on files\<close>

definition fileclose :: "nat \<Rightarrow> 'a ft_state_scheme \<Rightarrow> 'a ft_state_scheme kres" where
  "fileclose f s =
     (if f_ref (ftable s f) < 1 then Inl (Panic ''fileclose'')
      else
        let s = upd_file f (\<lambda>x. x\<lparr>f_ref := f_ref x - 1\<rparr>) s
        in if f_ref (ftable s f) > 0 then Inr s
           else
             let ff = ftable s f;
                 s = upd_file f (\<lambda>x. x\<lparr>f_ref := 0, f_type := FD_NONE\<rparr>) s
             in case f_type ff of
                  FD_PIPE \<Rightarrow> pipeclose (f_pipe ff) (f_writable ff) s
                | FD_INODE \<Rightarrow> kbind (begin_trans s) (\<lambda>s. kbind (iput (f_ip ff) s) commit_trans)
                | FD_NONE \<Rightarrow> Inr s)"

text \<open>\<open>pipealloc\<close> returns the files for reading and for writing, or \<open>None\<close> for -1.\<close>

definition close_opt :: "nat option \<Rightarrow> 'a ft_state_scheme \<Rightarrow> 'a ft_state_scheme kres" where
  "close_opt f s = (case f of None \<Rightarrow> Inr s | Some f \<Rightarrow> fileclose f s)"

definition pipealloc :: "'a ft_state_scheme \<Rightarrow> ((nat \<times> nat) option \<times> 'a ft_state_scheme) kres" where
  "pipealloc s =
     (case filealloc s of
        (None, s) \<Rightarrow> Inr (None, s)
      | (Some f0, s) \<Rightarrow>
          (case filealloc s of
             (None, s) \<Rightarrow> kbind (fileclose f0 s) (\<lambda>s. Inr (None, s))
           | (Some f1, s) \<Rightarrow>
               let (p, s) = kalloc s
               in if p = 0 then kbind (fileclose f0 s) (\<lambda>s. kbind (fileclose f1 s) (\<lambda>s. Inr (None, s)))
                  else
                    let s = upd_pipe p (\<lambda>x. x\<lparr>p_readopen := True, p_writeopen := True, p_nwrite := 0, p_nread := 0\<rparr>) s;
                        s = upd_file f0 (\<lambda>x. x\<lparr>f_type := FD_PIPE, f_readable := True, f_writable := False, f_pipe := p\<rparr>) s;
                        s = upd_file f1 (\<lambda>x. x\<lparr>f_type := FD_PIPE, f_readable := False, f_writable := True, f_pipe := p\<rparr>) s
                    in Inr (Some (f0, f1), s)))"

definition filestat :: "nat \<Rightarrow> 'a ft_state_scheme \<Rightarrow> (stat option \<times> 'a ft_state_scheme) kres" where
  "filestat f s =
     (if f_type (ftable s f) = FD_INODE then
        kbind (ilock (f_ip (ftable s f)) s) (\<lambda>s.
          let st = stati (f_ip (ftable s f)) s
          in kbind (iunlock (f_ip (ftable s f)) s) (\<lambda>s. Inr (Some st, s)))
      else Inr (None, s))"

definition fileread :: "nat \<Rightarrow> int \<Rightarrow> 'a ft_state_scheme \<Rightarrow> (int \<times> u8 list \<times> 'a ft_state_scheme) kres" where
  "fileread f n s =
     (if \<not> f_readable (ftable s f) then Inr (-1, [], s)
      else case f_type (ftable s f) of
        FD_PIPE \<Rightarrow> piperead (f_pipe (ftable s f)) n s
      | FD_INODE \<Rightarrow>
          let ip = f_ip (ftable s f)
          in kbind (ilock ip s) (\<lambda>s.
             kbind (readi ip (f_off (ftable s f)) (of_int n) s) (\<lambda>(r, bs, s).
             let s = (if r > 0 then upd_file f (\<lambda>x. x\<lparr>f_off := f_off x + of_int r\<rparr>) s else s)
             in kbind (iunlock ip s) (\<lambda>s. Inr (r, bs, s))))
      | FD_NONE \<Rightarrow> Inl (Panic ''fileread''))"

definition filewrite_max :: nat where "filewrite_max = ((LOGSIZE - 1 - 1 - 2) div 2) * 512"

text \<open>One round of the loop of \<open>filewrite\<close>: a transaction for the bytes \<open>bs\<close>.\<close>

definition write_some :: "nat \<Rightarrow> u8 list \<Rightarrow> 'a ft_state_scheme \<Rightarrow> (int \<times> 'a ft_state_scheme) kres" where
  "write_some f bs s =
     (let ip = f_ip (ftable s f)
      in kbind (begin_trans s) (\<lambda>s.
         kbind (ilock ip s) (\<lambda>s.
         kbind (writei ip (arr bs) (f_off (ftable s f)) (of_nat (length bs)) s) (\<lambda>(r, s).
         let s = (if r > 0 then upd_file f (\<lambda>x. x\<lparr>f_off := f_off x + of_int r\<rparr>) s else s)
         in kbind (iunlock ip s) (\<lambda>s. kbind (commit_trans s) (\<lambda>s. Inr (r, s)))))))"

function filewrite_loop :: "nat \<Rightarrow> u8 list \<Rightarrow> 'a ft_state_scheme \<Rightarrow> (bool \<times> 'a ft_state_scheme) kres" where
  "filewrite_loop f bs s =
     (if bs = [] then Inr (True, s)
      else
        let n1 = min (length bs) filewrite_max
        in kbind (write_some f (take n1 bs) s) (\<lambda>(r, s).
             if r < 0 then Inr (False, s)
             else if r \<noteq> int n1 then Inl (Panic ''short filewrite'')
             else filewrite_loop f (drop n1 bs) s))"
  by pat_completeness auto
termination
  by (relation "measure (\<lambda>(f, bs, s). length bs)") (auto simp: filewrite_max_def LOGSIZE_def)

declare filewrite_loop.simps [simp del]

definition filewrite :: "nat \<Rightarrow> u8 list \<Rightarrow> int \<Rightarrow> 'a ft_state_scheme \<Rightarrow> (int \<times> 'a ft_state_scheme) kres" where
  "filewrite f bs n s =
     (if \<not> f_writable (ftable s f) then Inr (-1, s)
      else case f_type (ftable s f) of
        FD_PIPE \<Rightarrow> kbind (pipewrite (f_pipe (ftable s f)) bs s) (\<lambda>(r, s). Inr (if r < 0 then r else n, s))
      | FD_INODE \<Rightarrow>
          kbind (filewrite_loop f bs s) (\<lambda>(ok, s). Inr (if ok \<and> int (length bs) = n then n else -1, s))
      | FD_NONE \<Rightarrow> Inl (Panic ''filewrite''))"

section \<open>A pipe is a bounded queue\<close>

text \<open>
  The bytes in a pipe, oldest first. The counters wrap at \<open>2 ^ 32\<close>, a multiple of \<open>PIPESIZE\<close>, so that the
  wrap does not move a byte.
\<close>

definition pipe_bytes :: "pipe \<Rightarrow> u8 list" where
  "pipe_bytes p = map (\<lambda>i. p_data p ((unat (p_nread p) + i) mod PIPESIZE)) [0..<unat (p_nwrite p - p_nread p)]"

definition pipe_inv :: "pipe \<Rightarrow> bool" where
  "pipe_inv p \<longleftrightarrow> unat (p_nwrite p - p_nread p) \<le> PIPESIZE"

lemma unat_add_mod: "unat (a + b :: u32) mod 512 = (unat a + unat b) mod 512"
  by (simp add: unat_word_ariths mod_mod_cancel)

lemma ring_slot_inj: "i < 512 \<Longrightarrow> j < 512 \<Longrightarrow> (r + i) mod 512 = (r + j) mod 512 \<longleftrightarrow> i = (j :: nat)"
proof -
  assume a: "i < 512" "j < 512"
  have "i = j" if "(r + i) mod 512 = (r + j) mod 512" "i \<le> j" "j < 512" for i j :: nat
  proof -
    have "(r + j - (r + i)) mod 512 = 0" using that(1,2) by (intro mod_eq_dvd_iff_nat [THEN iffD1, unfolded dvd_eq_mod_eq_0]) auto
    then show ?thesis using that by simp
  qed
  from this [of i j] this [of j i] a show ?thesis by (metis nat_le_linear)
qed

interpretation pq: fifo pipe_full pipe_empty pipe_put pipe_get pipe_bytes pipe_inv PIPESIZE
proof (unfold_locales, goal_cases)
  case (1 q)
  have "p_nwrite q = p_nread q + 512 \<longleftrightarrow> p_nwrite q - p_nread q = 512" by (simp add: diff_eq_eq add.commute)
  also have "\<dots> \<longleftrightarrow> unat (p_nwrite q - p_nread q) = 512" by (simp add: word_unat_eq_iff)
  finally show ?case by (simp add: pipe_full_def pipe_bytes_def PIPESIZE_def)
next
  case (2 q)
  then show ?case by (auto simp: pipe_empty_def pipe_bytes_def unat_eq_zero)
next
  case (3 q x)
  let ?k = "unat (p_nwrite q - p_nread q)"
  have "p_nwrite q = p_nread q + 512 \<longleftrightarrow> p_nwrite q - p_nread q = 512" by (simp add: diff_eq_eq add.commute)
  also have "\<dots> \<longleftrightarrow> ?k = 512" by (simp add: word_unat_eq_iff)
  finally have "?k \<noteq> 512" using 3(2) by (simp add: pipe_full_def PIPESIZE_def)
  then have k: "?k < 512" using 3(1) by (simp add: pipe_inv_def PIPESIZE_def)
  have "p_nwrite q + 1 - p_nread q = (p_nwrite q - p_nread q) + 1" by simp
  then have s: "unat (p_nwrite q + 1 - p_nread q) = Suc ?k" using k by (simp only:) (subst unat_add_lem [THEN iffD1]; simp)
  have slot: "unat (p_nwrite q) mod 512 = (unat (p_nread q) + ?k) mod 512"
    using unat_add_mod [of "p_nread q" "p_nwrite q - p_nread q"] by simp
  have "(unat (p_nread q) + i) mod 512 \<noteq> (unat (p_nread q) + ?k) mod 512" if "i < ?k" for i
    using ring_slot_inj [of i ?k] that k by simp
  then show ?case using k by (auto simp: pipe_inv_def pipe_put_def pipe_bytes_def PIPESIZE_def s slot)
next
  case (4 q)
  let ?k = "unat (p_nwrite q - p_nread q)"
  have "?k \<noteq> 0" using 4(2) by (auto simp: pipe_empty_def unat_eq_zero)
  then obtain j where j: "?k = Suc j" by (cases ?k) auto
  have "p_nwrite q - (p_nread q + 1) = (p_nwrite q - p_nread q) - 1" by simp
  then have s: "unat (p_nwrite q - (p_nread q + 1)) = j" using j by (simp only:) (subst unat_sub; simp add: word_le_nat_alt)
  have r: "(unat (p_nread q + 1) + i) mod 512 = (unat (p_nread q) + Suc i) mod 512" for i
    using unat_add_mod [of "p_nread q" 1] by (metis (no_types) add.assoc mod_add_left_eq plus_1_eq_Suc unat_1)
  have "pipe_bytes q = p_data q (unat (p_nread q) mod 512) # map (\<lambda>i. p_data q ((unat (p_nread q) + Suc i) mod 512)) [0..<j]"
    unfolding pipe_bytes_def j PIPESIZE_def map_upt_Suc by simp
  moreover have "pipe_bytes (snd (pipe_get q)) = map (\<lambda>i. p_data q ((unat (p_nread q) + Suc i) mod 512)) [0..<j]"
    by (simp add: pipe_get_def pipe_bytes_def PIPESIZE_def s r)
  ultimately show ?case using 4(1) j by (simp add: pipe_inv_def pipe_get_def PIPESIZE_def s)
next
  case (5 q)
  then show ?case by (simp add: pipe_inv_def pipe_bytes_def)
qed

lemma upd_pipe_at [simp]: "pipes (upd_pipe p g s) q = (if q = p then g (pipes s p) else pipes s q)"
  by (simp add: upd_pipe_def)

lemma upd_pipe_killed [simp]: "is_killed (upd_pipe p g s) = is_killed s"
  by (simp add: upd_pipe_def is_killed_def cong: option.case_cong)

lemma wakeup_pipes [simp]: "pipes (wakeup c s) = pipes s"
  by (simp add: wakeup_def wakeup1_def)

lemma pipewrite_loop_ok:
  assumes "pipe_inv (pipes s p)"
  shows "pipewrite_loop p bs s = Inr (True, t) \<Longrightarrow>
      pipe_inv (pipes t p) \<and> pipe_bytes (pipes t p) = pipe_bytes (pipes s p) @ bs \<and> (\<forall>q. q \<noteq> p \<longrightarrow> pipes t q = pipes s q)"
    and "length (pipe_bytes (pipes s p)) + length bs \<le> PIPESIZE \<Longrightarrow> \<exists>t. pipewrite_loop p bs s = Inr (True, t)"
  using assms
proof (induction bs arbitrary: s)
  case (Cons b bs)
  {
    case 1
    then have n: "\<not> pipe_full (pipes s p)" by (auto split: if_splits)
    note k = pq.put [OF 1(2) n, of b]
    show ?case using Cons.IH(1) [of "upd_pipe p (pipe_put b) s"] 1 n k by simp
  next
    case 2
    then have n: "\<not> pipe_full (pipes s p)" using pq.full [of "pipes s p"] by auto
    note k = pq.put [OF 2(2) n, of b]
    show ?case using Cons.IH(2) [of "upd_pipe p (pipe_put b) s"] 2 n k by simp
  }
qed auto

lemma piperead_loop_ok:
  assumes "pipe_inv (pipes s p)" "piperead_loop p n s = (bs, t)"
  shows "pipe_inv (pipes t p) \<and> bs = take n (pipe_bytes (pipes s p)) \<and> pipe_bytes (pipes t p) = drop n (pipe_bytes (pipes s p)) \<and>
    (\<forall>q. q \<noteq> p \<longrightarrow> pipes t q = pipes s q)"
  using assms
proof (induction n arbitrary: s bs)
  case (Suc n)
  show ?case
  proof (cases "pipe_empty (pipes s p)")
    case True
    then show ?thesis using Suc.prems pq.empty [of "pipes s p"] by simp
  next
    case False
    note g = pq.get [OF Suc.prems(1) False]
    let ?u = "upd_pipe p (\<lambda>_. snd (pipe_get (pipes s p))) s"
    obtain r where "piperead_loop p n ?u = (r, t)" "bs = fst (pipe_get (pipes s p)) # r"
      using Suc.prems(2) False by (auto split: prod.splits)
    then show ?thesis using Suc.IH [of ?u r] g by simp
  qed
qed simp

text \<open>An open file system with one pipe, for the examples.\<close>

definition ex_pipe :: pipe where
  "ex_pipe = \<lparr>p_data = (\<lambda>_. 0), p_nread = 0xFFFFFFFE, p_nwrite = 0xFFFFFFFE, p_readopen = True, p_writeopen = True\<rparr>"

definition ex_file_rec :: ofile_t where
  "ex_file_rec = \<lparr>f_type = FD_NONE, f_ref = 0, f_readable = False, f_writable = False, f_pipe = 0, f_ip = 0, f_off = 0\<rparr>"

definition ex_ft :: "(nat \<Rightarrow> ofile_t) \<Rightarrow> 'a \<Rightarrow> 'a ft_state_scheme" where
  "ex_ft F m = ex_file (vm_state_ext 0x80108000 0 0 0 (ft_state_ext F (\<lambda>_. ex_pipe) m))"

lemma ex_ft_fields: "ftable (ex_ft F m) = F" "pipes (ex_ft F m) = (\<lambda>_. ex_pipe)"
proof -
  have "cons_state.more (ex_ft F m) = vm_state_ext 0x80108000 0 0 0 (ft_state_ext F (\<lambda>_. ex_pipe) m)"
    unfolding ex_ft_def ex_file_def ex_on_def by (rule ex_cons_fields(8) [where d = ex_disk, OF ex_disk_head])
  then show "ftable (ex_ft F m) = F" "pipes (ex_ft F m) = (\<lambda>_. ex_pipe)"
    by (cases "ex_ft F m" rule: cons_state.cases_scheme, simp only: cons_state.select_convs,
        simp only: vm_state.select_convs ft_state.select_convs)+
qed





end
