(* ===== verification/Process.thy ===== *)
theory Process
  imports File
begin

text \<open>
  The life of a process (proc.c): creation of the first process, growing, fork, exit, wait, and the
  choices of the scheduler. A function that sleeps stops with \<open>Sleep\<close>; the effect of \<open>sleep\<close> and of
  \<open>yield\<close> on the process table up to the switch to the scheduler is a function of its own, so that
  sequences of such steps can be studied.
\<close>

section \<open>Constants\<close>

definition PATH_LEN :: nat where "PATH_LEN = 256"
definition SEG_UCODE :: u16 where "SEG_UCODE = 4"
definition SEG_UDATA :: u16 where "SEG_UDATA = 5"
definition DPL_USER :: u16 where "DPL_USER = 3"
definition FL_IF :: u32 where "FL_IF = 0x200"

text \<open>The running process; a null pointer is read through when there is none.\<close>

definition myproc :: "'a proc_state_scheme \<Rightarrow> nat kres" where
  "myproc s = (case cur s of None \<Rightarrow> Inl (Overrun ''proc'') | Some p \<Rightarrow> Inr p)"

section \<open>Creating processes\<close>

definition zero_tf :: trapframe where
  "zero_tf = \<lparr>tf_edi = 0, tf_esi = 0, tf_ebp = 0, tf_oesp = 0, tf_ebx = 0, tf_edx = 0, tf_ecx = 0, tf_eax = 0,
     tf_gs = 0, tf_fs = 0, tf_es = 0, tf_ds = 0, tf_trapno = 0, tf_err = 0, tf_eip = 0, tf_cs = 0, tf_eflags = 0,
     tf_esp = 0, tf_ss = 0\<rparr>"

text \<open>\<open>initcode\<close> is the program the linker includes; the result of \<open>allocproc\<close> is used without a check.\<close>

definition userinit :: "u8 list \<Rightarrow> 'a ft_state_scheme \<Rightarrow> 'a ft_state_scheme kres" where
  "userinit initcode s =
     (let (r, s) = allocproc s;
          s = s\<lparr>initproc := r\<rparr>
      in case r of
           None \<Rightarrow> Inl (Overrun ''proc'')
         | Some p \<Rightarrow>
             kbind (setupkvm s) (\<lambda>(d, s).
               let s = upd_proc p (\<lambda>q. q\<lparr>pgdir := d\<rparr>) s
               in if d = 0 then Inl (Panic ''userinit: out of memory?'')
                  else
                    kbind (inituvm d initcode s) (\<lambda>s.
                    let ds = push_bit 3 SEG_UDATA OR DPL_USER;
                        s = upd_proc p (\<lambda>q. q\<lparr>sz := PGSIZE,
                              tf := zero_tf\<lparr>tf_cs := push_bit 3 SEG_UCODE OR DPL_USER, tf_ds := ds, tf_es := ds,
                                            tf_ss := ds, tf_eflags := FL_IF, tf_esp := PGSIZE, tf_eip := 0\<rparr>,
                              pname := safestrcpy (pname q) (arr (bytes ''initcode'')) 16\<rparr>) s
                    in kbind (namei (bytes ''/'') s) (\<lambda>(root, s).
                       Inr (upd_proc p (\<lambda>q. q\<lparr>cwd := root, npath := (npath q)(0 := 126, 2 := 0), state := RUNNABLE\<rparr>) s)))))"

definition growproc :: "int \<Rightarrow> 'a ft_state_scheme \<Rightarrow> (int \<times> 'a ft_state_scheme) kres" where
  "growproc n s =
     kbind (myproc s) (\<lambda>p.
       let k = sz (ptable s p);
           d = pgdir (ptable s p)
       in kbind (if n > 0 then allocuvm d k (k + of_int n) s
                 else if n < 0 then deallocuvm d k (k + of_int n) s
                 else Inr (k, s)) (\<lambda>(k, s).
            if n \<noteq> 0 \<and> k = 0 then Inr (-1, s)
            else kbind (switchuvm p (upd_proc p (\<lambda>q. q\<lparr>sz := k\<rparr>) s)) (\<lambda>s. Inr (0, s))))"

text \<open>The copy of \<open>npath\<close> stops at its zero byte, which lies inside the array.\<close>

definition copy_npath :: "nat \<Rightarrow> nat \<Rightarrow> 'a proc_state_scheme \<Rightarrow> 'a proc_state_scheme kres" where
  "copy_npath p np s =
     (case List.find (\<lambda>i. npath (ptable s p) i = 0) [0..<PATH_LEN] of
        None \<Rightarrow> Inl (Overrun ''npath'')
      | Some k \<Rightarrow> Inr (upd_proc np (\<lambda>q. q\<lparr>npath := (\<lambda>i. if i \<le> k then npath (ptable s p) i else npath q i)\<rparr>) s))"

definition dup_fd :: "nat \<Rightarrow> nat \<Rightarrow> nat \<Rightarrow> 'a ft_state_scheme \<Rightarrow> 'a ft_state_scheme kres" where
  "dup_fd p np i s =
     (case ofile (ptable s p) i of
        None \<Rightarrow> Inr s
      | Some f \<Rightarrow> kbind (filedup f s) (\<lambda>s. Inr (upd_proc np (\<lambda>q. q\<lparr>ofile := (ofile q)(i := Some f)\<rparr>) s)))"

text \<open>The second half of \<open>fork\<close>: open files, current directory, path and name.\<close>

definition fork_rest :: "nat \<Rightarrow> nat \<Rightarrow> 'a ft_state_scheme \<Rightarrow> (int \<times> 'a ft_state_scheme) kres" where
  "fork_rest p np s =
     kbind (kfold (dup_fd p np) [0..<NOFILE] s) (\<lambda>s.
       case cwd (ptable s p) of
         None \<Rightarrow> Inl (Overrun ''cwd'')
       | Some c \<Rightarrow>
           let (c, s) = idup c s;
               s = upd_proc np (\<lambda>q. q\<lparr>cwd := Some c\<rparr>) s
           in kbind (copy_npath p np s) (\<lambda>s.
              Inr (sint (pid (ptable s np)),
                   upd_proc np (\<lambda>q. q\<lparr>state := RUNNABLE,
                       pname := safestrcpy (pname q) (pname (ptable s p)) 16\<rparr>) s)))"

definition fork :: "'a ft_state_scheme \<Rightarrow> (int \<times> 'a ft_state_scheme) kres" where
  "fork s =
     (let (r, s) = allocproc s
      in case r of
           None \<Rightarrow> Inr (-1, s)
         | Some np \<Rightarrow>
             kbind (myproc s) (\<lambda>p.
             kbind (copyuvm (pgdir (ptable s p)) (sz (ptable s p)) s) (\<lambda>(d, s).
               let s = upd_proc np (\<lambda>q. q\<lparr>pgdir := d\<rparr>) s
               in if d = 0 then
                    kbind (kfree (kstack (ptable s np)) s) (\<lambda>s.
                    Inr (-1, upd_proc np (\<lambda>q. q\<lparr>kstack := 0, state := UNUSED\<rparr>) s))
                  else
                    let s = upd_proc np (\<lambda>q. q\<lparr>sz := sz (ptable s p), parent := Some p,
                                               tf := (tf (ptable s p))\<lparr>tf_eax := 0\<rparr>\<rparr>) s
                    in fork_rest p np s)))"

section \<open>The end of a process\<close>

definition close_fd :: "nat \<Rightarrow> nat \<Rightarrow> 'a ft_state_scheme \<Rightarrow> 'a ft_state_scheme kres" where
  "close_fd p fd s =
     (case ofile (ptable s p) fd of
        None \<Rightarrow> Inr s
      | Some f \<Rightarrow> kbind (fileclose f s) (\<lambda>s. Inr (upd_proc p (\<lambda>q. q\<lparr>ofile := (ofile q)(fd := None)\<rparr>) s)))"

definition abandon :: "nat \<Rightarrow> nat \<Rightarrow> 'a proc_state_scheme \<Rightarrow> 'a proc_state_scheme" where
  "abandon p c s =
     (if parent (ptable s c) = Some p then
        let s = upd_proc c (\<lambda>q. q\<lparr>parent := initproc s\<rparr>) s
        in if state (ptable s c) = ZOMBIE then wakeup1 (map_option ChProc (initproc s)) s else s
      else s)"

text \<open>The end of \<open>exit\<close>, under the lock of the process table.\<close>

definition exit_last :: "nat \<Rightarrow> 'a proc_state_scheme \<Rightarrow> 'a proc_state_scheme" where
  "exit_last p s =
     (let s = upd_proc p (\<lambda>q. q\<lparr>cwd := None, npath := (npath q)(0 := 0)\<rparr>) s;
          s = wakeup1 (map_option ChProc (parent (ptable s p))) s;
          s = fold (abandon p) [0..<NPROC] s
      in upd_proc p (\<lambda>q. q\<lparr>state := ZOMBIE\<rparr>) s)"

text \<open>\<open>exit\<close> up to the call of \<open>sched\<close>, from which it does not return.\<close>

definition exit :: "'a ft_state_scheme \<Rightarrow> 'a ft_state_scheme kres" where
  "exit s =
     kbind (myproc s) (\<lambda>p.
       if initproc s = Some p then Inl (Panic ''init exiting'')
       else
         kbind (kfold (close_fd p) [0..<NOFILE] s) (\<lambda>s.
         kbind (case cwd (ptable s p) of None \<Rightarrow> Inl (Overrun ''cwd'') | Some c \<Rightarrow> iput c s) (\<lambda>s.
         Inr (exit_last p s))))"

definition wait :: "'a proc_state_scheme \<Rightarrow> (int \<times> 'a proc_state_scheme) kres" where
  "wait s =
     kbind (myproc s) (\<lambda>me.
       case List.find (\<lambda>p. parent (ptable s p) = Some me \<and> state (ptable s p) = ZOMBIE) [0..<NPROC] of
         Some p \<Rightarrow>
           kbind (kfree (kstack (ptable s p)) s) (\<lambda>s.
           kbind (freevm (pgdir (ptable s p)) (upd_proc p (\<lambda>q. q\<lparr>kstack := 0\<rparr>) s)) (\<lambda>s.
           Inr (sint (pid (ptable s p)),
                upd_proc p (\<lambda>q. q\<lparr>state := UNUSED, pid := 0, parent := None, pname := (pname q)(0 := 0), killed := False\<rparr>) s)))
       | None \<Rightarrow>
           if (\<forall>p\<in>set [0..<NPROC]. parent (ptable s p) \<noteq> Some me) \<or> killed (ptable s me) then Inr (-1, s)
           else Inl (Sleep (ChProc me)))"

section \<open>Scheduling\<close>

text \<open>
  One round of the loop of \<open>scheduler\<close> at table entry \<open>p\<close>, up to the switch to the process, and the way
  back. The stack pointer of the task state is the one of the chosen process because \<open>proc\<close> is set first.
\<close>

definition sched_pick :: "nat \<Rightarrow> 'a vm_state_scheme \<Rightarrow> 'a vm_state_scheme kres" where
  "sched_pick p s =
     (if state (ptable s p) \<noteq> RUNNABLE then Inr s
      else kbind (switchuvm p (s\<lparr>cur := Some p\<rparr>)) (\<lambda>s. Inr (upd_proc p (\<lambda>q. q\<lparr>state := RUNNING\<rparr>) s)))"

definition sched_return :: "'a vm_state_scheme \<Rightarrow> 'a vm_state_scheme" where
  "sched_return s = (switchkvm s)\<lparr>cur := None\<rparr>"

definition yield_enter :: "'a proc_state_scheme \<Rightarrow> 'a proc_state_scheme kres" where
  "yield_enter s = kbind (myproc s) (\<lambda>p. Inr (upd_proc p (\<lambda>q. q\<lparr>state := RUNNABLE\<rparr>) s))"

definition sleep_enter :: "chan \<Rightarrow> 'a proc_state_scheme \<Rightarrow> 'a proc_state_scheme kres" where
  "sleep_enter c s =
     (case cur s of
        None \<Rightarrow> Inl (Panic ''sleep'')
      | Some p \<Rightarrow> Inr (upd_proc p (\<lambda>q. q\<lparr>chan := Some c, state := SLEEPING\<rparr>) s))"

definition sleep_leave :: "'a proc_state_scheme \<Rightarrow> 'a proc_state_scheme kres" where
  "sleep_leave s = kbind (myproc s) (\<lambda>p. Inr (upd_proc p (\<lambda>q. q\<lparr>chan := None\<rparr>) s))"

definition forkret :: "bool \<Rightarrow> 'a ft_state_scheme \<Rightarrow> (bool \<times> 'a ft_state_scheme) kres" where
  "forkret first s = (if first then kbind (initlog s) (\<lambda>s. Inr (False, s)) else Inr (False, s))"

section \<open>Listing\<close>

text \<open>The chain of frame pointers, from spinlock.c; the array has ten entries, zero after the end.\<close>

fun getcallerpcs_from :: "nat \<Rightarrow> u32 \<Rightarrow> mem \<Rightarrow> u32 list" where
  "getcallerpcs_from 0 ebp m = []"
| "getcallerpcs_from (Suc k) ebp m =
     (if ebp = 0 \<or> ebp < KERNBASE \<or> ebp = 0xffffffff then replicate (Suc k) 0
      else load32 m (ebp + 4) # getcallerpcs_from k (load32 m ebp) m)"

definition getcallerpcs :: "u32 \<Rightarrow> mem \<Rightarrow> u32 list" where
  "getcallerpcs v m = getcallerpcs_from 10 (v - 8) m"

definition state_name :: "procstate \<Rightarrow> cstring" where
  "state_name st = bytes (case st of UNUSED \<Rightarrow> ''unused'' | EMBRYO \<Rightarrow> ''embryo'' | SLEEPING \<Rightarrow> ''sleep '' |
     RUNNABLE \<Rightarrow> ''runble'' | RUNNING \<Rightarrow> ''run   '' | ZOMBIE \<Rightarrow> ''zombie'')"

definition dump_proc :: "nat \<Rightarrow> 'a cons_state_scheme \<Rightarrow> 'a cons_state_scheme kres" where
  "dump_proc p s =
     (let q = ptable s p
      in if state q = UNUSED then Inr s
         else
           kbind (cprintf (\<lambda>a. if a = 1 then state_name (state q) else cstr 16 (pname q))
                    (Some (bytes ''%d %s %s'')) [pid q, 1, 2] s) (\<lambda>s.
           kbind (if state q = SLEEPING
                  then kfold (\<lambda>pc. cprintf (\<lambda>_. []) (Some (bytes '' %p'')) [pc])
                         (takeWhile (\<lambda>pc. pc \<noteq> 0) (getcallerpcs (ctx_ebp (ctxt q) + 8) (mem s))) s
                  else Inr s) (\<lambda>s.
           cprintf (\<lambda>_. []) (Some [10]) [] s)))"

definition procdump :: "'a cons_state_scheme \<Rightarrow> 'a cons_state_scheme kres" where
  "procdump s = kfold dump_proc [0..<NPROC] s"

end
