(* ===== verification/Sysarg.thy ===== *)
theory Sysarg
  imports Process
begin

text \<open>
  The arguments of a system call (syscall.c): words, strings and buffers fetched from the memory of
  the calling process after a check against its size. Memory is read at its user address, through
  the current page table.
\<close>

definition MAXARG :: nat where "MAXARG = 32"
definition NAME_LIMIT :: nat where "NAME_LIMIT = 30"
definition CONTENT_LIMIT :: nat where "CONTENT_LIMIT = 1000"
definition VAR_LIMIT :: nat where "VAR_LIMIT = 100"

record enVariable =
  ev_name :: block
  ev_value :: block
  ev_nameLength :: int
  ev_size :: int

text \<open>The state of the system calls: the tick counter and the environment variables.\<close>

record sys_state = ft_state +
  ticks :: u32
  ev_contents :: "nat \<Rightarrow> enVariable"     \<comment> \<open>\<open>enVarContainer\<close>\<close>
  ev_varNum :: nat
  ev_initiated :: bool

definition le_bytes :: "u8 list \<Rightarrow> u32" where
  "le_bytes bs = get32 (arr bs) 0"

definition fetchint :: "u32 \<Rightarrow> 'a vm_state_scheme \<Rightarrow> u32 option kres" where
  "fetchint addr s =
     kbind (myproc s) (\<lambda>p.
       if addr \<ge> sz (ptable s p) \<or> addr + 4 > sz (ptable s p) then Inr None
       else kbind (user_bytes 4 addr s) (\<lambda>bs. Inr (Some (le_bytes bs))))"

fun fetch_chars :: "nat \<Rightarrow> u32 \<Rightarrow> 'a vm_state_scheme \<Rightarrow> cstring option kres" where
  "fetch_chars 0 va s = Inr None"
| "fetch_chars (Suc k) va s =
     kbind (user_read va s) (\<lambda>b.
       if b = 0 then Inr (Some []) else kbind (fetch_chars k (va + 1) s) (\<lambda>r. Inr (map_option (\<lambda>bs. b # bs) r)))"

definition fetchstr :: "u32 \<Rightarrow> 'a vm_state_scheme \<Rightarrow> cstring option kres" where
  "fetchstr addr s =
     kbind (myproc s) (\<lambda>p.
       if addr \<ge> sz (ptable s p) then Inr None else fetch_chars (unat (sz (ptable s p) - addr)) addr s)"

definition argint :: "nat \<Rightarrow> 'a vm_state_scheme \<Rightarrow> u32 option kres" where
  "argint n s = kbind (myproc s) (\<lambda>p. fetchint (tf_esp (tf (ptable s p)) + 4 + 4 * of_nat n) s)"

definition argptr :: "nat \<Rightarrow> int \<Rightarrow> 'a vm_state_scheme \<Rightarrow> u32 option kres" where
  "argptr n len s =
     kbind (argint n s) (\<lambda>r.
       case r of
         None \<Rightarrow> Inr None
       | Some i \<Rightarrow>
           kbind (myproc s) (\<lambda>p.
             if i \<ge> sz (ptable s p) \<or> i + of_int len > sz (ptable s p) then Inr None else Inr (Some i)))"

definition argstr :: "nat \<Rightarrow> 'a vm_state_scheme \<Rightarrow> cstring option kres" where
  "argstr n s = kbind (argint n s) (\<lambda>r. case r of None \<Rightarrow> Inr None | Some a \<Rightarrow> fetchstr a s)"

text \<open>A call that fails with -1 when an argument is missing.\<close>

definition arg_bind :: "'b option kres \<Rightarrow> 's \<Rightarrow> ('b \<Rightarrow> (int \<times> 's) kres) \<Rightarrow> (int \<times> 's) kres" where
  "arg_bind m s f = kbind m (\<lambda>r. case r of None \<Rightarrow> Inr (-1, s) | Some x \<Rightarrow> f x)"

lemma arg_bind_Some [simp]: "arg_bind (Inr (Some x)) s f = f x"
  by (simp add: arg_bind_def)

lemma arg_bind_None [simp]: "arg_bind (Inr None) s f = Inr (-1, s)"
  by (simp add: arg_bind_def)

end
