(* ===== verification/Sysfile.thy ===== *)
theory Sysfile
  imports Sysarg
begin

text \<open>
  The system calls on files and on the screen (sysfile.c). Strings and buffers are taken from the
  memory of the caller when the arguments are checked; what a call delivers is stored there at the end.
\<close>

definition O_RDONLY :: u32 where "O_RDONLY = 0"
definition O_WRONLY :: u32 where "O_WRONLY = 1"
definition O_RDWR :: u32 where "O_RDWR = 2"
definition O_CREATE :: u32 where "O_CREATE = 0x200"

section \<open>Descriptors\<close>

definition argfd :: "nat \<Rightarrow> 'a vm_state_scheme \<Rightarrow> (nat \<times> nat) option kres" where
  "argfd n s =
     kbind (argint n s) (\<lambda>r.
       case r of
         None \<Rightarrow> Inr None
       | Some w \<Rightarrow>
           kbind (myproc s) (\<lambda>p.
             let fd = sint w
             in if fd < 0 \<or> fd \<ge> int NOFILE then Inr None
                else Inr (map_option (\<lambda>f. (nat fd, f)) (ofile (ptable s p) (nat fd)))))"

definition fdalloc :: "nat \<Rightarrow> 'a proc_state_scheme \<Rightarrow> (nat option \<times> 'a proc_state_scheme) kres" where
  "fdalloc f s =
     kbind (myproc s) (\<lambda>p.
       case List.find (\<lambda>fd. ofile (ptable s p) fd = None) [0..<NOFILE] of
         None \<Rightarrow> Inr (None, s)
       | Some fd \<Rightarrow> Inr (Some fd, upd_proc p (\<lambda>q. q\<lparr>ofile := (ofile q)(fd := Some f)\<rparr>) s))"

definition fd_clear :: "nat \<Rightarrow> 'a proc_state_scheme \<Rightarrow> 'a proc_state_scheme kres" where
  "fd_clear fd s = kbind (myproc s) (\<lambda>p. Inr (upd_proc p (\<lambda>q. q\<lparr>ofile := (ofile q)(fd := None)\<rparr>) s))"

definition sys_dup :: "'a sys_state_scheme \<Rightarrow> (int \<times> 'a sys_state_scheme) kres" where
  "sys_dup s =
     arg_bind (argfd 0 s) s (\<lambda>(_, f).
     kbind (fdalloc f s) (\<lambda>(r, s).
       case r of None \<Rightarrow> Inr (-1, s) | Some fd \<Rightarrow> kbind (filedup f s) (\<lambda>s. Inr (int fd, s))))"

definition sys_read :: "'a sys_state_scheme \<Rightarrow> (int \<times> 'a sys_state_scheme) kres" where
  "sys_read s =
     arg_bind (argfd 0 s) s (\<lambda>(_, f).
     arg_bind (argint 2 s) s (\<lambda>n.
     arg_bind (argptr 1 (sint n) s) s (\<lambda>p.
     kbind (fileread f (sint n) s) (\<lambda>(r, bs, s).
     kbind (user_store p bs s) (\<lambda>s. Inr (r, s))))))"

definition sys_write :: "'a sys_state_scheme \<Rightarrow> (int \<times> 'a sys_state_scheme) kres" where
  "sys_write s =
     arg_bind (argfd 0 s) s (\<lambda>(_, f).
     arg_bind (argint 2 s) s (\<lambda>n.
     arg_bind (argptr 1 (sint n) s) s (\<lambda>p.
     kbind (if f_writable (ftable s f) then user_bytes (nat (sint n)) p s else Inr []) (\<lambda>bs.
     filewrite f bs (sint n) s))))"

definition sys_close :: "'a sys_state_scheme \<Rightarrow> (int \<times> 'a sys_state_scheme) kres" where
  "sys_close s =
     arg_bind (argfd 0 s) s (\<lambda>(fd, f).
     kbind (fd_clear fd s) (\<lambda>s. kbind (fileclose f s) (\<lambda>s. Inr (0, s))))"

text \<open>A struct stat in memory: 20 bytes, with padding after \<open>type\<close> and \<open>nlink\<close>.\<close>

definition stat_bytes :: "stat \<Rightarrow> u8 list \<Rightarrow> u8 list" where
  "stat_bytes st old =
     map (put32 16 (st_size st) (put16 12 (st_nlink st) (put32 8 (st_ino st) (put32 4 (st_dev st) (put16 0 (st_type st) (arr old))))))
       [0..<20]"

definition sys_fstat :: "'a sys_state_scheme \<Rightarrow> (int \<times> 'a sys_state_scheme) kres" where
  "sys_fstat s =
     arg_bind (argfd 0 s) s (\<lambda>(_, f).
     arg_bind (argptr 1 20 s) s (\<lambda>p.
     kbind (filestat f s) (\<lambda>(r, s).
       case r of
         None \<Rightarrow> Inr (-1, s)
       | Some st \<Rightarrow> kbind (user_bytes 20 p s) (\<lambda>old. kbind (user_store p (stat_bytes st old) s) (\<lambda>s. Inr (0, s))))))"

section \<open>Links\<close>

definition add_nlink :: "nat \<Rightarrow> u16 \<Rightarrow> 'a fs_state_scheme \<Rightarrow> 'a fs_state_scheme kres" where
  "add_nlink ip d s = iupdate ip (upd_inode ip (\<lambda>x. x\<lparr>i_nlink := i_nlink x + d\<rparr>) s)"

definition link_bad :: "nat \<Rightarrow> 'a fs_state_scheme \<Rightarrow> (int \<times> 'a fs_state_scheme) kres" where
  "link_bad ip s =
     kbind (ilock ip s) (\<lambda>s.
     kbind (add_nlink ip (-1) s) (\<lambda>s.
     kbind (iunlockput ip s) (\<lambda>s.
     kbind (commit_trans s) (\<lambda>s. Inr (-1, s)))))"

definition sys_link :: "'a sys_state_scheme \<Rightarrow> (int \<times> 'a sys_state_scheme) kres" where
  "sys_link s =
     arg_bind (argstr 0 s) s (\<lambda>old.
     arg_bind (argstr 1 s) s (\<lambda>new.
     kbind (namei old s) (\<lambda>(r, s).
       case r of
         None \<Rightarrow> Inr (-1, s)
       | Some ip \<Rightarrow>
           kbind (begin_trans s) (\<lambda>s.
           kbind (ilock ip s) (\<lambda>s.
             if i_type (inodes s ip) = T_DIR then
               kbind (iunlockput ip s) (\<lambda>s. kbind (commit_trans s) (\<lambda>s. Inr (-1, s)))
             else
               kbind (add_nlink ip 1 s) (\<lambda>s.
               kbind (iunlock ip s) (\<lambda>s.
               kbind (nameiparent new (\<lambda>_. 0) s) (\<lambda>((d, name), s).
                 case d of
                   None \<Rightarrow> link_bad ip s
                 | Some dp \<Rightarrow>
                     kbind (ilock dp s) (\<lambda>s.
                     kbind (if i_dev (inodes s dp) \<noteq> i_dev (inodes s ip) then Inr (-1, s)
                            else dirlink dp name (i_inum (inodes s ip)) s) (\<lambda>(r, s).
                       if r < 0 then kbind (iunlockput dp s) (link_bad ip)
                       else
                         kbind (iunlockput dp s) (\<lambda>s.
                         kbind (iput ip s) (\<lambda>s.
                         kbind (commit_trans s) (\<lambda>s. Inr (0, s))))))))))))))"

function isdirempty_from :: "nat \<Rightarrow> nat \<Rightarrow> 'a cons_state_scheme \<Rightarrow> (bool \<times> 'a cons_state_scheme) kres" where
  "isdirempty_from dp off s =
     (if off < unat (i_size (inodes s dp)) then
        kbind (readi dp (of_nat off) 16 s) (\<lambda>(r, bs, s).
          if r \<noteq> 16 then Inl (Panic ''isdirempty: readi'')
          else if de_inum (decode_dirent bs) \<noteq> 0 then Inr (False, s)
          else isdirempty_from dp (off + 16) s)
      else Inr (True, s))"
  by pat_completeness auto
termination
proof (relation "measure (\<lambda>(dp, off, s). 2 ^ 32 - off)", simp)
  fix dp off and s :: "'a cons_state_scheme" and x r y bs t
  assume "off < unat (i_size (inodes s dp))"
  then have "off < 2 ^ 32" using unat_lt2p_u32 less_trans by blast
  then show "((dp, off + 16, t), dp, off, s) \<in> measure (\<lambda>(dp, off, s). 2 ^ 32 - off)" by simp
qed

declare isdirempty_from.simps [simp del]

definition isdirempty :: "nat \<Rightarrow> 'a cons_state_scheme \<Rightarrow> (bool \<times> 'a cons_state_scheme) kres" where
  "isdirempty dp s = isdirempty_from dp 32 s"

definition unlink_bad :: "nat \<Rightarrow> 'a fs_state_scheme \<Rightarrow> (int \<times> 'a fs_state_scheme) kres" where
  "unlink_bad dp s = kbind (iunlockput dp s) (\<lambda>s. kbind (commit_trans s) (\<lambda>s. Inr (-1, s)))"

definition sys_unlink :: "'a sys_state_scheme \<Rightarrow> (int \<times> 'a sys_state_scheme) kres" where
  "sys_unlink s =
     arg_bind (argstr 0 s) s (\<lambda>path.
     kbind (nameiparent path (\<lambda>_. 0) s) (\<lambda>((d, name), s).
       case d of
         None \<Rightarrow> Inr (-1, s)
       | Some dp \<Rightarrow>
           kbind (begin_trans s) (\<lambda>s.
           kbind (ilock dp s) (\<lambda>s.
             if namecmp name (arr (bytes ''.'')) = 0 \<or> namecmp name (arr (bytes ''..'')) = 0 then unlink_bad dp s
             else
               kbind (dirlookup dp name s) (\<lambda>(r, s).
                 case r of
                   None \<Rightarrow> unlink_bad dp s
                 | Some (ip, off) \<Rightarrow>
                     kbind (ilock ip s) (\<lambda>s.
                       if sint (i_nlink (inodes s ip)) < 1 then Inl (Panic ''unlink: nlink < 1'')
                       else
                         kbind (if i_type (inodes s ip) = T_DIR then isdirempty ip s else Inr (True, s)) (\<lambda>(e, s).
                           if \<not> e then kbind (iunlockput ip s) (unlink_bad dp)
                           else
                             kbind (writei dp (\<lambda>_. 0) (of_nat off) 16 s) (\<lambda>(r, s).
                               if r \<noteq> 16 then Inl (Panic ''unlink: writei'')
                               else
                                 kbind (if i_type (inodes s ip) = T_DIR then add_nlink dp (-1) s else Inr s) (\<lambda>s.
                                 kbind (iunlockput dp s) (\<lambda>s.
                                 kbind (add_nlink ip (-1) s) (\<lambda>s.
                                 kbind (iunlockput ip s) (\<lambda>s.
                                 kbind (commit_trans s) (\<lambda>s. Inr (0, s))))))))))))))"

section \<open>Creating and opening\<close>

definition init_dir :: "nat \<Rightarrow> nat \<Rightarrow> 'a cons_state_scheme \<Rightarrow> 'a cons_state_scheme kres" where
  "init_dir dp ip s =
     kbind (add_nlink dp 1 s) (\<lambda>s.
     kbind (dirlink ip (arr (bytes ''.'')) (i_inum (inodes s ip)) s) (\<lambda>(r, s).
       if r < 0 then Inl (Panic ''create dots'')
       else kbind (dirlink ip (arr (bytes ''..'')) (i_inum (inodes s dp)) s) (\<lambda>(r, s).
              if r < 0 then Inl (Panic ''create dots'') else Inr s)))"

text \<open>The inode \<open>create\<close> returns is locked.\<close>

definition create :: "cstring \<Rightarrow> u16 \<Rightarrow> u16 \<Rightarrow> u16 \<Rightarrow> 'a cons_state_scheme \<Rightarrow> (nat option \<times> 'a cons_state_scheme) kres" where
  "create path ty major minor s =
     kbind (nameiparent path (\<lambda>_. 0) s) (\<lambda>((d, name), s).
       case d of
         None \<Rightarrow> Inr (None, s)
       | Some dp \<Rightarrow>
           kbind (ilock dp s) (\<lambda>s.
           kbind (dirlookup dp name s) (\<lambda>(r, s).
             case r of
               Some (ip, _) \<Rightarrow>
                 kbind (iunlockput dp s) (\<lambda>s.
                 kbind (ilock ip s) (\<lambda>s.
                   if ty = T_FILE \<and> i_type (inodes s ip) = T_FILE then Inr (Some ip, s)
                   else kbind (iunlockput ip s) (\<lambda>s. Inr (None, s))))
             | None \<Rightarrow>
                 kbind (ialloc (i_dev (inodes s dp)) ty s) (\<lambda>(ip, s).
                 kbind (ilock ip s) (\<lambda>s.
                 kbind (iupdate ip (upd_inode ip (\<lambda>x. x\<lparr>i_major := major, i_minor := minor, i_nlink := 1\<rparr>) s)) (\<lambda>s.
                 kbind (if ty = T_DIR then init_dir dp ip s else Inr s) (\<lambda>s.
                 kbind (dirlink dp name (i_inum (inodes s ip)) s) (\<lambda>(r, s).
                   if r < 0 then Inl (Panic ''create: dirlink'')
                   else kbind (iunlockput dp s) (\<lambda>s. Inr (Some ip, s))))))))))"

definition open_inode :: "nat \<Rightarrow> u32 \<Rightarrow> 'a ft_state_scheme \<Rightarrow> (int \<times> 'a ft_state_scheme) kres" where
  "open_inode ip omode s =
     (case filealloc s of
        (None, s) \<Rightarrow> kbind (iunlockput ip s) (\<lambda>s. Inr (-1, s))
      | (Some f, s) \<Rightarrow>
          kbind (fdalloc f s) (\<lambda>(r, s).
            case r of
              None \<Rightarrow> kbind (fileclose f s) (\<lambda>s. kbind (iunlockput ip s) (\<lambda>s. Inr (-1, s)))
            | Some fd \<Rightarrow>
                kbind (iunlock ip s) (\<lambda>s.
                Inr (int fd, upd_file f (\<lambda>x. x\<lparr>f_type := FD_INODE, f_ip := ip, f_off := 0,
                       f_readable := (omode AND O_WRONLY = 0),
                       f_writable := (omode AND O_WRONLY \<noteq> 0 \<or> omode AND O_RDWR \<noteq> 0)\<rparr>) s))))"

definition sys_open :: "'a sys_state_scheme \<Rightarrow> (int \<times> 'a sys_state_scheme) kres" where
  "sys_open s =
     arg_bind (argstr 0 s) s (\<lambda>path.
     arg_bind (argint 1 s) s (\<lambda>omode.
       if omode AND O_CREATE \<noteq> 0 then
         kbind (begin_trans s) (\<lambda>s.
         kbind (create path T_FILE 0 0 s) (\<lambda>(r, s).
         kbind (commit_trans s) (\<lambda>s.
           case r of None \<Rightarrow> Inr (-1, s) | Some ip \<Rightarrow> open_inode ip omode s)))
       else
         kbind (namei path s) (\<lambda>(r, s).
           case r of
             None \<Rightarrow> Inr (-1, s)
           | Some ip \<Rightarrow>
               kbind (ilock ip s) (\<lambda>s.
                 if i_type (inodes s ip) = T_DIR \<and> omode \<noteq> O_RDONLY
                 then kbind (iunlockput ip s) (\<lambda>s. Inr (-1, s)) else open_inode ip omode s))))"

text \<open>The end of \<open>sys_mkdir\<close> and \<open>sys_mknod\<close>, inside their transaction.\<close>

definition create_done :: "nat option \<Rightarrow> 'a fs_state_scheme \<Rightarrow> (int \<times> 'a fs_state_scheme) kres" where
  "create_done r s =
     (case r of
        None \<Rightarrow> kbind (commit_trans s) (\<lambda>s. Inr (-1, s))
      | Some ip \<Rightarrow> kbind (iunlockput ip s) (\<lambda>s. kbind (commit_trans s) (\<lambda>s. Inr (0, s))))"

definition sys_mkdir :: "'a sys_state_scheme \<Rightarrow> (int \<times> 'a sys_state_scheme) kres" where
  "sys_mkdir s =
     kbind (begin_trans s) (\<lambda>s.
     kbind (argstr 0 s) (\<lambda>a.
       case a of
         None \<Rightarrow> create_done None s
       | Some path \<Rightarrow> kbind (create path T_DIR 0 0 s) (\<lambda>(r, s). create_done r s)))"

definition sys_mknod :: "'a sys_state_scheme \<Rightarrow> (int \<times> 'a sys_state_scheme) kres" where
  "sys_mknod s =
     kbind (begin_trans s) (\<lambda>s.
     kbind (argstr 0 s) (\<lambda>a. case a of None \<Rightarrow> create_done None s | Some path \<Rightarrow>
     kbind (argint 1 s) (\<lambda>a. case a of None \<Rightarrow> create_done None s | Some major \<Rightarrow>
     kbind (argint 2 s) (\<lambda>a. case a of None \<Rightarrow> create_done None s | Some minor \<Rightarrow>
     kbind (create path T_DEV (ucast major) (ucast minor) s) (\<lambda>(r, s). create_done r s)))))"

section \<open>The current directory\<close>

text \<open>\<open>npath\<close> grows by a slash and the path; the array has \<open>PATH_LEN\<close> bytes and there is no check.\<close>

definition append_npath :: "nat \<Rightarrow> cstring \<Rightarrow> 'a proc_state_scheme \<Rightarrow> 'a proc_state_scheme kres" where
  "append_npath p path s =
     (case List.find (\<lambda>i. npath (ptable s p) i = 0) [0..<PATH_LEN] of
        None \<Rightarrow> Inl (Overrun ''npath'')
      | Some k \<Rightarrow>
          if k + 1 + length path \<ge> PATH_LEN then Inl (Overrun ''npath'')
          else Inr (upd_proc p (\<lambda>q. q\<lparr>npath := (blit (k + 1) (length path) (arr path) ((npath q)(k := 47)))(k + 1 + length path := 0)\<rparr>) s))"

definition set_cwd :: "nat \<Rightarrow> nat \<Rightarrow> 'a fs_state_scheme \<Rightarrow> 'a fs_state_scheme kres" where
  "set_cwd p ip s =
     (case cwd (ptable s p) of
        None \<Rightarrow> Inl (Overrun ''cwd'')
      | Some c \<Rightarrow> kbind (iput c s) (\<lambda>s. Inr (upd_proc p (\<lambda>q. q\<lparr>cwd := Some ip\<rparr>) s)))"

definition sys_chdir :: "'a sys_state_scheme \<Rightarrow> (int \<times> 'a sys_state_scheme) kres" where
  "sys_chdir s =
     arg_bind (argstr 0 s) s (\<lambda>path.
     kbind (namei path s) (\<lambda>(r, s).
       case r of
         None \<Rightarrow> Inr (-1, s)
       | Some ip \<Rightarrow>
           kbind (ilock ip s) (\<lambda>s.
             if i_type (inodes s ip) \<noteq> T_DIR then kbind (iunlockput ip s) (\<lambda>s. Inr (-1, s))
             else
               kbind (iunlock ip s) (\<lambda>s.
               kbind (myproc s) (\<lambda>p.
               kbind (set_cwd p ip s) (\<lambda>s.
               kbind (append_npath p path s) (\<lambda>s. Inr (0, s))))))))"

text \<open>
  \<open>sys_retprt\<close> cuts the last element off the path after \<open>~/\<close>, and looks the rest up in the root
  directory as one name; an empty path makes it write in front of \<open>pth\<close>.
\<close>

definition sys_retprt :: "'a sys_state_scheme \<Rightarrow> (int \<times> 'a sys_state_scheme) kres" where
  "sys_retprt s =
     kbind (myproc s) (\<lambda>p.
       let np = npath (ptable s p)
       in if np 1 = 0 then Inr (0, s)
          else
            case List.find (\<lambda>i. np i = 0) [2..<PATH_LEN] of
              None \<Rightarrow> Inl (Overrun ''npath'')
            | Some k \<Rightarrow>
                if k = 2 then Inl (Overrun ''pth'')
                else
                  let i = (case List.find (\<lambda>i. np (i + 2) = 47) (rev [1..<k - 2]) of None \<Rightarrow> 0 | Some i \<Rightarrow> i);
                      pth = (\<lambda>j. if j < i then np (j + 2) else 0)
                  in kbind (namei (bytes ''/'') s) (\<lambda>(root, s).
                       case root of
                         None \<Rightarrow> Inl (Overrun ''root'')
                       | Some root \<Rightarrow>
                           if i = 0 then
                             kbind (set_cwd p root s) (\<lambda>s. Inr (1, upd_proc p (\<lambda>q. q\<lparr>npath := (npath q)(1 := 0)\<rparr>) s))
                           else
                             kbind (dirlookup root pth s) (\<lambda>(r, s).
                               case r of
                                 None \<Rightarrow> Inr (0, s)
                               | Some (par, _) \<Rightarrow>
                                   kbind (set_cwd p par s) (\<lambda>s.
                                   Inr (1, upd_proc p (\<lambda>q. q\<lparr>npath := (blit 2 i pth (npath q))(i + 2 := 0)\<rparr>) s)))))"

definition sys_swpath :: "'a sys_state_scheme \<Rightarrow> (int \<times> 'a sys_state_scheme) kres" where
  "sys_swpath s =
     kbind (myproc s) (\<lambda>p.
     kbind (cprintf (\<lambda>_. cstr PATH_LEN (npath (ptable s p))) (Some (bytes ''%s'')) [1] s) (\<lambda>s.
     Inr (if npath (ptable s p) 0 = 126 then 1 else 0, s)))"

section \<open>Pipes\<close>

definition sys_pipe :: "'a sys_state_scheme \<Rightarrow> (int \<times> 'a sys_state_scheme) kres" where
  "sys_pipe s =
     arg_bind (argptr 0 8 s) s (\<lambda>a.
     kbind (pipealloc s) (\<lambda>(r, s).
       case r of
         None \<Rightarrow> Inr (-1, s)
       | Some (fr, fw) \<Rightarrow>
           kbind (fdalloc fr s) (\<lambda>(r0, s).
             case r0 of
               None \<Rightarrow> kbind (fileclose fr s) (\<lambda>s. kbind (fileclose fw s) (\<lambda>s. Inr (-1, s)))
             | Some fd0 \<Rightarrow>
                 kbind (fdalloc fw s) (\<lambda>(r1, s).
                   case r1 of
                     None \<Rightarrow>
                       kbind (fd_clear fd0 s) (\<lambda>s.
                       kbind (fileclose fr s) (\<lambda>s. kbind (fileclose fw s) (\<lambda>s. Inr (-1, s))))
                   | Some fd1 \<Rightarrow>
                       kbind (user_store a (map (put32 4 (of_nat fd1) (put32 0 (of_nat fd0) (\<lambda>_. 0))) [0..<8]) s) (\<lambda>s.
                       Inr (0, s))))))"

section \<open>The screen\<close>

definition sys_hlight :: "'a sys_state_scheme \<Rightarrow> (int \<times> 'a sys_state_scheme) kres" where
  "sys_hlight s = kbind (argint 0 s) (\<lambda>r. case r of None \<Rightarrow> Inr (0, s) | Some t \<Rightarrow> Inr (1, s\<lparr>hlighttype := sint t\<rparr>))"

text \<open>The test uses \<open>&&\<close>: with the first argument missing and the second there, \<open>type\<close> is not set.\<close>

definition sys_cmdmod :: "'a sys_state_scheme \<Rightarrow> (int \<times> 'a sys_state_scheme) kres" where
  "sys_cmdmod s =
     kbind (argint 0 s) (\<lambda>r.
       case r of
         None \<Rightarrow> kbind (argint 1 s) (\<lambda>r. case r of None \<Rightarrow> Inr (-1, s) | Some _ \<Rightarrow> Inl (Overrun ''type''))
       | Some t \<Rightarrow>
           let s = s\<lparr>isConsole := sint t\<rparr>
           in Inr (0, if isConsole s \<noteq> 0 then s\<lparr>esc_mode := False\<rparr> else s))"

definition sys_clrscr :: "'a sys_state_scheme \<Rightarrow> (int \<times> 'a sys_state_scheme) kres" where
  "sys_clrscr s = Inr (0, clearscreen s)"

definition sys_getpos :: "'a sys_state_scheme \<Rightarrow> (int \<times> 'a sys_state_scheme) kres" where
  "sys_getpos s = Inr (getpos s, s)"

text \<open>\<open>setline\<close> reads 80 bytes from the string, also past its end.\<close>

definition sys_setcln :: "'a sys_state_scheme \<Rightarrow> (int \<times> 'a sys_state_scheme) kres" where
  "sys_setcln s =
     arg_bind (argstr 1 s) s (\<lambda>_.
     arg_bind (argint 0 s) s (\<lambda>nline.
     arg_bind (argint 1 s) s (\<lambda>a.
     kbind (user_bytes 80 a s) (\<lambda>line. Inr (0, setline (arr line) (sint nline) s)))))"

definition sys_lstpos :: "'a sys_state_scheme \<Rightarrow> (int \<times> 'a sys_state_scheme) kres" where
  "sys_lstpos s = Inr (lastpos s, s)"

definition sys_hlline :: "'a sys_state_scheme \<Rightarrow> (int \<times> 'a sys_state_scheme) kres" where
  "sys_hlline s = arg_bind (argint 0 s) s (\<lambda>n. kbind (updatehlight (sint n) s) (\<lambda>s. Inr (1, s)))"

definition sys_delhlt :: "'a sys_state_scheme \<Rightarrow> (int \<times> 'a sys_state_scheme) kres" where
  "sys_delhlt s = arg_bind (argint 0 s) s (\<lambda>n. Inr (1, deletehlight (sint n) s))"

definition sys_outexac :: "'a sys_state_scheme \<Rightarrow> (int \<times> 'a sys_state_scheme) kres" where
  "sys_outexac s =
     arg_bind (argint 0 s) s (\<lambda>x. arg_bind (argint 1 s) s (\<lambda>y. arg_bind (argint 2 s) s (\<lambda>w.
     Inr (0, printat (sint x) (sint y) (sint w) s))))"

definition sys_gameget :: "'a sys_state_scheme \<Rightarrow> (int \<times> 'a sys_state_scheme) kres" where
  "sys_gameget s = (if gameGet s then Inr (-1, s) else Inr (gameInput s, s\<lparr>gameGet := True\<rparr>))"

end
