(* ===== verification/Exec.thy ===== *)
theory Exec
  imports Sysfile
begin

text \<open>
  Loading a program (exec.c, elf.h) and the system call for it (sysfile.c). The arguments are strings
  of the old address space, read before it is replaced.
\<close>

definition ELF_MAGIC :: u32 where "ELF_MAGIC = 0x464C457F"
definition ELF_PROG_LOAD :: u32 where "ELF_PROG_LOAD = 1"

record elfhdr =
  elf_magic :: u32
  elf_entry :: u32
  elf_phoff :: u32
  elf_phnum :: u16

record proghdr =
  ph_type :: u32
  ph_off :: u32
  ph_vaddr :: u32
  ph_filesz :: u32
  ph_memsz :: u32

text \<open>The fields of the two headers that \<open>exec\<close> reads, at their offsets: 52 and 32 bytes in all.\<close>

definition decode_elfhdr :: "u8 list \<Rightarrow> elfhdr" where
  "decode_elfhdr bs = \<lparr>elf_magic = get32 (arr bs) 0, elf_entry = get32 (arr bs) 24,
                       elf_phoff = get32 (arr bs) 28, elf_phnum = get16 (arr bs) 44\<rparr>"

definition decode_proghdr :: "u8 list \<Rightarrow> proghdr" where
  "decode_proghdr bs = \<lparr>ph_type = get32 (arr bs) 0, ph_off = get32 (arr bs) 4, ph_vaddr = get32 (arr bs) 8,
                        ph_filesz = get32 (arr bs) 16, ph_memsz = get32 (arr bs) 20\<rparr>"

text \<open>The label \<open>bad\<close>, with the page directory (0 for none) and the inode still held.\<close>

definition exec_bad :: "u32 \<Rightarrow> nat option \<Rightarrow> 'a ft_state_scheme \<Rightarrow> (int \<times> 'a ft_state_scheme) kres" where
  "exec_bad dir ip s =
     kbind (if dir \<noteq> 0 then freevm dir s else Inr s) (\<lambda>s.
     kbind (case ip of None \<Rightarrow> Inr s | Some i \<Rightarrow> iunlockput i s) (\<lambda>s. Inr (-1, s)))"

text \<open>The segments of the program; \<open>None\<close> stands for a jump to \<open>bad\<close>.\<close>

fun exec_load :: "nat \<Rightarrow> nat \<Rightarrow> u32 \<Rightarrow> u32 \<Rightarrow> u32 \<Rightarrow> 'a ft_state_scheme \<Rightarrow> (u32 option \<times> 'a ft_state_scheme) kres" where
  "exec_load 0 ip dir off sz1 s = Inr (Some sz1, s)"
| "exec_load (Suc k) ip dir off sz1 s =
     kbind (readi ip off 32 s) (\<lambda>(r, bs, s).
       if r \<noteq> 32 then Inr (None, s)
       else
         let ph = decode_proghdr bs
         in if ph_type ph \<noteq> ELF_PROG_LOAD then exec_load k ip dir (off + 32) sz1 s
            else if ph_memsz ph < ph_filesz ph then Inr (None, s)
            else
              kbind (allocuvm dir sz1 (ph_vaddr ph + ph_memsz ph) s) (\<lambda>(sz1, s).
                if sz1 = 0 then Inr (None, s)
                else
                  kbind (loaduvm dir (ph_vaddr ph) ip (ph_off ph) (ph_filesz ph) s) (\<lambda>(r, s).
                    if r < 0 then Inr (None, s) else exec_load k ip dir (off + 32) sz1 s)))"

text \<open>The argument strings go onto the new stack; the result is the list of their addresses.\<close>

fun exec_args :: "nat \<Rightarrow> u32 \<Rightarrow> cstring list \<Rightarrow> u32 \<Rightarrow> 'a ft_state_scheme \<Rightarrow> ((u32 \<times> u32 list) option \<times> 'a ft_state_scheme) kres" where
  "exec_args argc dir [] sp s = Inr (Some (sp, []), s)"
| "exec_args argc dir (a # as) sp s =
     (if argc \<ge> MAXARG then Inr (None, s)
      else
        let sp = (sp - of_nat (length a + 1)) AND NOT 3
        in kbind (copyout dir sp (a @ [0]) s) (\<lambda>(r, s).
             if r < 0 then Inr (None, s)
             else kbind (exec_args (argc + 1) dir as sp s) (\<lambda>(q, s).
                    Inr (map_option (\<lambda>(sp', us). (sp', sp # us)) q, s))))"

definition word_bytes :: "u32 list \<Rightarrow> u8 list" where
  "word_bytes ws = concat (map (\<lambda>w. map (put32 0 w (\<lambda>_. 0)) [0..<4]) ws)"

text \<open>The fake return address, the argument count and the argument vector.\<close>

definition exec_ustack :: "u32 \<Rightarrow> u32 list \<Rightarrow> u32 list" where
  "exec_ustack sp us =
     [0xffffffff, of_nat (length us), sp - of_nat ((length us + 1) * 4)] @ us @ [0]"

text \<open>The part of the path after its last slash.\<close>

definition last_elem :: "cstring \<Rightarrow> cstring" where
  "last_elem path = rev (takeWhile (\<lambda>c. c \<noteq> 47) (rev path))"

definition exec_commit :: "cstring \<Rightarrow> elfhdr \<Rightarrow> u32 \<Rightarrow> u32 \<Rightarrow> u32 \<Rightarrow> 'a ft_state_scheme \<Rightarrow> (int \<times> 'a ft_state_scheme) kres" where
  "exec_commit path elf dir sz1 sp s =
     kbind (myproc s) (\<lambda>p.
       let old = pgdir (ptable s p);
           s = upd_proc p (\<lambda>q. q\<lparr>pname := safestrcpy (pname q) (arr (last_elem path)) 16, pgdir := dir, sz := sz1,
                                 tf := (tf q)\<lparr>tf_eip := elf_entry elf, tf_esp := sp\<rparr>\<rparr>) s
       in kbind (switchuvm p s) (\<lambda>s. kbind (freevm old s) (\<lambda>s. Inr (0, s))))"

definition exec_stack :: "cstring \<Rightarrow> cstring list \<Rightarrow> elfhdr \<Rightarrow> u32 \<Rightarrow> u32 \<Rightarrow> 'a ft_state_scheme \<Rightarrow> (int \<times> 'a ft_state_scheme) kres" where
  "exec_stack path argv elf dir sz1 s =
     (let sz1 = PGROUNDUP sz1
      in kbind (allocuvm dir sz1 (sz1 + 2 * PGSIZE) s) (\<lambda>(sz1, s).
           if sz1 = 0 then exec_bad dir None s
           else
             kbind (clearpteu dir (sz1 - 2 * PGSIZE) s) (\<lambda>s.
             kbind (exec_args 0 dir argv sz1 s) (\<lambda>(q, s).
               case q of
                 None \<Rightarrow> exec_bad dir None s
               | Some (sp, us) \<Rightarrow>
                   let sp' = sp - of_nat ((3 + length us + 1) * 4)
                   in kbind (copyout dir sp' (word_bytes (exec_ustack sp us)) s) (\<lambda>(r, s).
                        if r < 0 then exec_bad dir None s else exec_commit path elf dir sz1 sp' s)))))"

text \<open>
  A header that is too short is compared as an unsigned number: the -1 of a device without a read
  function passes the test, and the header is then whatever the stack holds.
\<close>

definition exec_image :: "cstring \<Rightarrow> cstring list \<Rightarrow> nat \<Rightarrow> 'a ft_state_scheme \<Rightarrow> (int \<times> 'a ft_state_scheme) kres" where
  "exec_image path argv ip s =
     kbind (ilock ip s) (\<lambda>s.
     kbind (readi ip 0 52 s) (\<lambda>(r, bs, s).
       if r < 0 then Inl (Overrun ''elf'')
       else if r < 52 then exec_bad 0 (Some ip) s
       else
         let elf = decode_elfhdr bs
         in if elf_magic elf \<noteq> ELF_MAGIC then exec_bad 0 (Some ip) s
            else
              kbind (setupkvm s) (\<lambda>(dir, s).
                if dir = 0 then exec_bad 0 (Some ip) s
                else
                  kbind (exec_load (unat (elf_phnum elf)) ip dir (elf_phoff elf) 0 s) (\<lambda>(q, s).
                    case q of
                      None \<Rightarrow> exec_bad dir (Some ip) s
                    | Some sz1 \<Rightarrow> kbind (iunlockput ip s) (exec_stack path argv elf dir sz1)))))"

text \<open>A path that is not found is looked up as one name in the root directory, which stays unlocked.\<close>

definition exec :: "cstring \<Rightarrow> cstring list \<Rightarrow> 'a ft_state_scheme \<Rightarrow> (int \<times> 'a ft_state_scheme) kres" where
  "exec path argv s =
     kbind (namei (bytes ''/'') s) (\<lambda>(root, s).
     kbind (namei path s) (\<lambda>(r, s).
       case r of
         Some ip \<Rightarrow> exec_image path argv ip s
       | None \<Rightarrow>
           (case root of
              None \<Rightarrow> Inl (Overrun ''root'')
            | Some root \<Rightarrow>
                kbind (dirlookup root (arr path) s) (\<lambda>(r, s).
                  case r of None \<Rightarrow> Inr (-1, s) | Some (ip, _) \<Rightarrow> exec_image path argv ip s))))"

text \<open>The vector of argument strings: at most 32 words, the last of them zero.\<close>

fun fetch_argv :: "nat \<Rightarrow> u32 \<Rightarrow> 'a vm_state_scheme \<Rightarrow> cstring list option kres" where
  "fetch_argv 0 ua s = Inr None"
| "fetch_argv (Suc k) ua s =
     kbind (fetchint ua s) (\<lambda>r.
       case r of
         None \<Rightarrow> Inr None
       | Some uarg \<Rightarrow>
           if uarg = 0 then Inr (Some [])
           else
             kbind (fetchstr uarg s) (\<lambda>r.
               case r of
                 None \<Rightarrow> Inr None
               | Some a \<Rightarrow> kbind (fetch_argv k (ua + 4) s) (\<lambda>r. Inr (map_option (\<lambda>as. a # as) r))))"

definition sys_exec :: "'a sys_state_scheme \<Rightarrow> (int \<times> 'a sys_state_scheme) kres" where
  "sys_exec s =
     arg_bind (argstr 0 s) s (\<lambda>path.
     arg_bind (argint 1 s) s (\<lambda>uargv.
     arg_bind (fetch_argv MAXARG uargv s) s (\<lambda>argv. exec path argv s)))"

end
