(* ===== verification/Rtc.thy ===== *)
theory Rtc
  imports Prelude
begin

text \<open>
  The real time clock (the part of lapic.c that reads it, date.h). The clock is a function from the
  number of a read and a register to the byte read, because the registers change between reads.
\<close>

section \<open>Reading the clock\<close>

definition CMOS_STATA :: nat where "CMOS_STATA = 0x0a"
definition CMOS_STATB :: nat where "CMOS_STATB = 0x0b"
definition CMOS_UIP :: u32 where "CMOS_UIP = 0x80"
definition SECS :: nat where "SECS = 0x00"
definition MINS :: nat where "MINS = 0x02"
definition HOURS :: nat where "HOURS = 0x04"
definition DAY :: nat where "DAY = 0x07"
definition MONTH :: nat where "MONTH = 0x08"
definition YEAR :: nat where "YEAR = 0x09"

record rtcdate =
  second :: u32
  minute :: u32
  hour :: u32
  day :: u32
  month :: u32
  year :: u32

type_synonym clock = "nat \<Rightarrow> nat \<Rightarrow> u8"

definition cmos_read :: "clock \<Rightarrow> nat \<Rightarrow> nat \<Rightarrow> u32" where
  "cmos_read rd t reg = ucast (rd t reg)"

text \<open>Six reads, numbered from \<open>t\<close>.\<close>

definition fill_rtcdate :: "clock \<Rightarrow> nat \<Rightarrow> rtcdate" where
  "fill_rtcdate rd t =
     \<lparr>second = cmos_read rd t SECS, minute = cmos_read rd (t + 1) MINS, hour = cmos_read rd (t + 2) HOURS,
      day = cmos_read rd (t + 3) DAY, month = cmos_read rd (t + 4) MONTH, year = cmos_read rd (t + 5) YEAR\<rparr>"

text \<open>The endless loop of \<open>cmostime\<close>, from read \<open>t\<close> on: it ends when two readings agree.\<close>

partial_function (option) cmos_stable :: "clock \<Rightarrow> nat \<Rightarrow> rtcdate option" where
  "cmos_stable rd t =
     (let t1 = fill_rtcdate rd t
      in if cmos_read rd (t + 6) CMOS_STATA AND CMOS_UIP \<noteq> 0 then cmos_stable rd (t + 7)
         else if t1 = fill_rtcdate rd (t + 7) then Some t1
         else cmos_stable rd (t + 13))"

section \<open>Conversion\<close>

definition CONV :: "u32 \<Rightarrow> u32" where "CONV x = drop_bit 4 x * 10 + (x AND 0xf)"

definition from_bcd :: "rtcdate \<Rightarrow> rtcdate" where
  "from_bcd r = \<lparr>second = CONV (second r), minute = CONV (minute r), hour = CONV (hour r),
                 day = CONV (day r), month = CONV (month r), year = CONV (year r)\<rparr>"

definition next_day :: "rtcdate \<Rightarrow> rtcdate" where
  "next_day r =
     (if month r \<in> {1, 3, 5, 7, 8, 10} then
        if day r = 31 then r\<lparr>day := 1, month := month r + 1\<rparr> else r\<lparr>day := day r + 1\<rparr>
      else if month r = 12 then
        if day r = 31 then r\<lparr>day := 1, month := 1, year := year r + 1\<rparr> else r\<lparr>day := day r + 1\<rparr>
      else if month r \<in> {4, 6, 9, 11} then
        if day r = 30 then r\<lparr>day := 1, month := month r + 1\<rparr> else r\<lparr>day := day r + 1\<rparr>
      else if month r = 2 then
        if year r mod 4 = 0 \<and> year r mod 100 \<noteq> 0 \<or> year r mod 400 = 0 then
          if day r = 29 then r\<lparr>day := 1, month := month r + 1\<rparr> else r\<lparr>day := day r + 1\<rparr>
        else if day r = 28 then r\<lparr>day := 1, month := month r + 1\<rparr> else r\<lparr>day := day r + 1\<rparr>
      else r)"

text \<open>The clock runs in UTC with a year of the century; the result is eight hours ahead.\<close>

definition local_time :: "rtcdate \<Rightarrow> rtcdate" where
  "local_time r =
     (let r = r\<lparr>year := year r + 2000, hour := hour r + 8\<rparr>
      in if hour r \<ge> 24 then next_day (r\<lparr>hour := hour r mod 24\<rparr>) else r)"

definition cmostime :: "clock \<Rightarrow> rtcdate option" where
  "cmostime rd =
     (let sb = cmos_read rd 0 CMOS_STATB
      in map_option (\<lambda>t1. local_time (if sb AND 4 = 0 then from_bcd t1 else t1)) (cmos_stable rd 1))"

section \<open>The calendar\<close>

text \<open>The days of a month, and the seconds from the start of year 1 to a date of the Gregorian calendar.\<close>

definition leap :: "nat \<Rightarrow> bool" where
  "leap y \<longleftrightarrow> y mod 4 = 0 \<and> y mod 100 \<noteq> 0 \<or> y mod 400 = 0"

definition month_days :: "nat \<Rightarrow> nat \<Rightarrow> nat" where
  "month_days y m = (if m \<in> {4, 6, 9, 11} then 30 else if m = 2 then if leap y then 29 else 28 else 31)"

definition days_before :: "nat \<Rightarrow> nat \<Rightarrow> nat \<Rightarrow> nat" where
  "days_before y m d = (\<Sum>i = 1..<y. if leap i then 366 else 365) + (\<Sum>i = 1..<m. month_days y i) + (d - 1)"

definition seconds_of :: "nat \<Rightarrow> rtcdate \<Rightarrow> nat" where
  "seconds_of c r = ((days_before (c + unat (year r)) (unat (month r)) (unat (day r)) * 24 + unat (hour r)) * 60 + unat (minute r)) * 60 +
     unat (second r)"

definition valid_date :: "nat \<Rightarrow> rtcdate \<Rightarrow> bool" where
  "valid_date c r \<longleftrightarrow> unat (month r) \<in> {1..12} \<and> unat (day r) \<in> {1..month_days (c + unat (year r)) (unat (month r))} \<and>
     unat (hour r) < 24 \<and> unat (minute r) < 60 \<and> unat (second r) < 60 \<and> unat (year r) < 10000"

lemma leap_word: "(y :: u32) mod 4 = 0 \<and> y mod 100 \<noteq> 0 \<or> y mod 400 = 0 \<longleftrightarrow> leap (unat y)"
  by (simp add: leap_def unat_mod_distrib word_unat_eq_iff)

lemma year_days: "(\<Sum>i = 1..<13. month_days y i) = (if leap y then 366 else 365)"
  by (simp add: month_days_def numeral_eq_Suc)

lemma month_cases: "m \<in> {1..12 :: nat} \<Longrightarrow> m \<in> {1, 2, 3, 4, 5, 6, 7, 8, 9, 10, 11, 12}"
  by simp arith

text \<open>The day after a valid date, over natural numbers.\<close>

definition tomorrow :: "nat \<Rightarrow> nat \<Rightarrow> nat \<Rightarrow> nat \<times> nat \<times> nat" where
  "tomorrow y m d = (if d < month_days y m then (y, m, d + 1) else if m < 12 then (y, m + 1, 1) else (y + 1, 1, 1))"

lemma tomorrow_days:
  assumes "m \<in> {1..12}" "d \<in> {1..month_days y m}" "tomorrow y m d = (y', m', d')" "0 < y"
  shows "days_before y' m' d' = days_before y m d + 1 \<and> m' \<in> {1..12} \<and> d' \<in> {1..month_days y' m'}"
proof -
  have p: "0 < month_days y k" for y k by (simp add: month_days_def)
  consider "d < month_days y m" | "d = month_days y m" "m < 12" | "d = month_days y m" "m = 12" using assms(1,2) by fastforce
  then show ?thesis
  proof cases
    case 1
    then show ?thesis using assms by (auto simp: tomorrow_def days_before_def)
  next
    case 2
    have "(\<Sum>i = 1..<m + 1. month_days y i) = (\<Sum>i = 1..<m. month_days y i) + month_days y m"
      using assms(1) by (simp add: sum.atLeastLessThan_Suc)
    then show ?thesis using 2 assms p [of y m] p [of y "Suc m"] by (auto simp: tomorrow_def days_before_def)
  next
    case 3
    have "{1..<13 :: nat} = insert 12 {1..<12}" by auto
    then have "(\<Sum>i = 1..<12. month_days y i) + month_days y 12 = (if leap y then 366 else 365)"
      using year_days [of y] by simp
    moreover have "(\<Sum>i = 1..<y + 1. if leap i then 366 else 365) = (\<Sum>i = 1..<y. if leap i then 366 else (365 :: nat)) + (if leap y then 366 else 365)"
      using assms(4) by (simp add: sum.atLeastLessThan_Suc)
    ultimately show ?thesis using 3 assms p [of y m] p [of "Suc y" 1] by (auto simp: tomorrow_def days_before_def)
  qed
qed

lemma unat_inc: "unat (x :: u32) < 2 ^ 32 - 1 \<Longrightarrow> unat (x + 1) = unat x + 1"
  by (simp add: unat_word_ariths)


lemma next_day_tomorrow:
  assumes "valid_date 0 r"
  shows "(unat (year (next_day r)), unat (month (next_day r)), unat (day (next_day r))) = tomorrow (unat (year r)) (unat (month r)) (unat (day r))"
    "hour (next_day r) = hour r" "minute (next_day r) = minute r" "second (next_day r) = second r"
proof -
  have m: "unat (month r) \<in> {1, 2, 3, 4, 5, 6, 7, 8, 9, 10, 11, 12}" by (rule month_cases) (use assms in \<open>simp add: valid_date_def\<close>)
  have w: "month r = of_nat (unat (month r))" by simp
  have d: "unat (day r) \<le> month_days (unat (year r)) (unat (month r))" and y: "unat (year r) < 10000" using assms by (simp_all add: valid_date_def)
  have b: "unat (day r) \<le> 31" using d by (auto simp: month_days_def split: if_splits)
  have i: "unat (day r + 1) = unat (day r) + 1" "unat (year r + 1) = unat (year r) + 1" using b y by (simp_all add: unat_inc)
  have e: "day r = 31 \<longleftrightarrow> unat (day r) = 31" "day r = 30 \<longleftrightarrow> unat (day r) = 30" "day r = 29 \<longleftrightarrow> unat (day r) = 29"
    "day r = 28 \<longleftrightarrow> unat (day r) = 28" by (simp_all add: word_unat_eq_iff)
  show "(unat (year (next_day r)), unat (month (next_day r)), unat (day (next_day r))) = tomorrow (unat (year r)) (unat (month r)) (unat (day r))"
    using m d w by (elim insertE) (auto simp: next_day_def tomorrow_def month_days_def leap_word e i)
  show "hour (next_day r) = hour r" "minute (next_day r) = minute r" "second (next_day r) = second r"
    by (simp_all add: next_day_def)
qed

lemma local_time_ahead:
  assumes v: "valid_date 2000 r" and c: "unat (year r) < 100"
  shows "valid_date 0 (local_time r)" "seconds_of 0 (local_time r) = seconds_of 2000 r + 8 * 60 * 60"
proof -
  define q where "q = r\<lparr>year := year r + 2000, hour := hour r + 8\<rparr>"
  have y: "unat (year q) = unat (year r) + 2000" and h: "unat (hour q) = unat (hour r) + 8" and h24: "unat (hour r) < 24"
    using v c by (simp_all add: q_def valid_date_def unat_word_ariths)
  have f: "month q = month r" "day q = day r" "minute q = minute r" "second q = second r" by (simp_all add: q_def)
  have "valid_date 0 (local_time r) \<and> seconds_of 0 (local_time r) = seconds_of 2000 r + 8 * 60 * 60"
  proof (cases "unat (hour r) + 8 < 24")
    case True
    then have "local_time r = q" using h by (simp add: local_time_def q_def Let_def word_le_nat_alt)
    then show ?thesis using v c y h f True by (simp add: valid_date_def seconds_of_def add.commute)
  next
    case False
    define u where "u = q\<lparr>hour := hour q mod 24\<rparr>"
    have l: "local_time r = next_day u" using False h by (simp add: local_time_def q_def u_def Let_def word_le_nat_alt)
    have uh: "unat (hour u) = unat (hour r) + 8 - 24" using False h h24 by (simp add: u_def unat_mod_distrib mod_if)
    have uf: "year u = year q" "month u = month r" "day u = day r" "minute u = minute r" "second u = second r" by (simp_all add: u_def f)
    have vu: "valid_date 0 u" using v y uh uf c h24 by (simp add: valid_date_def add.commute)
    note t = next_day_tomorrow [OF vu]
    have td: "days_before (unat (year (next_day u))) (unat (month (next_day u))) (unat (day (next_day u))) =
        days_before (unat (year u)) (unat (month u)) (unat (day u)) + 1"
      "unat (month (next_day u)) \<in> {1..12}"
      "unat (day (next_day u)) \<in> {1..month_days (unat (year (next_day u))) (unat (month (next_day u)))}"
      using tomorrow_days [OF _ _ t(1) [symmetric]] vu y uf by (auto simp: valid_date_def)
    have "unat (year (next_day u)) \<le> unat (year u) + 1" using t(1) by (auto simp: tomorrow_def split: if_splits)
    then show ?thesis unfolding l using td t(2-4) uh uf y c vu False h24
      by (simp add: valid_date_def seconds_of_def add.commute)
  qed
  then show "valid_date 0 (local_time r)" "seconds_of 0 (local_time r) = seconds_of 2000 r + 8 * 60 * 60" by simp_all
qed

section \<open>The result of cmostime\<close>

definition bcd :: "u32 \<Rightarrow> u8" where "bcd n = ucast ((n div 10) * 16 + n mod 10)"

lemma CONV_bcd: "unat n < 100 \<Longrightarrow> CONV (ucast (bcd n)) = n"
proof -
  have "\<forall>k\<in>set [0..<100]. CONV (ucast (bcd (of_nat k))) = of_nat k" by code_simp
  then show "CONV (ucast (bcd n)) = n" if "unat n < 100" using that by (auto dest: bspec [of _ _ "unat n"])
qed

definition steady :: "clock \<Rightarrow> nat \<Rightarrow> (nat \<Rightarrow> u8) \<Rightarrow> bool" where
  "steady rd t0 R \<longleftrightarrow> (\<forall>t\<ge>t0. rd t = R) \<and> (ucast (R CMOS_STATA) :: u32) AND CMOS_UIP = 0"

lemma cmos_stable_steady: "steady rd t0 R \<Longrightarrow> t0 \<le> t \<Longrightarrow> cmos_stable rd t = Some (fill_rtcdate rd t)"
  by (subst cmos_stable.simps) (simp add: steady_def fill_rtcdate_def cmos_read_def)

lemma cmos_stable_returns:
  assumes "steady rd t0 R" shows "\<exists>r. cmos_stable rd t = Some r"
proof (induction "t0 - t" arbitrary: t rule: less_induct)
  case less
  show ?case
  proof (cases "t0 \<le> t")
    case True
    then show ?thesis using cmos_stable_steady [OF assms] by blast
  next
    case False
    then show ?thesis using less [of "t + 7"] less [of "t + 13"] by (subst cmos_stable.simps) (simp add: Let_def)
  qed
qed

text \<open>
  C20: \<open>cmostime\<close> returns if the clock holds still from some read on. If it shows a valid date of this
  century in decimal digits during the call, the result is a valid date of the Gregorian calendar that
  is exactly eight hours later, across the ends of days, months, leap years and years.
\<close>

theorem cmostime_local:
  assumes "steady rd t0 R"
  shows "\<exists>r. cmostime rd = Some r \<and>
    (t0 = 0 \<longrightarrow> valid_date 2000 d \<longrightarrow> unat (year d) < 100 \<longrightarrow> (ucast (R CMOS_STATB) :: u32) AND 4 = 0 \<longrightarrow>
     R SECS = bcd (second d) \<longrightarrow> R MINS = bcd (minute d) \<longrightarrow> R HOURS = bcd (hour d) \<longrightarrow>
     R DAY = bcd (day d) \<longrightarrow> R MONTH = bcd (month d) \<longrightarrow> R YEAR = bcd (year d) \<longrightarrow>
     valid_date 0 r \<and> seconds_of 0 r = seconds_of 2000 d + 8 * 60 * 60)"
proof (cases "t0 = 0")
  case True
  have c: "cmos_stable rd 1 = Some (fill_rtcdate rd 1)" using cmos_stable_steady [OF assms, of 1] True by simp
  have rd: "rd t = R" for t using assms True by (simp add: steady_def)
  have "cmostime rd = Some (local_time d)"
    if "valid_date 2000 d" "unat (year d) < 100" "(ucast (R CMOS_STATB) :: u32) AND 4 = 0" "R SECS = bcd (second d)" "R MINS = bcd (minute d)"
      "R HOURS = bcd (hour d)" "R DAY = bcd (day d)" "R MONTH = bcd (month d)" "R YEAR = bcd (year d)"
  proof -
    have "month_days (2000 + unat (year d)) (unat (month d)) \<le> 31" by (simp add: month_days_def)
    then have "unat (second d) < 100" "unat (minute d) < 100" "unat (hour d) < 100" "unat (day d) < 100" "unat (month d) < 100"
      using that(1) by (simp_all add: valid_date_def)
    then have "from_bcd (fill_rtcdate rd 1) = d" using that by (simp add: from_bcd_def fill_rtcdate_def cmos_read_def rd CONV_bcd)
    then show ?thesis using c that(3) by (simp add: cmostime_def cmos_read_def rd)
  qed
  then show ?thesis using local_time_ahead [of d] c by (auto simp: cmostime_def Let_def)
next
  case False
  then show ?thesis using cmos_stable_returns [OF assms, of 1] by (auto simp: cmostime_def Let_def)
qed

text \<open>New Year's Eve of a leap year, at five in the afternoon.\<close>

definition ex_clock :: "nat \<Rightarrow> u8" where
  "ex_clock reg = (if reg = HOURS then 0x17 else if reg = DAY then 0x31 else if reg = MONTH then 0x12 else if reg = YEAR then 0x24 else 0)"

theorem cmostime_local_witness:
  "\<exists>r. cmostime (\<lambda>_. ex_clock) = Some r \<and>
     seconds_of 0 r = seconds_of 2000 \<lparr>second = 0, minute = 0, hour = 17, day = 31, month = 12, year = 24\<rparr> + 28800"
proof -
  let ?d = "\<lparr>second = 0, minute = 0, hour = 17, day = 31, month = 12, year = 24\<rparr>"
  have s: "steady (\<lambda>_. ex_clock) 0 ex_clock" by (simp add: steady_def ex_clock_def CMOS_STATA_def HOURS_def DAY_def MONTH_def YEAR_def)
  have v: "valid_date 2000 ?d" by (simp add: valid_date_def month_days_def)
  have b: "bcd 0 = 0" "bcd 17 = 0x17" "bcd 31 = 0x31" "bcd 12 = 0x12" "bcd 24 = 0x24" by code_simp+
  show ?thesis using cmostime_local [OF s, of ?d] v
    by (auto simp: ex_clock_def b CMOS_STATB_def SECS_def MINS_def HOURS_def DAY_def MONTH_def YEAR_def)
qed

end
