(* ===== verification/Sysproc.thy ===== *)
theory Sysproc
  imports Exec Rtc
begin

text \<open>
  The system calls on processes, time and environment variables (sysproc.c, envar.h).
\<close>

section \<open>Environment variables\<close>

definition find :: "cstring \<Rightarrow> 'a sys_state_scheme \<Rightarrow> nat option" where
  "find name s =
     List.find (\<lambda>i. ev_nameLength (ev_contents s i) = int (length name) \<and>
                    (\<forall>j\<in>set [0..<length name]. ev_name (ev_contents s i) j = name ! j)) [0..<ev_varNum s]"

definition upd_var :: "nat \<Rightarrow> (enVariable \<Rightarrow> enVariable) \<Rightarrow> 'a sys_state_scheme \<Rightarrow> 'a sys_state_scheme" where
  "upd_var i f s = s\<lparr>ev_contents := (ev_contents s)(i := f (ev_contents s i))\<rparr>"

text \<open>One byte of the new value, unless it is full; the value is written in place.\<close>

definition put_value :: "nat \<Rightarrow> u8 \<Rightarrow> nat \<Rightarrow> 'a sys_state_scheme \<Rightarrow> (nat \<times> 'a sys_state_scheme) option" where
  "put_value pos c fillPos s =
     (if fillPos < CONTENT_LIMIT - 1
      then Some (fillPos + 1, upd_var pos (\<lambda>v. v\<lparr>ev_value := (ev_value v)(fillPos := c)\<rparr>) s) else None)"

text \<open>The value of another variable, or of the same one while it is being written; false when it does not fit.\<close>

fun copy_value :: "nat \<Rightarrow> nat \<Rightarrow> nat \<Rightarrow> nat \<Rightarrow> nat \<Rightarrow> 'a sys_state_scheme \<Rightarrow> bool \<times> nat \<times> 'a sys_state_scheme" where
  "copy_value 0 j var pos fillPos s = (True, fillPos, s)"
| "copy_value (Suc k) j var pos fillPos s =
     (case put_value pos (ev_value (ev_contents s var) j) fillPos s of
        None \<Rightarrow> (False, fillPos, s)
      | Some (fillPos, s) \<Rightarrow> copy_value k (j + 1) var pos fillPos s)"

function change_from :: "nat \<Rightarrow> cstring \<Rightarrow> nat \<Rightarrow> 'a sys_state_scheme \<Rightarrow> (int \<times> 'a sys_state_scheme) kres" where
  "change_from pos con fillPos s =
     (case con of
        [] \<Rightarrow> Inr (0, upd_var pos (\<lambda>v. v\<lparr>ev_value := (ev_value v)(fillPos := 0), ev_size := int fillPos\<rparr>) s)
      | c # con \<Rightarrow>
          if c = 36 \<and> take 1 con = [123] then
            let name = takeWhile (\<lambda>c. c \<noteq> 125) (tl con);
                rest = dropWhile (\<lambda>c. c \<noteq> 125) (tl con)
            in if rest = [] then Inl (Overrun ''con'')
               else
                 let var = find name s
                 in kbind (cprintf (\<lambda>_. []) (Some (bytes ''%d'' @ [10])) [case var of None \<Rightarrow> -1 | Some i \<Rightarrow> of_nat i] s) (\<lambda>s.
                      case var of
                        None \<Rightarrow> Inr (-1, s)
                      | Some v \<Rightarrow>
                          case copy_value (nat (ev_size (ev_contents s v))) 0 v pos fillPos s of
                            (False, _, s) \<Rightarrow> Inr (-1, s)
                          | (True, fillPos, s) \<Rightarrow> change_from pos (tl rest) fillPos s)
          else
            case put_value pos c fillPos s of
              None \<Rightarrow> Inr (-1, s)
            | Some (fillPos, s) \<Rightarrow> change_from pos con fillPos s)"
  by pat_completeness auto
termination
proof (relation "measure (\<lambda>(pos, con, fillPos, s). length con)", simp_all)
  fix con :: cstring
  have "length (tl (dropWhile (\<lambda>c. c \<noteq> 125) (tl con))) \<le> length con"
    using length_dropWhile_le [of "\<lambda>c. c \<noteq> 125" "tl con"] by (simp add: le_diff_conv)
  then show "length (dropWhile (\<lambda>c. c \<noteq> 125) (tl con)) - Suc 0 < Suc (length con)" by simp
qed

declare change_from.simps [simp del]

definition changeEnVar :: "cstring \<Rightarrow> nat \<Rightarrow> 'a sys_state_scheme \<Rightarrow> (int \<times> 'a sys_state_scheme) kres" where
  "changeEnVar con pos s = change_from pos con 0 s"

text \<open>Without an equals sign the value is read from behind the string.\<close>

definition sys_set :: "'a sys_state_scheme \<Rightarrow> (int \<times> 'a sys_state_scheme) kres" where
  "sys_set s =
     (let s = (if \<not> ev_initiated s then s\<lparr>ev_initiated := True, ev_varNum := 0\<rparr> else s)
      in arg_bind (argstr 0 s) s (\<lambda>con.
           let name = takeWhile (\<lambda>c. c \<noteq> 61) con;
               equalPos = length name
           in if equalPos \<ge> NAME_LIMIT - 1 then Inr (-1, s)
              else
                case find name s of
                  None \<Rightarrow>
                    if ev_varNum s = VAR_LIMIT then Inr (-1, s)
                    else
                      let i = ev_varNum s;
                          s = upd_var i (\<lambda>v. v\<lparr>ev_name := (blit 0 equalPos (arr name) (ev_name v))(equalPos := 0),
                                               ev_nameLength := int equalPos\<rparr>) s
                      in if equalPos = length con then Inl (Overrun ''con'')
                         else kbind (changeEnVar (drop (equalPos + 1) con) i s) (\<lambda>(_, s).
                              Inr (0, s\<lparr>ev_varNum := ev_varNum s + 1\<rparr>))
                | Some i \<Rightarrow>
                    if equalPos = length con then Inl (Overrun ''con'')
                    else kbind (changeEnVar (drop (equalPos + 1) con) i s) (\<lambda>(_, s). Inr (0, s))))"

text \<open>One byte of the destination is checked, the whole value is written.\<close>

definition sys_get :: "'a sys_state_scheme \<Rightarrow> (int \<times> 'a sys_state_scheme) kres" where
  "sys_get s =
     arg_bind (argptr 0 1 s) s (\<lambda>content.
     arg_bind (argstr 1 s) s (\<lambda>name.
       case find name s of
         None \<Rightarrow> Inr (-1, s)
       | Some i \<Rightarrow>
           let v = ev_contents s i
           in kbind (user_store content (map (ev_value v) [0..<nat (ev_size v)] @ [0]) s) (\<lambda>s. Inr (0, s))))"

section \<open>Processes\<close>

definition sys_fork :: "'a sys_state_scheme \<Rightarrow> (int \<times> 'a sys_state_scheme) kres" where "sys_fork s = fork s"

definition sys_wait :: "'a sys_state_scheme \<Rightarrow> (int \<times> 'a sys_state_scheme) kres" where "sys_wait s = wait s"

definition sys_kill :: "'a sys_state_scheme \<Rightarrow> (int \<times> 'a sys_state_scheme) kres" where
  "sys_kill s = arg_bind (argint 0 s) s (\<lambda>n. Inr (kill n s))"

definition sys_getpid :: "'a sys_state_scheme \<Rightarrow> (int \<times> 'a sys_state_scheme) kres" where
  "sys_getpid s = kbind (myproc s) (\<lambda>p. Inr (sint (pid (ptable s p)), s))"

definition sys_sbrk :: "'a sys_state_scheme \<Rightarrow> (int \<times> 'a sys_state_scheme) kres" where
  "sys_sbrk s =
     arg_bind (argint 0 s) s (\<lambda>n.
     kbind (myproc s) (\<lambda>p.
       let addr = sint (sz (ptable s p))
       in kbind (growproc (sint n) s) (\<lambda>(r, s). Inr (if r < 0 then -1 else addr, s))))"

section \<open>Time\<close>

text \<open>
  The loop of \<open>sys_sleep\<close> at a moment when \<open>ticks0\<close> was read before: the comparison is one of
  unsigned numbers, so a negative \<open>n\<close> is a long sleep.
\<close>

definition sleep_test :: "u32 \<Rightarrow> u32 \<Rightarrow> 'a sys_state_scheme \<Rightarrow> (int \<times> 'a sys_state_scheme) kres" where
  "sleep_test ticks0 n s =
     (if ticks s - ticks0 < n then
        kbind (myproc s) (\<lambda>p. if killed (ptable s p) then Inr (-1, s) else Inl (Sleep ChTicks))
      else Inr (0, s))"

definition sys_sleep :: "'a sys_state_scheme \<Rightarrow> (int \<times> 'a sys_state_scheme) kres" where
  "sys_sleep s = arg_bind (argint 0 s) s (\<lambda>n. sleep_test (ticks s) n s)"

definition sys_uptime :: "'a sys_state_scheme \<Rightarrow> (int \<times> 'a sys_state_scheme) kres" where
  "sys_uptime s = Inr (sint (ticks s), s)"

definition sys_alarm :: "'a sys_state_scheme \<Rightarrow> (int \<times> 'a sys_state_scheme) kres" where
  "sys_alarm s =
     arg_bind (argint 0 s) s (\<lambda>n.
     arg_bind (argptr 1 1 s) s (\<lambda>handler.
     kbind (myproc s) (\<lambda>p. Inr (0, upd_proc p (\<lambda>q. q\<lparr>alarmticks := n, alarmhandler := handler\<rparr>) s))))"

definition sys_time :: "'a sys_state_scheme \<Rightarrow> (int \<times> 'a sys_state_scheme) kres" where
  "sys_time s = kbind (myproc s) (\<lambda>p. Inr (sint (curalarmtick (ptable s p)), s))"

definition sys_kbevent :: "'a sys_state_scheme \<Rightarrow> (int \<times> 'a sys_state_scheme) kres" where
  "sys_kbevent s =
     arg_bind (argptr 0 1 s) s (\<lambda>handler.
     kbind (myproc s) (\<lambda>p. Inr (0, upd_proc p (\<lambda>q. q\<lparr>keyboardHandler := handler\<rparr>) s)))"

text \<open>Not in the table of system calls.\<close>

definition sys_ingame :: "'a sys_state_scheme \<Rightarrow> (int \<times> 'a sys_state_scheme) kres" where
  "sys_ingame s = arg_bind (argint 0 s) s (\<lambda>t. Inr (0, s\<lparr>isConsole := sint t\<rparr>))"

text \<open>\<open>rd\<close> is the clock during the call; \<open>cmostime\<close> waits until it is stable.\<close>

definition sys_date :: "clock \<Rightarrow> 'a sys_state_scheme \<Rightarrow> (int \<times> 'a sys_state_scheme) kres" where
  "sys_date rd s =
     arg_bind (argptr 0 24 s) s (\<lambda>a.
       case cmostime rd of
         None \<Rightarrow> Inl Diverge
       | Some r \<Rightarrow>
           kbind (user_store a (word_bytes [second r, minute r, hour r, day r, month r, year r]) s) (\<lambda>s. Inr (0, s)))"

section \<open>The environment as a map\<close>

text \<open>What the table of variables stands for: a map from names to values.\<close>

definition env :: "'a sys_state_scheme \<Rightarrow> cstring \<Rightarrow> cstring option" where
  "env s name = (if ev_initiated s then
     map_option (\<lambda>i. map (ev_value (ev_contents s i)) [0..<nat (ev_size (ev_contents s i))]) (find name s) else None)"

definition named_by :: "enVariable \<Rightarrow> cstring \<Rightarrow> bool" where
  "named_by v name \<longleftrightarrow> ev_nameLength v = int (length name) \<and> map (ev_name v) [0..<length name] = name"

lemma find_named: "find name s = List.find (\<lambda>i. named_by (ev_contents s i) name) [0..<ev_varNum s]"
proof -
  have e: "(\<forall>j\<in>set [0..<length name]. ev_name v j = name ! j) \<longleftrightarrow> map (ev_name v) [0..<length name] = name" for v
    by (auto intro: nth_equalityI) (metis add_0 diff_zero nth_map_upt)
  show ?thesis unfolding Sysproc.find_def named_by_def e ..
qed

lemma named_unique: "named_by v a \<Longrightarrow> named_by v b \<Longrightarrow> a = b"
proof -
  assume a: "named_by v a" and b: "named_by v b"
  have "map (ev_name v) [0..<length a] = a" "map (ev_name v) [0..<length b] = b" "length a = length b"
    using a b by (simp_all add: named_by_def)
  then show "a = b" by metis
qed

text \<open>A value without a reference is stored byte by byte.\<close>

lemma change_plain:
  assumes "36 \<notin> set con" "fill + length con < CONTENT_LIMIT"
  shows "\<exists>d. change_from pos con fill s = Inr (0, upd_var pos (\<lambda>v. v\<lparr>ev_value := d, ev_size := int (fill + length con)\<rparr>) s) \<and>
    (\<forall>i<fill. d i = ev_value (ev_contents s pos) i) \<and> (\<forall>i<length con. d (fill + i) = con ! i)"
  using assms
proof (induction con arbitrary: fill s)
  case Nil
  show ?case
    by (rule exI [of _ "(ev_value (ev_contents s pos))(fill := 0)"], subst change_from.simps) (simp add: upd_var_def)
next
  case (Cons c con)
  let ?u = "upd_var pos (\<lambda>v. v\<lparr>ev_value := (ev_value v)(fill := c)\<rparr>) s"
  have p: "put_value pos c fill s = Some (fill + 1, ?u)" using Cons.prems(2) by (simp add: put_value_def)
  have "change_from pos (c # con) fill s = change_from pos con (fill + 1) ?u"
    using Cons.prems(1) by (subst change_from.simps) (simp add: p)
  moreover obtain d where d: "change_from pos con (fill + 1) ?u = Inr (0, upd_var pos (\<lambda>v. v\<lparr>ev_value := d, ev_size := int (fill + 1 + length con)\<rparr>) ?u)"
    "\<forall>i<fill + 1. d i = ev_value (ev_contents ?u pos) i" "\<forall>i<length con. d (fill + 1 + i) = con ! i"
    using Cons.IH [of "fill + 1" ?u] Cons.prems by auto
  moreover have "d (fill + i) = (c # con) ! i" if "i < length (c # con)" for i
    using d(2) d(3) [rule_format, of "i - 1"] that by (cases i) (simp_all add: upd_var_def)
  moreover have "\<forall>i<fill. d i = ev_value (ev_contents s pos) i" using d(2) by (simp add: upd_var_def)
  moreover have "upd_var pos (\<lambda>v. v\<lparr>ev_value := d, ev_size := int (fill + 1 + length con)\<rparr>) ?u =
      upd_var pos (\<lambda>v. v\<lparr>ev_value := d, ev_size := int (fill + length (c # con))\<rparr>) s" by (simp add: upd_var_def)
  ultimately show ?case by (intro exI [of _ d]) simp
qed

lemma find_upd:
  assumes "\<And>name. named_by (f (ev_contents s i)) name \<longleftrightarrow> named_by (ev_contents s i) name"
  shows "find name (upd_var i f s) = find name s"
proof -
  have "named_by (ev_contents (upd_var i f s) j) name \<longleftrightarrow> named_by (ev_contents s j) name" for j
    using assms by (simp add: upd_var_def)
  then show ?thesis by (simp add: find_named) (simp add: upd_var_def)
qed

lemma takeWhile_sep: "61 \<notin> set name \<Longrightarrow> takeWhile (\<lambda>c. c \<noteq> 61) (name @ 61 # val) = (name :: cstring)"
  by (induction name) auto


lemma find_lt: "find name s = Some i \<Longrightarrow> i < ev_varNum s \<and> named_by (ev_contents s i) name"
  by (auto simp: find_named find_upt_Some)

text \<open>Giving variable \<open>i\<close> the name and a value changes the map at that name only.\<close>

lemma env_stored:
  assumes f: "find name t = Some i" and o: "\<And>n. n \<noteq> name \<Longrightarrow> find n t = find n s"
    and c: "\<And>j. j \<noteq> i \<Longrightarrow> ev_contents t j = ev_contents s j" and e: "ev_initiated s" "ev_initiated t"
    and v: "ev_size (ev_contents t i) = int (length val)" "\<And>k. k < length val \<Longrightarrow> ev_value (ev_contents t i) k = val ! k"
  shows "env t = (env s)(name \<mapsto> val)"
proof
  fix n
  have "map (ev_value (ev_contents t i)) [0..<length val] = val" using v(2) by (intro nth_equalityI) simp_all
  moreover have "j \<noteq> i" if "n \<noteq> name" "find n t = Some j" for j using find_lt [OF that(2)] find_lt [OF f] that(1) named_unique by blast
  ultimately show "env t n = ((env s)(name \<mapsto> val)) n" using f o [of n] c e v(1)
    by (cases "n = name"; cases "find n s") (auto simp: env_def)
qed

lemma named_new: "named_by (v\<lparr>ev_name := (blit 0 (length name) (arr name) d)(length name := z), ev_nameLength := int (length name)\<rparr>) n \<longleftrightarrow> n = name"
proof -
  have "map ((blit 0 (length name) (arr name) d)(length name := z)) [0..<length name] = name"
    by (intro nth_equalityI) (simp_all add: blit_def arr_def)
  then show ?thesis by (auto simp: named_by_def)
qed


lemma find_append: "List.find P (xs @ ys) = (case List.find P xs of None \<Rightarrow> List.find P ys | Some x \<Rightarrow> Some x)"
  by (induction xs) auto

lemma find_grow:
  assumes "\<And>j. j < ev_varNum s \<Longrightarrow> ev_contents t j = ev_contents s j" "ev_varNum t = Suc (ev_varNum s)"
  shows "find n t = (case find n s of Some i \<Rightarrow> Some i | None \<Rightarrow> if named_by (ev_contents t (ev_varNum s)) n then Some (ev_varNum s) else None)"
proof -
  have "List.find (\<lambda>i. named_by (ev_contents t i) n) [0..<ev_varNum s] = find n s"
    unfolding find_named by (rule find_cong) (simp_all add: assms(1))
  then show ?thesis by (simp add: find_named assms(2) find_append split: option.splits)
qed

lemma argstr_env: "argstr n (s\<lparr>ev_initiated := b, ev_varNum := k\<rparr>) = argstr n s"
proof -
  let ?t = "s\<lparr>ev_initiated := b, ev_varNum := k\<rparr>"
  have r: "user_read a ?t = user_read a s" for a by (simp add: user_read_def split: option.split)
  have c: "fetch_chars m a ?t = fetch_chars m a s" for m a
    by (induction m arbitrary: a) (simp_all add: r cong: if_cong)
  have b: "user_bytes m a ?t = user_bytes m a s" for m a by (induction m arbitrary: a) (simp_all add: r)
  have "argint n ?t = argint n s" by (simp add: argint_def fetchint_def myproc_def b cong: if_cong)
  moreover have "fetchstr a ?t = fetchstr a s" for a by (simp add: fetchstr_def myproc_def c cong: if_cong)
  ultimately show ?thesis unfolding argstr_def by presburger
qed

lemma set_old:
  assumes u: "ev_initiated u" "find name u = Some i" and v: "36 \<notin> set val" "length val < CONTENT_LIMIT"
  shows "\<exists>t. changeEnVar val i u = Inr (0, t) \<and> env t = (env u)(name \<mapsto> val)"
proof -
  obtain d where d: "change_from i val 0 u = Inr (0, upd_var i (\<lambda>v. v\<lparr>ev_value := d, ev_size := int (0 + length val)\<rparr>) u)"
    "\<forall>k<length val. d (0 + k) = val ! k" using change_plain [OF v(1), of 0 i u] v(2) by auto
  let ?t = "upd_var i (\<lambda>v. v\<lparr>ev_value := d, ev_size := int (0 + length val)\<rparr>) u"
  have f: "find n' ?t = find n' u" for n' by (rule find_upd) (simp add: named_by_def)
  have "env ?t = (env u)(name \<mapsto> val)"
    by (rule env_stored [where i = i]) (use f d(2) u in \<open>simp_all, simp_all add: upd_var_def\<close>)
  then show ?thesis using d(1) by (simp add: changeEnVar_def)
qed

lemma set_new:
  assumes u: "ev_initiated u" "find name u = None" and v: "36 \<notin> set val" "length val < CONTENT_LIMIT"
  defines "w \<equiv> upd_var (ev_varNum u) (\<lambda>v. v\<lparr>ev_name := (blit 0 (length name) (arr name) (ev_name v))(length name := 0),
      ev_nameLength := int (length name)\<rparr>) u"
  shows "\<exists>t. changeEnVar val (ev_varNum u) w = Inr (0, t) \<and> ev_varNum t = ev_varNum u \<and>
    env (t\<lparr>ev_varNum := Suc (ev_varNum u)\<rparr>) = (env u)(name \<mapsto> val)"
proof -
  let ?i = "ev_varNum u"
  obtain d where d: "change_from ?i val 0 w = Inr (0, upd_var ?i (\<lambda>v. v\<lparr>ev_value := d, ev_size := int (0 + length val)\<rparr>) w)"
    "\<forall>k<length val. d (0 + k) = val ! k" using change_plain [OF v(1), of 0 ?i w] v(2) by auto
  let ?x = "upd_var ?i (\<lambda>v. v\<lparr>ev_value := d, ev_size := int (0 + length val)\<rparr>) w"
  let ?t = "?x\<lparr>ev_varNum := Suc (ev_varNum u)\<rparr>"
  have nm: "named_by (ev_contents ?t ?i) n' \<longleftrightarrow> n' = name" for n'
    using named_new [where v = "ev_contents u ?i" and name = name and d = "ev_name (ev_contents u ?i)" and z = 0 and n = n']
    by (simp add: w_def upd_var_def named_by_def)
  have f: "find n' ?t = (case find n' u of Some j \<Rightarrow> Some j | None \<Rightarrow> if n' = name then Some ?i else None)" for n'
    using find_grow [of u ?t n'] nm by (simp add: w_def upd_var_def)
  have "env ?t = (env u)(name \<mapsto> val)"
  proof (rule env_stored [where i = ?i])
    show "find n' ?t = find n' u" if "n' \<noteq> name" for n' using f that by (simp split: option.splits)
  qed (use f d(2) u in \<open>simp_all, simp_all add: upd_var_def w_def\<close>)
  moreover have "ev_varNum ?x = ?i" by (simp add: upd_var_def w_def)
  ultimately show ?thesis using d(1) by (simp add: changeEnVar_def)
qed


text \<open>A process of one page at physical address 0x3000, with a string for the first argument at address 16.\<close>

definition ex_umem :: "cstring \<Rightarrow> mem" where
  "ex_umem bs a =
     (if a = 0x80001000 then 7 else if a = 0x80001001 then 0x20 else if a = 0x80002000 then 7 else if a = 0x80002001 then 0x30
      else if a = 0x80003004 then 16 else if a \<ge> 0x80003010 then arr bs (unat (a - 0x80003010)) else 0)"

definition ex_sys :: "cstring \<Rightarrow> sys_state" where
  "ex_sys bs = (ex_ft (\<lambda>_. ex_file_rec) (sys_state_ext 0 (\<lambda>_. \<lparr>ev_name = (\<lambda>_. 0), ev_value = (\<lambda>_. 0), ev_nameLength = 0, ev_size = 0\<rparr>) 0 False ()))\<lparr>mem := ex_umem bs, cur := Some 0, ptable := (\<lambda>_. ex_proc\<lparr>sz := 4096\<rparr>), cr3 := 0x1000,
     ev_varNum := 0, ev_initiated := False\<rparr>"

lemma ex_user_read: "va < 4096 \<Longrightarrow> user_read va (ex_sys bs) = Inr (ex_umem bs (0x80003000 + va))"
proof -
  assume v: "va < 4096"
  then have u: "unat va < 4096" by (simp add: word_less_nat_alt)
  have "drop_bit n va = 0" if "4096 \<le> (2 :: nat) ^ n" for n
  proof -
    have "unat va div 2 ^ n = 0" using u that by simp
    then have "unat (drop_bit n va) = 0" by (subst unat_drop_bit_eq) (simp only: drop_bit_eq_div)
    then show ?thesis by (simp only: unat_eq_0)
  qed
  then have "PDX va = 0" "PTX va = 0" by (simp_all add: PDX_def PTX_def)
  moreover have "va AND 0xFFF = va"
  proof -
    have "va AND mask 12 = va" using u by (simp add: word_unat_eq_iff unsigned_take_bit_eq take_bit_nat_eq_self_iff flip: take_bit_eq_mask)
    then show ?thesis by (simp add: mask_eq_exp_minus_1)
  qed
  ultimately show ?thesis by (simp add: user_read_def pt_addr_def ex_sys_def load32_def le32_def ex_umem_def p2v_def KERNBASE_def PTE_ADDR_def PTE_P_def Let_def)
qed

lemma ex_argstr: "argstr 0 (ex_sys [65, 61, 98]) = Inr (Some [65, 61, 98])"
proof -
  have f: "cur (ex_sys bs) = Some 0" "ptable (ex_sys bs) 0 = ex_proc\<lparr>sz := 4096\<rparr>" for bs by (simp_all add: ex_sys_def)
  have n: "(4 :: nat) = Suc (Suc (Suc (Suc 0)))" "(4080 :: nat) = Suc (Suc (Suc (Suc 4076)))" by simp_all
  have b: "user_bytes 4 4 (ex_sys bs) = Inr [16, 0, 0, 0]" for bs
    unfolding n(1) user_bytes.simps by (simp add: ex_user_read, simp add: ex_umem_def)
  have "argint 0 (ex_sys [65, 61, 98]) = Inr (Some 16)"
    by (simp add: argint_def fetchint_def myproc_def f ex_proc_def b) (simp add: le_bytes_def get32_def arr_def le32_def)
  moreover have "fetch_chars 4080 16 (ex_sys [65, 61, 98]) = Inr (Some [65, 61, 98])"
    unfolding n(2) fetch_chars.simps by (simp add: ex_user_read, simp add: ex_umem_def arr_def)
  ultimately show ?thesis by (simp add: argstr_def fetchstr_def myproc_def f ex_proc_def)
qed


end
