(* ===== verification/Consintr.thy ===== *)
theory Consintr
  imports Process
begin

text \<open>
  The input half of the console (console.c, kbd.c, the receiver of uart.c): decoding of scan codes,
  line editing, completion of commands and the history of command lines. An interrupt handler
  reads characters until there are none; the model takes the list of what the device delivers.
\<close>

section \<open>Completion\<close>

definition CMDNUM :: nat where "CMDNUM = 16"

definition Command :: "cstring list" where
  "Command = map bytes [''cat'', ''date'', ''echo'', ''forktest'', ''grep'', ''init'', ''kill'', ''ln'', ''ls'',
     ''mkdir'', ''rm'', ''sh'', ''snake'', ''stressfs'', ''usertests'', ''wc'', ''zombie'', ''hilight'', ''tedit'']"

text \<open>What the inner loop of \<open>matchCommand\<close> leaves of \<open>src\<close>.\<close>

fun unmatched :: "cstring \<Rightarrow> cstring \<Rightarrow> cstring" where
  "unmatched (a # src) (b # cmd) = (if a = b then unmatched src cmd else a # src)"
| "unmatched src cmd = src"

definition matchCommand :: "cstring \<Rightarrow> cstring list" where
  "matchCommand src = filter (\<lambda>cmd. unmatched src cmd = []) (take CMDNUM Command)"

section \<open>The input buffer\<close>

definition put_input :: "int \<Rightarrow> 'a cons_state_scheme \<Rightarrow> 'a cons_state_scheme" where
  "put_input c s = s\<lparr>in_buf := (in_buf s)(unat (in_e s) mod INPUT_BUF := of_int c), in_e := in_e s + 1\<rparr>"

text \<open>A character for a program that reads the keyboard directly.\<close>

definition pass_key :: "int \<Rightarrow> 'a cons_state_scheme \<Rightarrow> 'a cons_state_scheme" where
  "pass_key c s = (let s = put_input c s in wakeup ChInput (s\<lparr>in_w := in_e s\<rparr>))"

definition line_char :: "'a cons_state_scheme \<Rightarrow> bool" where
  "line_char s \<longleftrightarrow> in_e s \<noteq> in_w s \<and> in_buf s (unat (in_e s - 1) mod INPUT_BUF) \<noteq> 10"

text \<open>The two loops that drop the line being edited; there are at most \<open>e - w\<close> characters.\<close>

fun kill_line :: "nat \<Rightarrow> 'a cons_state_scheme \<Rightarrow> 'a cons_state_scheme kres" where
  "kill_line 0 s = Inr s"
| "kill_line (Suc k) s =
     (if line_char s then kbind (consputc BACKSPACE (s\<lparr>in_e := in_e s - 1\<rparr>)) (kill_line k) else Inr s)"

fun drop_line :: "nat \<Rightarrow> 'a cons_state_scheme \<Rightarrow> 'a cons_state_scheme" where
  "drop_line 0 s = s"
| "drop_line (Suc k) s = (if line_char s then drop_line k (s\<lparr>in_e := in_e s - 1\<rparr>) else s)"

definition erase_char :: "'a cons_state_scheme \<Rightarrow> 'a cons_state_scheme kres" where
  "erase_char s =
     (if in_e s + of_int (inputPos s) \<noteq> in_w s then
        let a = int (unat (in_e s) mod INPUT_BUF) + inputPos s - 1;
            b = int (unat (in_e s - 1) mod INPUT_BUF);
            s = (if inputPos s < 0 \<and> 0 \<le> a
                 then s\<lparr>in_buf := (\<lambda>i. if a \<le> int i \<and> int i < b then in_buf s (i + 1) else in_buf s i)\<rparr> else s)
        in consputc BACKSPACE (s\<lparr>in_e := in_e s - 1\<rparr>)
      else Inr s)"

section \<open>Tabulator\<close>

text \<open>The input before the cursor; it is read without wrapping the index around the buffer.\<close>

definition foreInput :: "'a cons_state_scheme \<Rightarrow> cstring kres" where
  "foreInput s =
     (let p = sint (in_e s + of_int (inputPos s) - in_r s)
      in if p < 0 \<or> p \<ge> int INPUT_BUF then Inl (Overrun ''foreInput'')
         else if p > 0 \<and> unat (in_r s) + nat p > INPUT_BUF then Inl (Overrun ''input.buf'')
         else Inr (map (\<lambda>i. in_buf s (unat (in_r s) + i)) [0..<nat p]))"

text \<open>Room for \<open>len\<close> characters at the cursor: the rest of the line moves up.\<close>

definition open_gap :: "int \<Rightarrow> 'a cons_state_scheme \<Rightarrow> 'a cons_state_scheme kres" where
  "open_gap len s =
     (let a = int (unat (in_e s) mod INPUT_BUF);
          lo = a + inputPos s
      in if inputPos s \<ge> 0 \<or> lo + len < 0 then Inr s
         else if lo + len = 0 \<or> lo < 0 \<or> a - 1 + len \<ge> int INPUT_BUF then Inl (Overrun ''input.buf'')
         else Inr (s\<lparr>in_buf := (\<lambda>i. if lo + len \<le> int i \<and> int i \<le> a - 1 + len then in_buf s (nat (int i - len)) else in_buf s i)\<rparr>))"

definition insert_at_cursor :: "u8 \<Rightarrow> 'a cons_state_scheme \<Rightarrow> 'a cons_state_scheme kres" where
  "insert_at_cursor c s =
     consputc (sint c)
       (s\<lparr>in_buf := (in_buf s)(unat (in_e s + of_int (inputPos s)) mod INPUT_BUF := c), in_e := in_e s + 1\<rparr>)"

definition complete_one :: "cstring \<Rightarrow> 'a cons_state_scheme \<Rightarrow> 'a cons_state_scheme kres" where
  "complete_one m s =
     (let p = in_e s + of_int (inputPos s) - in_r s
      in if unat p > length m then Inl (Overrun ''Command'')
         else kbind (open_gap (sint (of_nat (length m) - p + 1 :: u32)) s) (\<lambda>s.
              kfold insert_at_cursor (drop (unat p) m @ [32]) s))"

definition complete_many :: "cstring list \<Rightarrow> 'a cons_state_scheme \<Rightarrow> 'a cons_state_scheme kres" where
  "complete_many ms s =
     kbind (consputc 10 s) (\<lambda>s.
     kbind (kfold (\<lambda>m s. kbind (kfold (\<lambda>c. consputc (sint c)) m s) (consputc 32)) ms s) (\<lambda>s.
     kbind (consputc 10 (put_input 10 (drop_line (unat (in_e s - in_w s)) s))) (\<lambda>s.
     Inr (wakeup ChInput (s\<lparr>in_w := in_e s, inputPos := 0\<rparr>)))))"

definition tab_key :: "'a cons_state_scheme \<Rightarrow> 'a cons_state_scheme kres" where
  "tab_key s =
     (if isConsole s \<noteq> 0 then
        if in_e s - in_r s < of_nat INPUT_BUF then
          kbind (foreInput s) (\<lambda>src.
            case matchCommand (takeWhile (\<lambda>c. c \<noteq> 0) src) of [m] \<Rightarrow> complete_one m s | ms \<Rightarrow> complete_many ms s)
        else Inr s
      else if edit_mode s then
        kbind (kfold cgaputc [32, 32, 32, 32] s) (\<lambda>s. Inr (pass_key TAB s))
      else Inr s)"

section \<open>The history of command lines\<close>

abbreviation upd_line :: "nat \<Rightarrow> (commandLine \<Rightarrow> commandLine) \<Rightarrow> 'a cons_state_scheme \<Rightarrow> 'a cons_state_scheme" where
  "upd_line i f s \<equiv> s\<lparr>cmd_lines := (cmd_lines s)(i := f (cmd_lines s i))\<rparr>"

definition init_history :: "'a cons_state_scheme \<Rightarrow> 'a cons_state_scheme" where
  "init_history s =
     (if \<not> cmd_init s then s\<lparr>cmd_head := 0, cmd_tail := 0, cmd_current := 0, cmd_size := 0, cmd_init := True\<rparr> else s)"

definition copy_line :: "nat \<Rightarrow> 'a cons_state_scheme \<Rightarrow> 'a cons_state_scheme" where
  "copy_line i s =
     upd_line i (\<lambda>l. l\<lparr>cl_buf := (\<lambda>k. if k < unat (in_e s - 1) - unat (in_r s)
                                      then in_buf s ((unat (in_r s) + k) mod INPUT_BUF) else cl_buf l k)\<rparr>) s"

definition save_first :: "'a cons_state_scheme \<Rightarrow> 'a cons_state_scheme kres" where
  "save_first s =
     (if unat (in_r s) < unat (in_e s - 1) \<and> unat (in_e s - 1) > INPUT_BUF then Inl (Overrun ''input.buf'')
      else
        let s = copy_line 0 s;
            s = s\<lparr>cmd_size := cmd_size s + 1\<rparr>;
            s = upd_line (cmd_head s) (\<lambda>l. l\<lparr>cl_pre := cmd_tail s\<rparr>) s
        in Inr (upd_line (cmd_head s) (\<lambda>l. l\<lparr>cl_next := cmd_tail s\<rparr>) s))"

definition save_new :: "'a cons_state_scheme \<Rightarrow> 'a cons_state_scheme" where
  "save_new s =
     (let i = unat (cmd_size s) mod COMMAND_BUF;
          s = (if i = cmd_head s then s\<lparr>cmd_head := cl_next (cmd_lines s (cmd_head s))\<rparr> else s);
          s = copy_line i s;
          s = upd_line (cmd_tail s) (\<lambda>l. l\<lparr>cl_next := i\<rparr>) s;
          s = upd_line (cl_next (cmd_lines s (cmd_tail s))) (\<lambda>l. l\<lparr>cl_pre := cmd_tail s\<rparr>) s;
          s = s\<lparr>cmd_tail := cl_next (cmd_lines s (cmd_tail s))\<rparr>;
          s = upd_line (cmd_tail s) (\<lambda>l. l\<lparr>cl_next := cmd_head s\<rparr>) s;
          s = upd_line (cmd_head s) (\<lambda>l. l\<lparr>cl_pre := cmd_tail s\<rparr>) s
      in s\<lparr>cmd_current := cmd_tail s, cmd_size := cmd_size s + 1\<rparr>)"

definition save_again :: "'a cons_state_scheme \<Rightarrow> 'a cons_state_scheme" where
  "save_again s =
     (let c = cmd_current s;
          s = copy_line c s;
          s = (if c = cmd_head s then s\<lparr>cmd_head := cl_next (cmd_lines s (cmd_head s))\<rparr> else s);
          s = upd_line (cl_pre (cmd_lines s c)) (\<lambda>l. l\<lparr>cl_next := cl_next (cmd_lines s c)\<rparr>) s;
          s = upd_line (cl_next (cmd_lines s c)) (\<lambda>l. l\<lparr>cl_pre := cl_pre (cmd_lines s c)\<rparr>) s;
          s = upd_line c (\<lambda>l. l\<lparr>cl_pre := cmd_tail s\<rparr>) s;
          s = upd_line c (\<lambda>l. l\<lparr>cl_next := cmd_head s\<rparr>) s;
          s = upd_line (cmd_tail s) (\<lambda>l. l\<lparr>cl_next := c\<rparr>) s;
          s = upd_line (cmd_head s) (\<lambda>l. l\<lparr>cl_pre := c\<rparr>) s
      in s\<lparr>cmd_tail := c\<rparr>)"

definition save_line :: "'a cons_state_scheme \<Rightarrow> 'a cons_state_scheme kres" where
  "save_line s =
     (if cmd_size s = 0 then save_first s
      else if cmd_current s = cmd_tail s then Inr (save_new s)
      else Inr (save_again s))"

text \<open>The line of the history is copied up to its zero byte; the buffer need not hold one.\<close>

fun recall_from :: "nat \<Rightarrow> nat \<Rightarrow> 'a cons_state_scheme \<Rightarrow> 'a cons_state_scheme kres" where
  "recall_from 0 i s = Inl (Overrun ''command'')"
| "recall_from (Suc k) i s =
     (let c = cl_buf (cmd_lines s (cmd_current s)) i
      in if c = 0 then Inr s
         else kbind (consputc (sint c) (put_input (uint c) s)) (recall_from k (i + 1)))"

definition history_key :: "(commandLine \<Rightarrow> nat) \<Rightarrow> 'a cons_state_scheme \<Rightarrow> 'a cons_state_scheme kres" where
  "history_key go s =
     (if cmd_size s \<noteq> 0 then
        let s = (if \<not> cmd_first s then s\<lparr>cmd_current := go (cmd_lines s (cmd_current s))\<rparr> else s\<lparr>cmd_first := False\<rparr>)
        in kbind (kill_line (unat (in_e s - in_w s)) s) (recall_from INPUT_BUF 0)
      else Inr s)"

section \<open>Ordinary characters\<close>

definition insert_mid :: "int \<Rightarrow> 'a cons_state_scheme \<Rightarrow> 'a cons_state_scheme kres" where
  "insert_mid c s =
     (let a = unat (in_e s) mod INPUT_BUF;
          k = int a + inputPos s
      in if k < 0 then Inl (Overrun ''input.buf'')
         else Inr (s\<lparr>in_buf := (\<lambda>i. if k < int i \<and> i \<le> a then in_buf s (i - 1) else in_buf s i)(nat k := of_int c),
                     in_e := in_e s + 1\<rparr>))"

definition shell_char :: "int \<Rightarrow> 'a cons_state_scheme \<Rightarrow> 'a cons_state_scheme kres" where
  "shell_char c s =
     (if c \<noteq> 0 \<and> in_e s - in_r s < of_nat INPUT_BUF then
        let c = (if c = 13 then 10 else c)
        in kbind (if inputPos s < 0 \<and> c \<noteq> 10 then insert_mid c s else Inr (put_input c s)) (\<lambda>s.
           kbind (consputc c s) (\<lambda>s.
             if c = 10 \<or> c = 4 \<or> in_e s = in_r s + of_nat INPUT_BUF then
               kbind (save_line (s\<lparr>inputPos := 0, cmd_first := True, in_w := in_e s\<rparr>)) (\<lambda>s. Inr (wakeup ChInput s))
             else Inr s))
      else Inr s)"

definition editor_char :: "int \<Rightarrow> 'a cons_state_scheme \<Rightarrow> 'a cons_state_scheme kres" where
  "editor_char c s =
     (if c \<noteq> 0 \<and> in_e s - in_r s < of_nat INPUT_BUF then
        if \<not> edit_mode s \<and> c = 105 then Inr (pass_key c (s\<lparr>edit_mode := True\<rparr>))
        else if edit_mode s \<and> c = 27 then Inr (pass_key c (s\<lparr>edit_mode := False, esc_mode := True\<rparr>))
        else
          let c = (if c = 13 then 10 else c)
          in if edit_mode s then
               kbind (consputc c (put_input c s)) (\<lambda>s. Inr (wakeup ChInput (s\<lparr>in_w := in_e s\<rparr>)))
             else if esc_mode s then Inr (pass_key c s)
             else Inr s
      else Inr s)"

definition other_char :: "int \<Rightarrow> 'a cons_state_scheme \<Rightarrow> 'a cons_state_scheme kres" where
  "other_char c s =
     (if isConsole s = 1 then shell_char c s
      else if isConsole s = 2 then Inr (if c > 0 then s\<lparr>gameInput := c, gameGet := False\<rparr> else s)
      else editor_char c s)"

section \<open>The interrupt handler\<close>

definition console_char :: "int \<Rightarrow> 'a cons_state_scheme \<Rightarrow> 'a cons_state_scheme kres" where
  "console_char c s =
     (if c = 16 then if isConsole s \<noteq> 0 then procdump s else Inr (pass_key c s)
      else if c = 21 then if isConsole s \<noteq> 0 then kill_line (unat (in_e s - in_w s)) s else Inr s
      else if c = 8 \<or> c = 127 then
        if isConsole s \<noteq> 0 then erase_char s else kbind (consputc BACKSPACE s) (\<lambda>s. Inr (pass_key c s))
      else if c = TAB then tab_key s
      else if c = LEFTARROW \<or> c = RIGHTARROW then
        if isConsole s \<noteq> 0 then cgaputc c s else kbind (cgaputc c s) (\<lambda>s. Inr (pass_key c s))
      else if c = UPARROW \<or> c = DOWNARROW then
        if isConsole s \<noteq> 0 then history_key (if c = UPARROW then cl_pre else cl_next) s
        else kbind (cgaputc c s) (\<lambda>s. Inr (pass_key c s))
      else other_char c s)"

text \<open>\<open>cs\<close> is what \<open>getc\<close> returns until it returns a negative number.\<close>

definition consoleintr :: "int list \<Rightarrow> 'a cons_state_scheme \<Rightarrow> 'a cons_state_scheme kres" where
  "consoleintr cs s = kfold console_char cs (init_history s)"

end
