(* ===== verification/Kbd.thy ===== *)
theory Kbd
  imports Consintr
begin

text \<open>
  The keyboard (kbd.c, kbd.h) and the receiver of the serial port (uart.c). The tables of the
  keyboard are lists of 256 codes; a read of the data port is an element of a list of scan codes.
\<close>

section \<open>The tables\<close>

definition SHIFT :: u32 where "SHIFT = 1"
definition CTL :: u32 where "CTL = 2"
definition ALT :: u32 where "ALT = 4"
definition CAPSLOCK :: u32 where "CAPSLOCK = 8"
definition NUMLOCK :: u32 where "NUMLOCK = 16"
definition SCROLLLOCK :: u32 where "SCROLLLOCK = 32"
definition E0ESC :: u32 where "E0ESC = 64"

definition KEY_HOME :: u8 where "KEY_HOME = 0xE0"
definition KEY_END :: u8 where "KEY_END = 0xE1"
definition KEY_UP :: u8 where "KEY_UP = 0xE2"
definition KEY_DN :: u8 where "KEY_DN = 0xE3"
definition KEY_LF :: u8 where "KEY_LF = 0xE4"
definition KEY_RT :: u8 where "KEY_RT = 0xE5"
definition KEY_PGUP :: u8 where "KEY_PGUP = 0xE6"
definition KEY_PGDN :: u8 where "KEY_PGDN = 0xE7"
definition KEY_INS :: u8 where "KEY_INS = 0xE8"
definition KEY_DEL :: u8 where "KEY_DEL = 0xE9"

definition shiftcode :: "u8 \<Rightarrow> u32" where
  "shiftcode d = (if d = 0x1D \<or> d = 0x9D then CTL else if d = 0x2A \<or> d = 0x36 then SHIFT
                  else if d = 0x38 \<or> d = 0xB8 then ALT else 0)"

definition togglecode :: "u8 \<Rightarrow> u32" where
  "togglecode d = (if d = 0x3A then CAPSLOCK else if d = 0x45 then NUMLOCK else if d = 0x46 then SCROLLLOCK else 0)"

text \<open>The entries above 0x7f, which follow an E0 escape.\<close>

definition extended :: "u8 \<Rightarrow> u8 \<Rightarrow> u8 \<Rightarrow> u8" where
  "extended enter kp_div d =
     (if d = 0x9C then enter else if d = 0xB5 then kp_div else if d = 0xC8 then KEY_UP else if d = 0xD0 then KEY_DN
      else if d = 0xC9 then KEY_PGUP else if d = 0xD1 then KEY_PGDN else if d = 0xCB then KEY_LF else if d = 0xCD then KEY_RT
      else if d = 0x97 then KEY_HOME else if d = 0xCF then KEY_END else if d = 0xD2 then KEY_INS else if d = 0xD3 then KEY_DEL
      else 0)"

definition table :: "u8 list \<Rightarrow> (u8 \<Rightarrow> u8) \<Rightarrow> u8 \<Rightarrow> u8" where
  "table low high d = (if unat d < length low then low ! unat d else high d)"

text \<open>The keypad: rows 0x47 to 0x53 of the normal and the shifted table.\<close>

definition keypad :: "u8 list" where "keypad = bytes ''789-456+1230.'' @ [0, 0, 0, 0]"

definition normalmap :: "u8 \<Rightarrow> u8" where
  "normalmap = table
     ([0, 0x1B] @ bytes ''1234567890-='' @ [8, 9] @
      bytes ''qwertyui'' @ bytes ''op[]'' @ [10, 0] @ bytes ''as'' @
      bytes ''dfghjkl;'' @ [39] @ bytes ''`'' @ [0, 92] @ bytes ''zxcv'' @
      bytes ''bnm,./'' @ [0] @ bytes ''*'' @ [0] @ bytes '' '' @ replicate 13 0 @ keypad)
     (extended 10 47)"

definition shiftmap :: "u8 \<Rightarrow> u8" where
  "shiftmap = table
     ([0, 27] @ bytes ''!@#$%^&*()_+'' @ [8, 9] @
      bytes ''QWERTYUI'' @ bytes ''OP{}'' @ [10, 0] @ bytes ''AS'' @
      bytes ''DFGHJKL:'' @ [34] @ bytes ''~'' @ [0] @ bytes ''|'' @ bytes ''ZXCV'' @
      bytes ''BNM<>?'' @ [0] @ bytes ''*'' @ [0] @ bytes '' '' @ replicate 13 0 @ keypad)
     (extended 10 47)"

definition C :: "u8 \<Rightarrow> u8" where "C x = x - 64"

definition ctlmap :: "u8 \<Rightarrow> u8" where
  "ctlmap = table
     (replicate 16 0 @ map C (bytes ''QWERTYUI'') @ map C (bytes ''OP'') @ [0, 0, 13, 0] @ map C (bytes ''AS'') @
      map C (bytes ''DFGHJKL'') @ [0, 0, 0, 0, C 92] @ map C (bytes ''ZXCV'') @
      map C (bytes ''BNM'') @ [0, 0, C 47, 0, 0])
     (extended 13 (C 47))"

definition charcode :: "u32 \<Rightarrow> u8 \<Rightarrow> u8" where
  "charcode k = (if k = 0 then normalmap else if k = 1 then shiftmap else ctlmap)"

section \<open>Decoding\<close>

definition caps :: "u8 \<Rightarrow> u8" where
  "caps c = (if 97 \<le> c \<and> c \<le> 122 then c - 32 else if 65 \<le> c \<and> c \<le> 90 then c + 32 else c)"

text \<open>\<open>kbdgetc\<close> with a scan code in the buffer; without one it returns -1.\<close>

definition kbdgetc :: "u8 \<Rightarrow> u32 \<Rightarrow> int \<times> u32" where
  "kbdgetc data shift =
     (if data = 0xE0 then (0, shift OR E0ESC)
      else if data AND 0x80 \<noteq> 0 then
        let data = (if shift AND E0ESC \<noteq> 0 then data else data AND 0x7F)
        in (0, shift AND NOT (shiftcode data OR E0ESC))
      else
        let (data, shift) = (if shift AND E0ESC \<noteq> 0 then (data OR 0x80, shift AND NOT E0ESC) else (data, shift));
            shift = (shift OR shiftcode data) XOR togglecode data;
            c = charcode (shift AND (CTL OR SHIFT)) data
        in (uint (if shift AND CAPSLOCK \<noteq> 0 then caps c else c), shift))"

fun kbd_codes :: "u8 list \<Rightarrow> u32 \<Rightarrow> int list \<times> u32" where
  "kbd_codes [] shift = ([], shift)"
| "kbd_codes (d # ds) shift =
     (let (c, shift) = kbdgetc d shift; (cs, shift) = kbd_codes ds shift in (c # cs, shift))"

definition kbdintr :: "u8 list \<Rightarrow> u32 \<Rightarrow> 'a cons_state_scheme \<Rightarrow> (u32 \<times> 'a cons_state_scheme) kres" where
  "kbdintr ds shift s = (let (cs, shift) = kbd_codes ds shift in kbind (consoleintr cs s) (\<lambda>s. Inr (shift, s)))"

text \<open>The serial port delivers the bytes it has received, when there is one.\<close>

definition uartgetc :: "'a cons_state_scheme \<Rightarrow> u8 list \<Rightarrow> int \<times> u8 list" where
  "uartgetc s bs = (if \<not> uart s then (-1, bs) else case bs of [] \<Rightarrow> (-1, []) | b # bs \<Rightarrow> (uint b, bs))"

fun uart_codes :: "'a cons_state_scheme \<Rightarrow> u8 list \<Rightarrow> int list" where
  "uart_codes s [] = []"
| "uart_codes s (b # bs) = (if fst (uartgetc s (b # bs)) < 0 then [] else fst (uartgetc s (b # bs)) # uart_codes s bs)"

definition uartintr :: "u8 list \<Rightarrow> 'a cons_state_scheme \<Rightarrow> 'a cons_state_scheme kres" where
  "uartintr bs s = consoleintr (uart_codes s bs) s"

end
