(* ===== verification/Trap.thy ===== *)
theory Trap
  imports Sysproc Kbd
begin

text \<open>
  Traps (trap.c, traps.h) and the dispatch of system calls (syscall.c, syscall.h). What the devices
  deliver at the time of the trap are arguments: the number of the CPU, the fault address, the clock,
  the scan codes and the bytes of the serial port. The disk is the one of memide.c, whose interrupt
  handler does nothing.
\<close>

section \<open>System calls\<close>

text \<open>A call or a trap returns to the process, ends it, or gives up the CPU.\<close>

datatype trap_end = Back | Gone | Yielded

text \<open>The table of system calls by their number in syscall.h, without \<open>exit\<close>, which does not return.\<close>

definition syscalls :: "clock \<Rightarrow> ('a sys_state_scheme \<Rightarrow> (int \<times> 'a sys_state_scheme) kres) list" where
  "syscalls rd =
     [sys_wait, sys_pipe, sys_read, sys_kill, sys_exec, sys_fstat, sys_chdir, sys_dup, sys_getpid, sys_sbrk,
      sys_sleep, sys_uptime, sys_open, sys_write, sys_mknod, sys_unlink, sys_link, sys_mkdir, sys_close,
      sys_hlight, sys_swpath, sys_retprt, sys_cmdmod, sys_clrscr, sys_getpos, sys_setcln, sys_lstpos, sys_hlline,
      sys_delhlt, sys_alarm, sys_time, sys_outexac, sys_kbevent, sys_gameget, sys_date rd, sys_set, sys_get]"

definition SYS_fork :: int where "SYS_fork = 1"
definition SYS_exit :: int where "SYS_exit = 2"
definition SYS_wait :: int where "SYS_wait = 3"

definition syscall_of :: "clock \<Rightarrow> int \<Rightarrow> ('a sys_state_scheme \<Rightarrow> (int \<times> 'a sys_state_scheme) kres) option" where
  "syscall_of rd num =
     (if num = SYS_fork then Some sys_fork
      else if SYS_wait \<le> num \<and> num < SYS_wait + int (length (syscalls rd :: ('a sys_state_scheme \<Rightarrow> (int \<times> 'a sys_state_scheme) kres) list))
      then Some (syscalls rd ! nat (num - SYS_wait)) else None)"

definition set_eax :: "nat \<Rightarrow> int \<Rightarrow> 'a proc_state_scheme \<Rightarrow> 'a proc_state_scheme" where
  "set_eax p r s = upd_proc p (\<lambda>q. q\<lparr>tf := (tf q)\<lparr>tf_eax := of_int r\<rparr>\<rparr>) s"

definition syscall :: "clock \<Rightarrow> 'a sys_state_scheme \<Rightarrow> (trap_end \<times> 'a sys_state_scheme) kres" where
  "syscall rd s =
     kbind (myproc s) (\<lambda>p.
       let num = sint (tf_eax (tf (ptable s p)))
       in if num = SYS_exit then kbind (exit s) (\<lambda>s. Inr (Gone, s))
          else
            case syscall_of rd num of
              Some h \<Rightarrow> kbind (h s) (\<lambda>(r, s). Inr (Back, set_eax p r s))
            | None \<Rightarrow>
                kbind (cprintf (\<lambda>_. cstr 16 (pname (ptable s p))) (Some (bytes ''%d %s: unknown sys call %d'' @ [10]))
                         [pid (ptable s p), 1, tf_eax (tf (ptable s p))] s) (\<lambda>s.
                Inr (Back, set_eax p (-1) s)))"

section \<open>Interrupts\<close>

definition T_SYSCALL :: u32 where "T_SYSCALL = 64"
definition T_IRQ0 :: u32 where "T_IRQ0 = 32"
definition IRQ_TIMER :: u32 where "IRQ_TIMER = 0"
definition IRQ_KBD :: u32 where "IRQ_KBD = 1"
definition IRQ_COM1 :: u32 where "IRQ_COM1 = 4"
definition IRQ_IDE :: u32 where "IRQ_IDE = 14"
definition IRQ_SPURIOUS :: u32 where "IRQ_SPURIOUS = 31"

definition STS_IG32 :: u8 where "STS_IG32 = 0xE"
definition STS_TG32 :: u8 where "STS_TG32 = 0xF"

record gatedesc =
  off_15_0 :: u16
  g_cs :: u16
  g_args :: u8
  g_rsv1 :: u8
  g_type :: u8
  g_s :: u8
  g_dpl :: u8
  g_p :: u8
  off_31_16 :: u16

definition SETGATE :: "bool \<Rightarrow> u16 \<Rightarrow> u32 \<Rightarrow> u8 \<Rightarrow> gatedesc" where
  "SETGATE istrap sel off d =
     \<lparr>off_15_0 = ucast (off AND 0xffff), g_cs = sel, g_args = 0, g_rsv1 = 0,
      g_type = (if istrap then STS_TG32 else STS_IG32), g_s = 0, g_dpl = d AND 3, g_p = 1,
      off_31_16 = ucast (drop_bit 16 off)\<rparr>"

definition SEG_KCODE :: u16 where "SEG_KCODE = 1"

text \<open>The interrupt table; \<open>vectors\<close> are the entry points that the build generates.\<close>

definition tvinit :: "(nat \<Rightarrow> u32) \<Rightarrow> nat \<Rightarrow> gatedesc" where
  "tvinit vectors i =
     (if i = unat T_SYSCALL then SETGATE True (push_bit 3 SEG_KCODE) (vectors i) (ucast DPL_USER)
      else SETGATE False (push_bit 3 SEG_KCODE) (vectors i) 0)"

record trap_state = sys_state +
  kbd_shift :: u32     \<comment> \<open>the static \<open>shift\<close> of \<open>kbdgetc\<close>\<close>

abbreviation user_mode :: "trapframe \<Rightarrow> bool" where "user_mode f \<equiv> tf_cs f AND 3 = 3"

text \<open>The alarm pushes the program counter on the stack of the user, at whatever address that is.\<close>

definition alarm_tick :: "nat \<Rightarrow> trapframe \<Rightarrow> 'a sys_state_scheme \<Rightarrow> (trapframe \<times> 'a sys_state_scheme) kres" where
  "alarm_tick p f s =
     (let s = upd_proc p (\<lambda>q. q\<lparr>curalarmtick := curalarmtick q + 1\<rparr>) s
      in if alarmticks (ptable s p) = curalarmtick (ptable s p) then
           let s = upd_proc p (\<lambda>q. q\<lparr>curalarmtick := 0\<rparr>) s;
               f = f\<lparr>tf_esp := tf_esp f - 4\<rparr>
           in kbind (user_store (tf_esp f) (word_bytes [tf_eip f]) s) (\<lambda>s.
              Inr (f\<lparr>tf_eip := alarmhandler (ptable s p)\<rparr>, s))
         else Inr (f, s))"

definition timer_intr :: "nat \<Rightarrow> trapframe \<Rightarrow> 'a sys_state_scheme \<Rightarrow> (trapframe \<times> 'a sys_state_scheme) kres" where
  "timer_intr cpuid f s =
     (let s = (if cpuid = 0 then wakeup ChTicks (s\<lparr>ticks := ticks s + 1\<rparr>) else s)
      in case cur s of
           None \<Rightarrow> Inr (f, s)
         | Some p \<Rightarrow> if user_mode f then alarm_tick p f s else Inr (f, s))"

definition unexpected :: "nat \<Rightarrow> u32 \<Rightarrow> trapframe \<Rightarrow> 'a sys_state_scheme \<Rightarrow> 'a sys_state_scheme kres" where
  "unexpected cpuid cr2 f s =
     (case cur s of
        Some p \<Rightarrow>
          if tf_cs f AND 3 = 0 then
            kbind (cprintf (\<lambda>_. []) (Some (bytes ''unexpected trap %d from cpu %d eip %x (cr2=0x%x)'' @ [10]))
                     [tf_trapno f, of_nat cpuid, tf_eip f, cr2] s) (\<lambda>_. Inl (Panic ''trap''))
          else
            kbind (cprintf (\<lambda>_. cstr 16 (pname (ptable s p)))
                     (Some (bytes ''pid %d %s: trap %d err %d on cpu %d eip 0x%x addr 0x%x--kill proc'' @ [10]))
                     [pid (ptable s p), 1, tf_trapno f, tf_err f, of_nat cpuid, tf_eip f, cr2] s) (\<lambda>s.
            Inr (upd_proc p (\<lambda>q. q\<lparr>killed := True\<rparr>) s))
      | None \<Rightarrow>
          kbind (cprintf (\<lambda>_. []) (Some (bytes ''unexpected trap %d from cpu %d eip %x (cr2=0x%x)'' @ [10]))
                   [tf_trapno f, of_nat cpuid, tf_eip f, cr2] s) (\<lambda>_. Inl (Panic ''trap'')))"

text \<open>The switch on the trap number.\<close>

definition trap_switch :: "nat \<Rightarrow> u32 \<Rightarrow> u8 list \<Rightarrow> u8 list \<Rightarrow> trapframe \<Rightarrow> 'a trap_state_scheme \<Rightarrow>
    (trapframe \<times> 'a trap_state_scheme) kres" where
  "trap_switch cpuid cr2 keys serial f s =
     (let n = tf_trapno f
      in if n = T_IRQ0 + IRQ_TIMER then timer_intr cpuid f s
         else if n = T_IRQ0 + IRQ_IDE \<or> n = T_IRQ0 + IRQ_IDE + 1 then Inr (f, s)
         else if n = T_IRQ0 + IRQ_KBD then
           kbind (kbdintr keys (kbd_shift s) s) (\<lambda>(sh, s). Inr (f, s\<lparr>kbd_shift := sh\<rparr>))
         else if n = T_IRQ0 + IRQ_COM1 then kbind (uartintr serial s) (\<lambda>s. Inr (f, s))
         else if n = T_IRQ0 + 7 \<or> n = T_IRQ0 + IRQ_SPURIOUS then
           kbind (cprintf (\<lambda>_. []) (Some (bytes ''cpu%d: spurious interrupt at %x:%x'' @ [10]))
                    [of_nat cpuid, ucast (tf_cs f), tf_eip f] s) (\<lambda>s. Inr (f, s))
         else kbind (unexpected cpuid cr2 f s) (\<lambda>s. Inr (f, s)))"

definition exit_if_killed :: "trapframe \<Rightarrow> 'a ft_state_scheme \<Rightarrow> (trap_end \<times> 'a ft_state_scheme) kres" where
  "exit_if_killed f s =
     (case cur s of
        None \<Rightarrow> Inr (Back, s)
      | Some p \<Rightarrow> if killed (ptable s p) \<and> user_mode f then kbind (exit s) (\<lambda>s. Inr (Gone, s)) else Inr (Back, s))"

text \<open>The branch of \<open>trap\<close> for a system call; the frame of the process is the one of the trap.\<close>

definition trap_syscall :: "clock \<Rightarrow> trapframe \<Rightarrow> 'a sys_state_scheme \<Rightarrow> (trap_end \<times> 'a sys_state_scheme) kres" where
  "trap_syscall rd f s =
     kbind (myproc s) (\<lambda>p.
       if killed (ptable s p) then kbind (exit s) (\<lambda>s. Inr (Gone, s))
       else
         kbind (syscall rd (upd_proc p (\<lambda>q. q\<lparr>tf := f\<rparr>) s)) (\<lambda>(e, s).
           if e = Back \<and> killed (ptable s p) then kbind (exit s) (\<lambda>s. Inr (Gone, s)) else Inr (e, s)))"

text \<open>A trap up to its return, or up to the switch of a yielding process, which goes on with \<open>exit_if_killed\<close>.\<close>

definition trap :: "nat \<Rightarrow> u32 \<Rightarrow> clock \<Rightarrow> u8 list \<Rightarrow> u8 list \<Rightarrow> trapframe \<Rightarrow> 'a trap_state_scheme \<Rightarrow>
    (trap_end \<times> trapframe \<times> 'a trap_state_scheme) kres" where
  "trap cpuid cr2 rd keys serial f s =
     (if tf_trapno f = T_SYSCALL then
        kbind (trap_syscall rd f s) (\<lambda>(e, s'). Inr (e, case cur s of None \<Rightarrow> f | Some p \<Rightarrow> tf (ptable s' p), s'))
      else
        kbind (trap_switch cpuid cr2 keys serial f s) (\<lambda>(f, s).
        kbind (exit_if_killed f s) (\<lambda>(e, s).
          if e = Gone then Inr (Gone, f, s)
          else
            case cur s of
              None \<Rightarrow> Inr (Back, f, s)
            | Some p \<Rightarrow>
                if state (ptable s p) = RUNNING \<and> tf_trapno f = T_IRQ0 + IRQ_TIMER
                then kbind (yield_enter s) (\<lambda>s. Inr (Yielded, f, s))
                else kbind (exit_if_killed f s) (\<lambda>(e, s). Inr (e, f, s)))))"

section \<open>A killed process\<close>

text \<open>Output to the console leaves the process table alone.\<close>

definition proc_same :: "'a proc_state_scheme \<Rightarrow> 'a proc_state_scheme \<Rightarrow> bool" where
  "proc_same s t \<longleftrightarrow> ptable t = ptable s \<and> cur t = cur s"

lemma proc_same_refl [simp]: "proc_same s s"
  by (simp add: proc_same_def)

lemma proc_same_trans: "proc_same s t \<Longrightarrow> proc_same t u \<Longrightarrow> proc_same s u"
  by (simp add: proc_same_def)

lemma proc_same_cell [simp]: "proc_same s (set_cell i v t) = proc_same s t" "proc_same s (paint x a b t) = proc_same s t"
  "proc_same s (set_cursor i t) = proc_same s t" "proc_same s (uartputc c t) = proc_same s t"
  "proc_same s (t\<lparr>lastblank := i\<rparr>) = proc_same s t" "proc_same s (t\<lparr>lastpos := i\<rparr>) = proc_same s t" "proc_same s (t\<lparr>crt := X\<rparr>) = proc_same s t"
  "proc_same s (t\<lparr>inputPos := i\<rparr>) = proc_same s t"
  by (simp_all add: proc_same_def set_cell_def paint_def set_cursor_def uartputc_def)

lemma cell_proc_same [simp]: "proc_same (set_cell i v s) t = proc_same s t" "proc_same (paint x a b s) t = proc_same s t"
  "proc_same (uartputc c s) t = proc_same s t"
  "proc_same (s\<lparr>lastblank := i\<rparr>) t = proc_same s t" "proc_same (s\<lparr>lastpos := i\<rparr>) t = proc_same s t" "proc_same (s\<lparr>crt := X\<rparr>) t = proc_same s t"
  by (simp_all add: proc_same_def set_cell_def paint_def uartputc_def)

lemma scroll_same: "scroll_up pos s = Inr (q, t) \<Longrightarrow> proc_same s t"
  by (auto simp: scroll_up_def Let_def split: if_splits)

lemma checkkey_same: "checkkey pos s = (k, t) \<Longrightarrow> proc_same s t"
  by (auto simp: checkkey_def Let_def split: if_splits)

lemma cgaputc_h_same: "cgaputc_h c s = Inr t \<Longrightarrow> proc_same s t"
  by (auto simp: cgaputc_h_def Let_def kres split: if_splits prod.splits dest!: scroll_same checkkey_same dest: proc_same_trans)

lemma cgaputc_key_same: "cgaputc_key c pos s = Inr (q, m, t) \<Longrightarrow> proc_same s t"
  by (auto simp: cgaputc_key_def Let_def kres split: if_splits)

lemma cgaputc_same: "cgaputc c s = Inr t \<Longrightarrow> proc_same s t"
  by (auto simp: cgaputc_def Let_def kres split: if_splits dest!: scroll_same cgaputc_key_same dest: proc_same_trans)

lemma consputc_same: "consputc c s = Inr t \<Longrightarrow> proc_same s t"
  by (auto simp: consputc_def Let_def split: if_splits dest!: cgaputc_same cgaputc_h_same dest: proc_same_trans)

lemma cprintf_same:
  assumes "cprintf str fmt args s = Inr t" shows "proc_same s t"
proof -
  have "kfold consputc cs s = Inr t \<Longrightarrow> proc_same s t" for cs s
    by (induction cs arbitrary: s) (auto simp: kres dest!: consputc_same dest: proc_same_trans)
  then show ?thesis using assms by (auto simp: cprintf_def split: option.splits)
qed

text \<open>A trap from user mode that returns there.\<close>

lemma exit_if_killed_back: "exit_if_killed f s = Inr (e, t) \<Longrightarrow> user_mode f \<Longrightarrow> e \<noteq> Gone \<Longrightarrow>
    t = s \<and> (\<forall>q. cur s = Some q \<longrightarrow> \<not> killed (ptable s q))"
  by (auto simp: exit_if_killed_def kres split: option.splits if_splits)

lemma trap_switch_mode: "trap_switch cpuid cr2 keys serial f s = Inr (g, t) \<Longrightarrow> user_mode g = user_mode f"
  by (auto simp: trap_switch_def timer_intr_def alarm_tick_def kres Let_def split: option.splits if_splits)

lemma unexpected_kills:
  assumes "unexpected cpuid cr2 f s = Inr t" "user_mode f"
  shows "\<exists>p. cur t = Some p \<and> killed (ptable t p)"
  using assms
  by (auto simp: unexpected_def kres upd_proc_def split: option.splits if_splits dest!: cprintf_same simp: proc_same_def)

definition irq :: "u32 \<Rightarrow> bool" where
  "irq n \<longleftrightarrow> n \<in> {T_IRQ0 + IRQ_TIMER, T_IRQ0 + IRQ_IDE, T_IRQ0 + IRQ_IDE + 1, T_IRQ0 + IRQ_KBD, T_IRQ0 + IRQ_COM1, T_IRQ0 + 7, T_IRQ0 + IRQ_SPURIOUS}"


text \<open>A disk interrupt while a process runs in user mode.\<close>

definition ex_trap :: trap_state where
  "ex_trap = (ex_ft (\<lambda>_. ex_file_rec) (sys_state_ext 0 (\<lambda>_. \<lparr>ev_name = (\<lambda>_. 0), ev_value = (\<lambda>_. 0), ev_nameLength = 0, ev_size = 0\<rparr>)
     0 False (trap_state_ext 0 ())))\<lparr>cur := Some 1, ptable := (\<lambda>_. ex_proc\<lparr>state := RUNNING\<rparr>)\<rparr>"

definition ex_frame :: trapframe where
  "ex_frame = zero_tf\<lparr>tf_cs := 0x23, tf_trapno := 46\<rparr>"


end
