(* ===== verification/Frame.thy ===== *)
theory Frame
  imports Process
begin

text \<open>
  Frames: what the page allocator and the page tables, and what the file system leave alone. The first change
  memory and the free list only; the second can wake processes up but change nothing else of the
  process table, the open files and the pipes.
\<close>

section \<open>What the memory operations leave alone\<close>

definition mem_only :: "'a kmem_state_scheme \<Rightarrow> 'a kmem_state_scheme \<Rightarrow> bool" where
  "mem_only s t \<longleftrightarrow> kmem_state.more t = kmem_state.more s \<and> kernel_end t = kernel_end s"

lemma mem_only_refl [simp]: "mem_only s s"
  by (simp add: mem_only_def)

lemma mem_only_trans: "mem_only s t \<Longrightarrow> mem_only t u \<Longrightarrow> mem_only s u"
  by (simp add: mem_only_def)

lemma mem_only_upd [simp]: "mem_only s (t\<lparr>mem := m\<rparr>) = mem_only s t" "mem_only (s\<lparr>mem := m\<rparr>) t = mem_only s t"
  by (simp_all add: mem_only_def)

lemma kalloc_only: "kalloc s = (r, t) \<Longrightarrow> mem_only s t"
  by (auto simp: kalloc_def Let_def mem_only_def split: if_splits)

lemma kfree_only: "kfree v s = Inr t \<Longrightarrow> mem_only s t"
  by (auto simp: kfree_def Let_def mem_only_def split: if_splits)

lemma walkpgdir_only: "walkpgdir dir va b s = (p, t) \<Longrightarrow> mem_only s t"
  by (auto simp: walkpgdir_def Let_def split: if_splits prod.splits dest: kalloc_only)

lemma mappages_loop_only: "mappages_loop k dir a pa perm s = Inr (r, t) \<Longrightarrow> mem_only s t"
proof (induction k arbitrary: a pa s)
  case 0
  then show ?case by (subst (asm) mappages_loop.simps) (auto simp: Let_def split: prod.splits if_splits dest: walkpgdir_only)
next
  case (Suc k)
  obtain p u where w: "walkpgdir dir a True s = (p, u)" by fastforce
  then show ?case using Suc.prems walkpgdir_only [OF w]
    by (subst (asm) mappages_loop.simps) (auto simp: Let_def split: if_splits dest!: Suc.IH dest: mem_only_trans)
qed

lemma mappages_only: "mappages dir va len pa perm s = Inr (r, t) \<Longrightarrow> mem_only s t"
  by (auto simp: mappages_def Let_def dest: mappages_loop_only)

lemma map_kernel_only: "map_kernel dir ks s = Inr (d, t) \<Longrightarrow> mem_only s t"
  by (induction ks arbitrary: s) (auto simp: kres split: if_splits dest!: mappages_only, metis mem_only_trans)

lemma setupkvm_only: "setupkvm s = Inr (d, t) \<Longrightarrow> mem_only s t"
  by (auto simp: setupkvm_def Let_def split: if_splits prod.splits dest!: map_kernel_only kalloc_only dest: mem_only_trans)

lemma deallocuvm_from_only: "deallocuvm_from dir a oldsz s = Inr t \<Longrightarrow> mem_only s t"
proof (induction "oldsz - a" arbitrary: a s rule: less_induct)
  case less
  obtain p u where w: "walkpgdir dir (of_nat a) False s = (p, u)" by fastforce
  note o = walkpgdir_only [OF w]
  have ih: "deallocuvm_from dir (a + n) oldsz v = Inr t \<Longrightarrow> 0 < n \<Longrightarrow> a < oldsz \<Longrightarrow> mem_only s v \<Longrightarrow> mem_only s t" for n v
    using less(1) [of "a + n" v] by (auto intro: mem_only_trans)
  have kf: "kfree x u = Inr v \<Longrightarrow> mem_only s v" for x v
    using o kfree_only mem_only_trans by blast
  show ?case using less(2) w o
    by (subst (asm) deallocuvm_from.simps)
       (auto simp: Let_def kres PGSIZE_def NPTENTRIES_def add.assoc split: if_splits dest!: kf dest: ih)
qed

lemma deallocuvm_only: "deallocuvm dir oldsz newsz s = Inr (r, t) \<Longrightarrow> mem_only s t"
  by (auto simp: deallocuvm_def kres split: if_splits dest: deallocuvm_from_only)

lemma free_table_only: "free_table dir i s = Inr t \<Longrightarrow> mem_only s t"
  by (auto simp: free_table_def Let_def split: if_splits dest: kfree_only)

lemma freevm_only:
  assumes "freevm dir s = Inr t" shows "mem_only s t"
proof -
  obtain r u v where d: "deallocuvm dir KERNBASE 0 s = Inr (r, u)"
    and f: "kfold (free_table dir) [0..<NPDENTRIES] u = Inr v" and k: "kfree dir v = Inr t"
    using assms by (auto simp: freevm_def kres split: if_splits)
  have "mem_only s v"
    by (rule kfold_invariant [OF f, where P = "mem_only s"])
       (auto intro: deallocuvm_only [OF d] mem_only_trans dest: free_table_only)
  then show ?thesis using kfree_only [OF k] by (rule mem_only_trans)
qed

lemma copyuvm_from_only: "copyuvm_from dir d i len s = Inr (r, t) \<Longrightarrow> mem_only s t"
proof (induction "len - i" arbitrary: i s rule: less_induct)
  case less
  show ?case
  proof (cases "i < len")
    case False
    then show ?thesis using less(2) by (subst (asm) copyuvm_from.simps) simp
  next
    case True
    obtain p u where w: "walkpgdir dir (of_nat i) False s = (p, u)" by fastforce
    obtain m v where k: "kalloc u = (m, v)" by fastforce
    have o: "mem_only s v" using walkpgdir_only [OF w] kalloc_only [OF k] by (rule mem_only_trans)
    have ih: "copyuvm_from dir d (i + unat PGSIZE) len x = Inr (r, t) \<Longrightarrow> mem_only v x \<Longrightarrow> mem_only s t" for x
      using less(1) [of "i + unat PGSIZE" x] True o by (auto simp: PGSIZE_def intro: mem_only_trans)
    have fin: "freevm d x = Inr t \<Longrightarrow> mem_only v x \<Longrightarrow> mem_only s t" for x
      using mem_only_trans [OF o mem_only_trans [OF _ freevm_only]] by blast
    have mp: "mappages d (of_nat i) PGSIZE (v2p m) (PTE_W OR PTE_U) (v\<lparr>mem := y\<rparr>) = Inr (q, x) \<Longrightarrow> mem_only v x" for q x y
      using mappages_only by fastforce
    show ?thesis using less(2) True w k
      by (subst (asm) copyuvm_from.simps) (auto simp: Let_def kres split: if_splits dest!: mp dest: ih fin)
  qed
qed

lemma copyuvm_only: "copyuvm dir len s = Inr (r, t) \<Longrightarrow> mem_only s t"
  by (auto simp: copyuvm_def kres split: if_splits dest!: setupkvm_only copyuvm_from_only dest: mem_only_trans)


lemma mem_only_proc:
  fixes s :: "'a proc_state_scheme"
  assumes "mem_only s t"
  shows "ptable t = ptable s" "cur t = cur s" "initproc t = initproc s" "nextpid t = nextpid s"
  using assms unfolding mem_only_def
  by (cases s rule: proc_state.cases_scheme, cases t rule: proc_state.cases_scheme,
      simp only: proc_state.select_convs kmem_state.select_convs proc_state.ext_inject)+

lemma mem_only_ft:
  fixes s :: "'a ft_state_scheme"
  assumes "mem_only s t"
  shows "ftable t = ftable s" "pipes t = pipes s" "inodes t = inodes s" "cr3 t = cr3 s"
  using assms unfolding mem_only_def
  by (cases s rule: ft_state.cases_scheme, cases t rule: ft_state.cases_scheme,
      simp only: ft_state.select_convs fs_state.select_convs vm_state.select_convs kmem_state.select_convs ft_state.ext_inject
        vm_state.ext_inject cons_state.ext_inject fs_state.ext_inject log_state.ext_inject bio_state.ext_inject proc_state.ext_inject)+

section \<open>What the file system leaves alone\<close>

definition woken :: "'a proc_state_scheme \<Rightarrow> 'a proc_state_scheme \<Rightarrow> bool" where
  "woken s t \<longleftrightarrow> (\<forall>p. ptable t p = ptable s p \<or>
     state (ptable s p) = SLEEPING \<and> ptable t p = (ptable s p)\<lparr>state := RUNNABLE\<rparr>)"

lemma woken_trans: "woken s t \<Longrightarrow> woken t u \<Longrightarrow> woken s u"
proof -
  assume a: "woken s t" "woken t u"
  have "ptable u p = ptable s p \<or> state (ptable s p) = SLEEPING \<and> ptable u p = (ptable s p)\<lparr>state := RUNNABLE\<rparr>" for p
    using a [unfolded woken_def, THEN spec, of p] by auto
  then show "woken s u" by (simp add: woken_def)
qed

definition fskeep :: "'a fs_state_scheme \<Rightarrow> 'a fs_state_scheme \<Rightarrow> bool" where
  "fskeep s t \<longleftrightarrow> woken s t \<and> cur t = cur s \<and> initproc t = initproc s \<and> nextpid t = nextpid s \<and>
     fs_state.more t = fs_state.more s"

lemma fskeep_refl [simp]: "fskeep s s"
  by (simp add: fskeep_def woken_def)

lemma fskeep_trans: "fskeep s t \<Longrightarrow> fskeep t u \<Longrightarrow> fskeep s u"
  unfolding fskeep_def by (auto intro: woken_trans)

lemma fskeep_upd [simp]:
  "fskeep s (t\<lparr>bufs := a\<rparr>) = fskeep s t" "fskeep s (t\<lparr>disk := d\<rparr>) = fskeep s t" "fskeep s (t\<lparr>writes := w\<rparr>) = fskeep s t"
  "fskeep s (t\<lparr>lh_n := n\<rparr>) = fskeep s t" "fskeep s (t\<lparr>lh_sector := h\<rparr>) = fskeep s t" "fskeep s (t\<lparr>log_busy := b\<rparr>) = fskeep s t"
  "fskeep s (t\<lparr>inodes := i\<rparr>) = fskeep s t"
  "fskeep (s\<lparr>bufs := a\<rparr>) t = fskeep s t" "fskeep (s\<lparr>lh_n := n\<rparr>) t = fskeep s t" "fskeep (s\<lparr>lh_sector := h\<rparr>) t = fskeep s t"
  "fskeep (s\<lparr>log_busy := b\<rparr>) t = fskeep s t" "fskeep (s\<lparr>inodes := i\<rparr>) t = fskeep s t"
  by (simp_all add: fskeep_def woken_def)

lemma fskeep_upds [simp]:
  "fskeep s (upd_buf b f t) = fskeep s t" "fskeep (upd_buf b f s) t = fskeep s t"
  "fskeep s (upd_inode ip g t) = fskeep s t" "fskeep (upd_inode ip g s) t = fskeep s t"
  "fskeep s (upd_data b h t) = fskeep s t" "fskeep (upd_data b h s) t = fskeep s t"
  by (simp_all add: upd_buf_def upd_inode_def upd_data_def)

lemma wakeup_fskeep: "fskeep s (wakeup c s)"
  by (simp add: fskeep_def woken_def wakeup_def wakeup1_def)

lemma iderw_fskeep: "iderw b s = Inr t \<Longrightarrow> fskeep s t"
  by (auto simp: iderw_def Let_def split: if_splits)

lemma bget_fskeep:
  assumes "bget d x s = Inr (b, t)" shows "fskeep s t"
proof -
  from kbind_returns [THEN iffD1, OF assms [unfolded bget_def]]
  obtain r where r: "(case r of
          Some b \<Rightarrow>
            if flags_of s b AND B_BUSY = 0
            then Inr (b, upd_buf b (\<lambda>x. x\<lparr>b_flags := b_flags x OR B_BUSY\<rparr>) s)
            else Inl (Sleep (ChBuf b))
        | None \<Rightarrow>
            kbind (scan (Suc NBUF) (\<lambda>b. b_prev (bufs s b))
                     (\<lambda>b. flags_of s b AND B_BUSY = 0 \<and> flags_of s b AND B_DIRTY = 0)
                     NBUF (b_prev (bufs s NBUF)))
              (\<lambda>r. case r of
                 Some b \<Rightarrow> Inr (b, upd_buf b (\<lambda>y. y\<lparr>b_dev := d, b_sector := x, b_flags := B_BUSY\<rparr>) s)
               | None \<Rightarrow> Inl (Panic ''bget: no buffers''))) = Inr (b, t)" by blast
  show ?thesis
  proof (cases r)
    case None
    with r obtain q where "(case q of
        Some b \<Rightarrow> Inr (b, upd_buf b (\<lambda>y. y\<lparr>b_dev := d, b_sector := x, b_flags := B_BUSY\<rparr>) s)
      | None \<Rightarrow> Inl (Panic ''bget: no buffers'')) = Inr (b, t)" by (auto simp only: option.case kbind_returns)
    then show ?thesis by (cases q) auto
  next
    case (Some c)
    with r show ?thesis by (auto split: if_splits)
  qed
qed

lemma bread_fskeep:
  assumes "bread d x s = Inr (b, t)" shows "fskeep s t"
proof -
  obtain u where u: "bget d x s = Inr (b, u)" "u = t \<or> iderw b u = Inr t"
    using assms by (auto simp: bread_def kbind_returns split: if_splits)
  then show ?thesis using bget_fskeep [OF u(1)] iderw_fskeep fskeep_trans by blast
qed

lemma bwrite_fskeep: "bwrite b s = Inr t \<Longrightarrow> fskeep s t"
  by (auto simp: bwrite_def split: if_splits dest!: iderw_fskeep)

lemma brelse_fskeep: "brelse b s = Inr t \<Longrightarrow> fskeep s t"
  by (auto simp: brelse_def brelse_unlink_def brelse_push_def Let_def split: if_splits intro: fskeep_trans [OF _ wakeup_fskeep])

lemmas bio_fskeep = bread_fskeep bwrite_fskeep brelse_fskeep

lemma readsb_fskeep: "readsb d s = Inr (sb, t) \<Longrightarrow> fskeep s t"
  by (auto simp: readsb_def kres Let_def dest!: bio_fskeep; metis fskeep_trans)

lemma install_step_fskeep: "install_step i s = Inr t \<Longrightarrow> fskeep s t"
  by (auto simp: install_step_def kres Let_def dest!: bio_fskeep; metis fskeep_trans)

lemma install_trans_fskeep: "install_trans s = Inr t \<Longrightarrow> fskeep s t"
  unfolding install_trans_def by (erule kfold_invariant) (simp, metis fskeep_trans install_step_fskeep)

lemma write_head_fskeep: "write_head s = Inr t \<Longrightarrow> fskeep s t"
  by (auto simp: write_head_def kres Let_def dest!: bio_fskeep; metis fskeep_trans)

lemma begin_trans_fskeep: "begin_trans s = Inr t \<Longrightarrow> fskeep s t"
  by (auto simp: begin_trans_def split: if_splits)

lemma commit_trans_fskeep: "commit_trans s = Inr t \<Longrightarrow> fskeep s t"
  by (auto simp: commit_trans_def kres split: if_splits dest!: write_head_fskeep install_trans_fskeep
      intro!: fskeep_trans [OF _ wakeup_fskeep]; metis fskeep_trans)

lemma log_write_fskeep: "log_write b s = Inr t \<Longrightarrow> fskeep s t"
  by (auto simp: log_write_def kres Let_def split: if_splits dest!: bio_fskeep; metis fskeep_trans)

lemmas log_fskeep = bio_fskeep readsb_fskeep log_write_fskeep

lemma bfree_fskeep: "bfree d b s = Inr t \<Longrightarrow> fskeep s t"
  by (auto simp: bfree_def kres Let_def split: if_splits dest!: log_fskeep; metis fskeep_trans)

lemma iupdate_fskeep: "iupdate ip s = Inr t \<Longrightarrow> fskeep s t"
  by (auto simp: iupdate_def kres dest!: log_fskeep; metis fskeep_trans)

lemma itrunc_steps_fskeep:
  "itrunc_direct ip i s = Inr t \<Longrightarrow> fskeep s t" "itrunc_indirect ip bp i s = Inr t \<Longrightarrow> fskeep s t"
  by (auto simp: itrunc_direct_def itrunc_indirect_def set_addr_def kres split: if_splits dest!: bfree_fskeep)

lemma itrunc_folds_fskeep:
  "kfold (itrunc_direct ip) is s = Inr t \<Longrightarrow> fskeep s t" "kfold (itrunc_indirect ip bp) is s = Inr t \<Longrightarrow> fskeep s t"
  by (erule kfold_invariant, simp, metis fskeep_trans itrunc_steps_fskeep)+

lemma itrunc_fskeep: "itrunc ip s = Inr t \<Longrightarrow> fskeep s t"
  by (auto simp: itrunc_def set_addr_def kres split: if_splits
      dest!: itrunc_folds_fskeep bio_fskeep bfree_fskeep iupdate_fskeep; metis fskeep_trans)

lemma iput_fskeep: "iput ip s = Inr t \<Longrightarrow> fskeep s t"
  by (auto simp: iput_def kres split: if_splits dest!: itrunc_fskeep iupdate_fskeep
      intro!: fskeep_trans [OF _ wakeup_fskeep]; metis fskeep_trans)

lemma ilock_fskeep: "ilock ip s = Inr t \<Longrightarrow> fskeep s t"
  by (auto simp: ilock_def kres Let_def split: if_splits dest!: bio_fskeep; metis fskeep_trans)

lemma iunlock_fskeep: "iunlock ip s = Inr t \<Longrightarrow> fskeep s t"
  by (auto simp: iunlock_def split: if_splits intro!: fskeep_trans [OF _ wakeup_fskeep])

lemma fskeep_ft:
  fixes s :: "'a ft_state_scheme"
  assumes "fskeep s t" shows "ftable t = ftable s" "pipes t = pipes s" "cr3 t = cr3 s"
  using assms unfolding fskeep_def
  by (cases s rule: ft_state.cases_scheme, cases t rule: ft_state.cases_scheme,
      simp only: ft_state.select_convs fs_state.select_convs vm_state.select_convs ft_state.ext_inject vm_state.ext_inject
        cons_state.ext_inject)+
end
