(* ===== verification/Life.thy ===== *)
theory Life
  imports Frame
begin

text \<open>
  The life of a process, over the models of proc.c in Process and the frame lemmas: the
  reference counts of the file table are exactly the descriptors of all processes, \<open>fork\<close> makes
  a child that shares every open file, \<open>exit\<close> closes them all, hands the children to init and wakes
  the parent, and \<open>wait\<close> reaps a zombie child instead of sleeping.
\<close>

section \<open>Reference counts of open files\<close>

text \<open>The descriptors of a process and of all processes that refer to an open file.\<close>

definition fds :: "proc \<Rightarrow> nat \<Rightarrow> nat" where
  "fds q f = card {fd. fd < NOFILE \<and> ofile q fd = Some f}"

definition refs :: "'a proc_state_scheme \<Rightarrow> nat \<Rightarrow> nat" where
  "refs s f = (\<Sum>p<NPROC. fds (ptable s p) f)"

definition ref_inv :: "'a ft_state_scheme \<Rightarrow> bool" where
  "ref_inv s \<longleftrightarrow> (\<forall>f. f_ref (ftable s f) = int (refs s f)) \<and>
     (\<forall>p<NPROC. state (ptable s p) = UNUSED \<longrightarrow> (\<forall>fd<NOFILE. ofile (ptable s p) fd = None))"

lemma fds_none: "(\<And>fd. fd < NOFILE \<Longrightarrow> ofile q fd = None) \<Longrightarrow> fds q f = 0"
  by (simp add: fds_def)

lemma fds_set:
  assumes "fd < NOFILE" "ofile q fd = None"
  shows "fds (q\<lparr>ofile := (ofile q)(fd := Some g)\<rparr>) f = fds q f + (if f = g then 1 else 0)"
proof -
  have "{k. k < NOFILE \<and> ((ofile q)(fd := Some g)) k = Some f} =
      (if f = g then insert fd {k. k < NOFILE \<and> ofile q k = Some f} else {k. k < NOFILE \<and> ofile q k = Some f})"
    using assms by auto
  then show ?thesis using assms by (simp add: fds_def)
qed

lemma fds_clear:
  assumes "fd < NOFILE" "ofile q fd = Some g"
  shows "fds q f = fds (q\<lparr>ofile := (ofile q)(fd := None)\<rparr>) f + (if f = g then 1 else 0)"
proof -
  have "{k. k < NOFILE \<and> ofile q k = Some f} =
      (if f = g then insert fd {k. k < NOFILE \<and> ((ofile q)(fd := None)) k = Some f}
       else {k. k < NOFILE \<and> ((ofile q)(fd := None)) k = Some f})"
    using assms by auto
  then show ?thesis using assms by (simp add: fds_def)
qed

lemma refs_upd:
  assumes "p < NPROC"
  shows "refs (upd_proc p g s) f + fds (ptable s p) f = refs s f + fds (g (ptable s p)) f"
proof -
  have "(\<Sum>q<NPROC. fds (((ptable s)(p := g (ptable s p))) q) f) + fds (ptable s p) f =
      fds (g (ptable s p)) f + (\<Sum>q\<in>{..<NPROC} - {p}. fds (ptable s q) f) + fds (ptable s p) f"
    using assms by (subst sum.remove [of _ p]) (auto intro!: sum.cong)
  also have "\<dots> = fds (g (ptable s p)) f + (\<Sum>q<NPROC. fds (ptable s q) f)"
    using assms by (subst (2) sum.remove [of _ p]) auto
  finally show ?thesis by (simp add: refs_def upd_proc_def)
qed

lemma refs_cong: "(\<And>p. p < NPROC \<Longrightarrow> ofile (ptable t p) = ofile (ptable s p)) \<Longrightarrow> refs t f = refs s f"
  by (simp add: refs_def fds_def)

lemma woken_refl [simp]: "woken s s"
  by (simp add: woken_def)

lemma woken_ofile: "woken s t \<Longrightarrow> ofile (ptable t p) = ofile (ptable s p)"
  unfolding woken_def by (metis proc.select_convs(12) proc.surjective proc.update_convs(4))

lemma woken_unused: "woken s t \<Longrightarrow> state (ptable t p) = UNUSED \<longleftrightarrow> state (ptable s p) = UNUSED"
  by (drule woken_def [THEN iffD1, THEN spec, of _ _ p]) auto

lemma woken_refs: "woken s t \<Longrightarrow> refs t f = refs s f"
  by (rule refs_cong) (rule woken_ofile)

text \<open>Closing a file: one reference less, and nothing else of the tables but wakeups.\<close>

lemma pipeclose_effect:
  assumes "pipeclose a w s = Inr t"
  shows "woken s t" "cur t = cur s" "ftable t = ftable s" "initproc t = initproc s"
proof -
  let ?u = "if w then wakeup (ChPipeR a) (upd_pipe a (\<lambda>x. x\<lparr>p_writeopen := False\<rparr>) s)
            else wakeup (ChPipeW a) (upd_pipe a (\<lambda>x. x\<lparr>p_readopen := False\<rparr>) s)"
  have u: "woken s ?u" "cur ?u = cur s" "ftable ?u = ftable s" "initproc ?u = initproc s"
    by (auto simp: woken_def wakeup_def wakeup1_def upd_pipe_def)
  have "mem_only ?u t" using assms by (auto simp: pipeclose_def Let_def split: if_splits dest!: kfree_only)
  from mem_only_proc [OF this] mem_only_ft [OF this] u
  show "woken s t" "cur t = cur s" "ftable t = ftable s" "initproc t = initproc s" by (simp_all add: woken_def)
qed

lemma fileclose_effect:
  assumes "fileclose f s = Inr t"
  shows "woken s t" "cur t = cur s" "1 \<le> f_ref (ftable s f)"
    "f_ref (ftable t g) = f_ref (ftable s g) - (if g = f then 1 else 0)" "initproc t = initproc s"
proof -
  define u where "u = upd_file f (\<lambda>x. x\<lparr>f_ref := f_ref x - 1\<rparr>) s"
  define v where "v = upd_file f (\<lambda>x. x\<lparr>f_ref := 0, f_type := FD_NONE\<rparr>) u"
  have p: "ptable u = ptable s" "ptable v = ptable s" "cur u = cur s" "cur v = cur s" "initproc u = initproc s" "initproc v = initproc s" by (simp_all add: u_def v_def upd_file_def)
  show r: "1 \<le> f_ref (ftable s f)" using assms by (auto simp: fileclose_def split: if_splits)
  have fu: "f_ref (ftable u g) = f_ref (ftable s g) - (if g = f then 1 else 0)" by (simp add: u_def upd_file_def)
  have c: "t = u \<and> f_ref (ftable u f) > 0 \<or> \<not> f_ref (ftable u f) > 0 \<and>
      (t = v \<or> (\<exists>a w. pipeclose a w v = Inr t) \<or> (\<exists>i x y. begin_trans v = Inr x \<and> iput i x = Inr y \<and> commit_trans y = Inr t))"
    using assms r by (auto simp: fileclose_def Let_def u_def [symmetric] v_def [symmetric] kbind_returns
        split: if_splits fdtype.splits)
  have fv: "f_ref (ftable v g) = f_ref (ftable s g) - (if g = f then 1 else 0)" if "\<not> f_ref (ftable u f) > 0"
    using that r by (auto simp: v_def u_def upd_file_def)
  have k: "fskeep v t" if "begin_trans v = Inr x" "iput i x = Inr y" "commit_trans y = Inr t" for i x y
    using begin_trans_fskeep [OF that(1)] iput_fskeep [OF that(2)] commit_trans_fskeep [OF that(3)] by (metis fskeep_trans)
  from c have d: "t = u \<or> \<not> f_ref (ftable u f) > 0 \<and> woken v t \<and> cur t = cur v \<and> initproc t = initproc v \<and> ftable t = ftable v"
  proof (elim disjE conjE exE)
    fix i x y assume "\<not> 0 < f_ref (ftable u f)" and a: "begin_trans v = Inr x" "iput i x = Inr y" "commit_trans y = Inr t"
    then show ?thesis using fskeep_ft(1) [OF k [OF a]] k [OF a] by (simp add: fskeep_def)
  qed (auto dest: pipeclose_effect)
  show "woken s t" "cur t = cur s" "initproc t = initproc s" "f_ref (ftable t g) = f_ref (ftable s g) - (if g = f then 1 else 0)"
    using d p fu fv by (auto simp: woken_def)
qed


lemma close_fd_refs:
  assumes "close_fd p fd s = Inr t" "ref_inv s" "p < NPROC" "fd < NOFILE"
  shows "ref_inv t"
proof (cases "ofile (ptable s p) fd")
  case None
  then show ?thesis using assms by (simp add: close_fd_def)
next
  case (Some f)
  then obtain u where u: "fileclose f s = Inr u" and t: "t = upd_proc p (\<lambda>q. q\<lparr>ofile := (ofile q)(fd := None)\<rparr>) u"
    using assms(1) by (auto simp: close_fd_def kbind_returns)
  note e = fileclose_effect [OF u]
  have o: "ofile (ptable u p) fd = Some f" using woken_ofile [OF e(1)] Some by simp
  have r: "f_ref (ftable t g) = int (refs t g)" for g
  proof -
    have "refs t g + fds (ptable u p) g = refs u g + fds ((ptable u p)\<lparr>ofile := (ofile (ptable u p))(fd := None)\<rparr>) g"
      unfolding t by (rule refs_upd [OF assms(3)])
    with fds_clear [OF assms(4) o, of g] woken_refs [OF e(1), of g]
    have "refs s g = refs t g + (if g = f then 1 else 0)" by simp
    moreover have "f_ref (ftable t g) = int (refs s g) - (if g = f then 1 else 0)"
      using e(4) [of g] assms(2) by (simp add: t upd_proc_def ref_inv_def)
    ultimately show ?thesis by simp
  qed
  show ?thesis using r assms(2) woken_ofile [OF e(1)] woken_unused [OF e(1)] by (auto simp: ref_inv_def t upd_proc_def)
qed

text \<open>The loop of \<open>fork\<close> over the descriptors.\<close>

definition copied :: "nat \<Rightarrow> proc \<Rightarrow> proc \<Rightarrow> proc" where
  "copied n q c = c\<lparr>ofile := (\<lambda>fd. if fd < n \<and> ofile q fd \<noteq> None then ofile q fd else ofile c fd)\<rparr>"

lemma copied_Suc:
  "copied (Suc n) q c = (case ofile q n of None \<Rightarrow> copied n q c
     | Some g \<Rightarrow> (copied n q c)\<lparr>ofile := (ofile (copied n q c))(n := Some g)\<rparr>)"
proof -
  let ?o = "\<lambda>n fd. if fd < n \<and> ofile q fd \<noteq> None then ofile q fd else ofile c fd"
  have "?o (Suc n) = (case ofile q n of None \<Rightarrow> ?o n | Some g \<Rightarrow> (?o n)(n := Some g))"
    by (auto simp: fun_eq_iff less_Suc_eq split: option.split)
  then have "c\<lparr>ofile := ?o (Suc n)\<rparr> = c\<lparr>ofile := (case ofile q n of None \<Rightarrow> ?o n | Some g \<Rightarrow> (?o n)(n := Some g))\<rparr>"
    by (rule arg_cong)
  then show ?thesis unfolding copied_def by (cases "ofile q n") simp_all
qed

lemma dup_fds:
  assumes "p \<noteq> np" "kfold (dup_fd p np) [0..<n] s = Inr t"
  shows "\<exists>F. t = s\<lparr>ptable := (ptable s)(np := copied n (ptable s p) (ptable s np)), ftable := F\<rparr> \<and>
    (\<forall>f. F f = (ftable s f)\<lparr>f_ref := f_ref (ftable s f) + int (card {fd. fd < n \<and> ofile (ptable s p) fd = Some f})\<rparr>)"
  using assms(2)
proof (induction n arbitrary: t)
  case 0
  then show ?case by (intro exI [of _ "ftable s"]) (simp add: copied_def)
next
  case (Suc n)
  let ?C = "\<lambda>m f. {fd. fd < m \<and> ofile (ptable s p) fd = Some f}"
  obtain u where u: "kfold (dup_fd p np) [0..<n] s = Inr u" and d: "dup_fd p np n u = Inr t"
    using Suc.prems by (auto simp: kfold_append kbind_returns)
  from Suc.IH [OF u] obtain F where F: "u = s\<lparr>ptable := (ptable s)(np := copied n (ptable s p) (ptable s np)), ftable := F\<rparr>"
    "\<forall>f. F f = (ftable s f)\<lparr>f_ref := f_ref (ftable s f) + int (card (?C n f))\<rparr>" by blast
  have pu: "ptable u p = ptable s p" using assms(1) F(1) by simp
  show ?case
  proof (cases "ofile (ptable s p) n")
    case None
    then have C: "?C (Suc n) f = ?C n f" for f by (auto simp: less_Suc_eq)
    have cp: "copied (Suc n) (ptable s p) (ptable s np) = copied n (ptable s p) (ptable s np)"
      using None by (simp add: copied_Suc)
    have "t = s\<lparr>ptable := (ptable s)(np := copied n (ptable s p) (ptable s np)), ftable := F\<rparr>"
      unfolding F(1) [symmetric] using d None pu by (simp add: dup_fd_def)
    then show ?thesis unfolding C cp using F(2) by (intro exI [of _ F] conjI)
  next
    case (Some g)
    have c: "card (?C (Suc n) f) = card (?C n f) + (if f = g then 1 else 0)" for f
    proof -
      have "?C (Suc n) f = (if f = g then insert n (?C n f) else ?C n f)" using Some by (auto simp: less_Suc_eq)
      then show ?thesis by simp
    qed
    have cp: "(copied n (ptable s p) (ptable s np))\<lparr>ofile := (ofile (copied n (ptable s p) (ptable s np)))(n := Some g)\<rparr>
        = copied (Suc n) (ptable s p) (ptable s np)"
      using Some by (simp add: copied_Suc)
    obtain v where v: "filedup g u = Inr v" and t: "t = upd_proc np (\<lambda>q. q\<lparr>ofile := (ofile q)(n := Some g)\<rparr>) v"
      using d Some pu by (auto simp: dup_fd_def kbind_returns)
    have v': "v = u\<lparr>ftable := F(g := (F g)\<lparr>f_ref := f_ref (F g) + 1\<rparr>)\<rparr>"
      using v F(1) by (auto simp: filedup_def upd_file_def split: if_splits)
    show ?thesis
    proof (intro exI [of _ "F(g := (F g)\<lparr>f_ref := f_ref (F g) + 1\<rparr>)"] conjI allI)
      show "t = s\<lparr>ptable := (ptable s)(np := copied (Suc n) (ptable s p) (ptable s np)),
          ftable := F(g := (F g)\<lparr>f_ref := f_ref (F g) + 1\<rparr>)\<rparr>"
        using F(1) cp by (simp add: t v' upd_proc_def del: fun_upd_apply) (simp add: fun_upd_def)
    qed (simp add: F(2) c)
  qed
qed

section \<open>fork\<close>

lemma allocproc_effect:
  fixes s :: "'a ft_state_scheme"
  assumes "allocproc s = (r, t)"
  shows "ftable t = ftable s" "cur t = cur s" "inodes t = inodes s"
    "case r of None \<Rightarrow> \<forall>q. ptable t q = ptable s q \<or> state (ptable s q) = UNUSED \<and> state (ptable t q) = UNUSED \<and>
         ofile (ptable t q) = ofile (ptable s q)
     | Some np \<Rightarrow> np < NPROC \<and> state (ptable s np) = UNUSED \<and> (\<forall>q. q \<noteq> np \<longrightarrow> ptable t q = ptable s q) \<and>
         state (ptable t np) = EMBRYO \<and> pid (ptable t np) = nextpid s \<and> ofile (ptable t np) = ofile (ptable s np)"
proof -
  show "ftable t = ftable s" "cur t = cur s" "inodes t = inodes s"
    using assms by (auto simp: allocproc_def Let_def kalloc_def upd_proc_def split: option.splits if_splits)
  show "case r of None \<Rightarrow> \<forall>q. ptable t q = ptable s q \<or> state (ptable s q) = UNUSED \<and> state (ptable t q) = UNUSED \<and>
         ofile (ptable t q) = ofile (ptable s q)
     | Some np \<Rightarrow> np < NPROC \<and> state (ptable s np) = UNUSED \<and> (\<forall>q. q \<noteq> np \<longrightarrow> ptable t q = ptable s q) \<and>
         state (ptable t np) = EMBRYO \<and> pid (ptable t np) = nextpid s \<and> ofile (ptable t np) = ofile (ptable s np)"
    using assms by (auto simp: allocproc_def Let_def kalloc_def upd_proc_def find_upt_Some split: option.splits if_splits)
qed

text \<open>What a child has in common with its parent.\<close>

definition child_of :: "nat \<Rightarrow> proc \<Rightarrow> proc \<Rightarrow> bool" where
  "child_of p q c \<longleftrightarrow> state c = RUNNABLE \<and> parent c = Some p \<and> tf c = (tf q)\<lparr>tf_eax := 0\<rparr> \<and> sz c = sz q \<and>
     pgdir c \<noteq> 0 \<and> cwd c = cwd q \<and> (\<forall>fd<NOFILE. ofile c fd = ofile q fd)"

definition fork_failed :: "'a ft_state_scheme \<Rightarrow> 'a ft_state_scheme \<Rightarrow> bool" where
  "fork_failed s t \<longleftrightarrow> ftable t = ftable s \<and> (\<forall>q. ptable t q = ptable s q \<or>
     state (ptable s q) = UNUSED \<and> state (ptable t q) = UNUSED \<and> ofile (ptable t q) = ofile (ptable s q))"

definition forked :: "nat \<Rightarrow> nat \<Rightarrow> 'a ft_state_scheme \<Rightarrow> 'a ft_state_scheme \<Rightarrow> bool" where
  "forked p np s t \<longleftrightarrow> np < NPROC \<and> state (ptable s np) = UNUSED \<and> (\<forall>q. q \<noteq> np \<longrightarrow> ptable t q = ptable s q) \<and>
     pid (ptable t np) = nextpid s \<and> state (ptable t np) = RUNNABLE \<and> parent (ptable t np) = Some p \<and>
     tf (ptable t np) = (tf (ptable s p))\<lparr>tf_eax := 0\<rparr> \<and> sz (ptable t np) = sz (ptable s p) \<and> pgdir (ptable t np) \<noteq> 0 \<and>
     cwd (ptable t np) = cwd (ptable s p) \<and> ofile (ptable t np) = ofile (copied NOFILE (ptable s p) (ptable s np)) \<and>
     (\<forall>f. f_ref (ftable t f) = f_ref (ftable s f) + int (fds (ptable s p) f))"

lemma fork_rest_effect:
  assumes f: "fork_rest p np s = Inr (r, t)" and pn: "p \<noteq> np"
  shows "r = sint (pid (ptable s np)) \<and> (\<forall>q. q \<noteq> np \<longrightarrow> ptable t q = ptable s q) \<and>
    state (ptable t np) = RUNNABLE \<and> cwd (ptable t np) = cwd (ptable s p) \<and>
    ofile (ptable t np) = ofile (copied NOFILE (ptable s p) (ptable s np)) \<and>
    pid (ptable t np) = pid (ptable s np) \<and> parent (ptable t np) = parent (ptable s np) \<and> tf (ptable t np) = tf (ptable s np) \<and>
    sz (ptable t np) = sz (ptable s np) \<and> pgdir (ptable t np) = pgdir (ptable s np) \<and>
    (\<forall>f. f_ref (ftable t f) = f_ref (ftable s f) + int (fds (ptable s p) f))"
proof -
  obtain u where k: "kfold (dup_fd p np) [0..<NOFILE] s = Inr u" using f by (auto simp: fork_rest_def kbind_returns)
  obtain F where F: "u = s\<lparr>ptable := (ptable s)(np := copied NOFILE (ptable s p) (ptable s np)), ftable := F\<rparr>"
    "\<forall>f. F f = (ftable s f)\<lparr>f_ref := f_ref (ftable s f) + int (card {fd. fd < NOFILE \<and> ofile (ptable s p) fd = Some f})\<rparr>"
    using dup_fds [OF pn k] by blast
  have g: "(case cwd (ptable u p) of None \<Rightarrow> Inl (Overrun ''cwd'')
     | Some c \<Rightarrow>
         let (c, s) = idup c u; s = upd_proc np (\<lambda>q. q\<lparr>cwd := Some c\<rparr>) s
         in kbind (copy_npath p np s) (\<lambda>s.
            Inr (sint (pid (ptable s np)),
                 upd_proc np (\<lambda>q. q\<lparr>state := RUNNABLE, pname := safestrcpy (pname q) (pname (ptable s p)) 16\<rparr>) s))) = Inr (r, t)"
    using f [unfolded fork_rest_def k kbind_Inr] .
  show ?thesis using g F(2) pn unfolding F(1)
    by (auto simp: idup_def copy_npath_def upd_proc_def upd_inode_def kbind_returns copied_def fds_def Let_def split: option.splits)
qed

lemma fork_cases:
  assumes f: "fork s = Inr (r, t)" and c: "cur s = Some p" and u: "state (ptable s p) \<noteq> UNUSED"
  shows "r = -1 \<and> fork_failed s t \<or> r = sint (nextpid s) \<and> (\<exists>np. forked p np s t)"
proof -
  obtain a s1 where a: "allocproc s = (a, s1)" by fastforce
  note e = allocproc_effect [OF a]
  show ?thesis
  proof (cases a)
    case None
    then show ?thesis using f a e by (auto simp: fork_def fork_failed_def)
  next
    case (Some np)
    then have n: "np < NPROC" "state (ptable s np) = UNUSED" "\<forall>q. q \<noteq> np \<longrightarrow> ptable s1 q = ptable s q"
      "pid (ptable s1 np) = nextpid s" "ofile (ptable s1 np) = ofile (ptable s np)" using e(4) by auto
    have pn: "p \<noteq> np" using n(2) u by auto
    obtain d s2 where d: "copyuvm (pgdir (ptable s1 p)) (sz (ptable s1 p)) s1 = Inr (d, s2)"
      using f a Some c e(2) by (auto simp: fork_def myproc_def kbind_returns)
    note o = copyuvm_only [OF d]
    define s3 where "s3 = upd_proc np (\<lambda>q. q\<lparr>pgdir := d\<rparr>) s2"
    note fk = f [unfolded fork_def Let_def a Some prod.case option.case myproc_def e(2) c kbind_Inr d, folded s3_def]
    show ?thesis
    proof (cases "d = 0")
      case True
      obtain s4 where k: "kfree (kstack (ptable s3 np)) s3 = Inr s4"
        and t: "r = -1" "t = upd_proc np (\<lambda>q. q\<lparr>kstack := 0, state := UNUSED\<rparr>) s4"
        using fk True by (auto simp: kbind_returns)
      have "fork_failed s t"
        using n mem_only_proc(1) [OF kfree_only [OF k]] mem_only_ft(1) [OF kfree_only [OF k]] mem_only_proc(1) [OF o]
          mem_only_ft(1) [OF o] e(1)
        by (auto simp: t(2) fork_failed_def upd_proc_def s3_def)
      then show ?thesis using t by simp
    next
      case False
      have g: "fork_rest p np (upd_proc np (\<lambda>q. q\<lparr>sz := sz (ptable s3 p), parent := Some p,
          tf := (tf (ptable s3 p))\<lparr>tf_eax := 0\<rparr>\<rparr>) s3) = Inr (r, t)" using fk False by simp
      have "r = sint (nextpid s) \<and> forked p np s t"
        using fork_rest_effect [OF g pn] n pn mem_only_proc(1) [OF o] mem_only_ft(1) [OF o] e(1) False
        by (simp add: forked_def s3_def upd_proc_def copied_def cong: if_cong)
      then show ?thesis by blast
    qed
  qed
qed

lemma forked_refs:
  assumes "ref_inv s" "forked p np s t" "p < NPROC"
  shows "ref_inv t \<and> (\<forall>fd<NOFILE. ofile (ptable t np) fd = ofile (ptable s p) fd)"
proof -
  have o: "ofile (ptable t np) fd = ofile (ptable s p) fd" if "fd < NOFILE" for fd
    using assms that by (auto simp: forked_def ref_inv_def copied_def)
  have f: "fds (ptable t np) f = fds (ptable s p) f" for f
  proof -
    have "{fd. fd < NOFILE \<and> ofile (ptable t np) fd = Some f} = {fd. fd < NOFILE \<and> ofile (ptable s p) fd = Some f}"
      using o by auto
    then show ?thesis by (simp add: fds_def)
  qed
  have z: "fds (ptable s np) f = 0" for f using assms(1,2) by (intro fds_none) (auto simp: forked_def ref_inv_def)
  have n: "np < NPROC" using assms(2) by (simp add: forked_def)
  have r: "refs t f = refs s f + fds (ptable s p) f" for f
    using refs_upd [OF n, of "\<lambda>_. ptable t np" s f] f z refs_cong [of t "upd_proc np (\<lambda>_. ptable t np) s" f] assms(2)
    by (auto simp: upd_proc_def forked_def)
  have "ofile (ptable t q) fd = None" if "q < NPROC" "state (ptable t q) = UNUSED" "fd < NOFILE" for q fd
    using that assms(1,2) by (cases "q = np") (auto simp: forked_def ref_inv_def)
  then show ?thesis using assms(1,2) r o by (simp add: ref_inv_def forked_def)
qed

lemma failed_refs: "ref_inv s \<Longrightarrow> fork_failed s t \<Longrightarrow> ref_inv t"
proof -
  assume a: "ref_inv s" "fork_failed s t"
  have o: "ofile (ptable t q) = ofile (ptable s q)" "state (ptable t q) = UNUSED \<Longrightarrow> state (ptable s q) = UNUSED" for q
    using a(2) unfolding fork_failed_def by (metis, metis)
  then have "refs t f = refs s f" for f by (intro refs_cong)
  then show "ref_inv t" using a o by (auto simp: ref_inv_def fork_failed_def)
qed

section \<open>exit and wait\<close>

text \<open>Processes other than \<open>p\<close> change only by wakeups, \<open>p\<close> also in its descriptors.\<close>

definition procs_kept :: "nat \<Rightarrow> 'a proc_state_scheme \<Rightarrow> 'a proc_state_scheme \<Rightarrow> bool" where
  "procs_kept p s t \<longleftrightarrow> cur t = cur s \<and> initproc t = initproc s \<and>
     (\<forall>q. \<exists>st f. ptable t q = (ptable s q)\<lparr>state := st, ofile := f\<rparr> \<and> (q \<noteq> p \<longrightarrow> f = ofile (ptable s q)) \<and>
        (st = state (ptable s q) \<or> state (ptable s q) = SLEEPING \<and> st = RUNNABLE))"

lemma procs_kept_trans:
  assumes "procs_kept p s t" "procs_kept p t u" shows "procs_kept p s u"
proof -
  have "\<exists>st f. ptable u q = (ptable s q)\<lparr>state := st, ofile := f\<rparr> \<and> (q \<noteq> p \<longrightarrow> f = ofile (ptable s q)) \<and>
        (st = state (ptable s q) \<or> state (ptable s q) = SLEEPING \<and> st = RUNNABLE)" for q
  proof -
    obtain st f where "ptable t q = (ptable s q)\<lparr>state := st, ofile := f\<rparr>" "q \<noteq> p \<longrightarrow> f = ofile (ptable s q)"
      "st = state (ptable s q) \<or> state (ptable s q) = SLEEPING \<and> st = RUNNABLE"
      using assms(1) unfolding procs_kept_def by blast
    moreover obtain st' f' where "ptable u q = (ptable t q)\<lparr>state := st', ofile := f'\<rparr>" "q \<noteq> p \<longrightarrow> f' = ofile (ptable t q)"
      "st' = state (ptable t q) \<or> state (ptable t q) = SLEEPING \<and> st' = RUNNABLE"
      using assms(2) unfolding procs_kept_def by blast
    ultimately show ?thesis by (intro exI [of _ st'] exI [of _ f']) auto
  qed
  then show ?thesis using assms by (simp add: procs_kept_def)
qed

lemma woken_kept:
  assumes "woken s t" "cur t = cur s" "initproc t = initproc s" shows "procs_kept p s t"
proof -
  have "\<exists>st f. ptable t q = (ptable s q)\<lparr>state := st, ofile := f\<rparr> \<and> (q \<noteq> p \<longrightarrow> f = ofile (ptable s q)) \<and>
        (st = state (ptable s q) \<or> state (ptable s q) = SLEEPING \<and> st = RUNNABLE)" for q
    using assms(1) [unfolded woken_def, THEN spec, of q]
    by (intro exI [of _ "state (ptable t q)"] exI [of _ "ofile (ptable s q)"]) auto
  then show ?thesis using assms by (simp add: procs_kept_def)
qed

lemma close_fd_kept:
  assumes "close_fd p fd s = Inr t" shows "procs_kept p s t" "ofile (ptable t p) = (ofile (ptable s p))(fd := None)"
proof -
  have "procs_kept p s t \<and> ofile (ptable t p) = (ofile (ptable s p))(fd := None)"
  proof (cases "ofile (ptable s p) fd")
    case None
    then show ?thesis using assms woken_kept [of s s p] by (simp add: close_fd_def fun_upd_idem)
  next
    case (Some f)
    then obtain u where u: "fileclose f s = Inr u" and t: "t = upd_proc p (\<lambda>q. q\<lparr>ofile := (ofile q)(fd := None)\<rparr>) u"
      using assms(1) by (auto simp: close_fd_def kbind_returns)
    note e = fileclose_effect [OF u]
    have "procs_kept p u t" unfolding procs_kept_def
    proof (intro conjI allI)
      fix q show "\<exists>st f. ptable t q = (ptable u q)\<lparr>state := st, ofile := f\<rparr> \<and> (q \<noteq> p \<longrightarrow> f = ofile (ptable u q)) \<and>
        (st = state (ptable u q) \<or> state (ptable u q) = SLEEPING \<and> st = RUNNABLE)"
        by (intro exI [of _ "state (ptable u q)"] exI [of _ "ofile (ptable t q)"]) (simp add: t upd_proc_def)
    qed (simp_all add: t upd_proc_def)
    then show ?thesis using procs_kept_trans [OF woken_kept [OF e(1,2,5)]] woken_ofile [OF e(1)] by (simp add: t upd_proc_def)
  qed
  then show "procs_kept p s t" "ofile (ptable t p) = (ofile (ptable s p))(fd := None)" by simp_all
qed

lemma close_fds:
  assumes "kfold (close_fd p) [0..<n] s = Inr t" "n \<le> NOFILE" "p < NPROC" "ref_inv s"
  shows "procs_kept p s t \<and> ref_inv t \<and> (\<forall>fd<n. ofile (ptable t p) fd = None)"
  using assms(1,2)
proof (induction n arbitrary: t)
  case 0
  then show ?case using assms(4) woken_kept [of s s p] by simp
next
  case (Suc n)
  obtain u where u: "kfold (close_fd p) [0..<n] s = Inr u" and c: "close_fd p n u = Inr t"
    using Suc.prems by (auto simp: kfold_append kbind_returns)
  have i: "procs_kept p s u" "ref_inv u" "\<forall>fd<n. ofile (ptable u p) fd = None" using Suc.IH [OF u] Suc.prems(2) by auto
  show ?case using procs_kept_trans [OF i(1) close_fd_kept(1) [OF c]] close_fd_refs [OF c i(2) assms(3)] i(3) Suc.prems(2)
      close_fd_kept(2) [OF c] by (auto simp: less_Suc_eq)
qed

text \<open>The children of \<open>p\<close> among the first \<open>n\<close> slots go to init.\<close>

definition adopted :: "nat \<Rightarrow> nat \<Rightarrow> 'a proc_state_scheme \<Rightarrow> 'a proc_state_scheme \<Rightarrow> bool" where
  "adopted n p s t \<longleftrightarrow> initproc t = initproc s \<and>
     (\<forall>q. \<exists>st. ptable t q = (ptable s q)\<lparr>state := st,
          parent := (if q < n \<and> parent (ptable s q) = Some p then initproc s else parent (ptable s q))\<rparr> \<and>
        (st = state (ptable s q) \<or> state (ptable s q) = SLEEPING \<and> st = RUNNABLE))"

lemma woken_up1: "\<exists>st. ptable (wakeup1 c v) q = (ptable v q)\<lparr>state := st\<rparr> \<and>
    (st = state (ptable v q) \<or> state (ptable v q) = SLEEPING \<and> st = RUNNABLE)"
  by (cases "q < NPROC \<and> state (ptable v q) = SLEEPING \<and> chan (ptable v q) = c")
     (simp_all add: wakeup1_def exI [of _ RUNNABLE] exI [of _ "state (ptable v q)"])

lemma abandon_step:
  "\<exists>st. ptable (abandon p n u) q = (ptable u q)\<lparr>state := st, parent := (if q = n \<and> parent (ptable u n) = Some p then initproc u
      else parent (ptable u q))\<rparr> \<and> (st = state (ptable u q) \<or> state (ptable u q) = SLEEPING \<and> st = RUNNABLE)"
proof (cases "parent (ptable u n) = Some p")
  case False
  then show ?thesis by (intro exI [of _ "state (ptable u q)"]) (simp add: abandon_def)
next
  case True
  let ?v = "upd_proc n (\<lambda>q. q\<lparr>parent := initproc u\<rparr>) u"
  have v: "ptable ?v q = (ptable u q)\<lparr>parent := (if q = n then initproc u else parent (ptable u q))\<rparr>" by (simp add: upd_proc_def)
  have a: "abandon p n u = (if state (ptable ?v n) = ZOMBIE then wakeup1 (map_option ChProc (initproc ?v)) ?v else ?v)"
    using True by (simp add: abandon_def Let_def)
  obtain st where st: "ptable (abandon p n u) q = (ptable ?v q)\<lparr>state := st\<rparr>"
    "st = state (ptable ?v q) \<or> state (ptable ?v q) = SLEEPING \<and> st = RUNNABLE"
  proof (cases "state (ptable ?v n) = ZOMBIE")
    case True
    then have a': "abandon p n u = wakeup1 (map_option ChProc (initproc ?v)) ?v" using a by simp
    show ?thesis using woken_up1 [of "map_option ChProc (initproc ?v)" ?v q] unfolding a' [symmetric]
      by (elim exE conjE) (rule that)
  next
    case False
    then have "abandon p n u = ?v" using a by simp
    then show ?thesis using that [of "state (ptable ?v q)"] by simp
  qed
  then show ?thesis using True unfolding v by (intro exI [of _ st]) simp
qed

lemma abandon_init: "initproc (abandon p n u) = initproc u"
  by (simp add: abandon_def Let_def upd_proc_def wakeup1_def)

lemma abandon_all: "adopted n p s (fold (abandon p) [0..<n] s)"
proof (induction n)
  case 0
  have "\<exists>st. ptable s q = (ptable s q)\<lparr>state := st, parent := parent (ptable s q)\<rparr> \<and>
      (st = state (ptable s q) \<or> state (ptable s q) = SLEEPING \<and> st = RUNNABLE)" for q
    by (intro exI [of _ "state (ptable s q)"]) simp
  then show ?case by (simp add: adopted_def)
next
  case (Suc n)
  let ?u = "fold (abandon p) [0..<n] s" and ?t = "fold (abandon p) [0..<Suc n] s"
  have t: "?t = abandon p n ?u" by simp
  have "\<exists>st. ptable ?t q = (ptable s q)\<lparr>state := st,
          parent := (if q < Suc n \<and> parent (ptable s q) = Some p then initproc s else parent (ptable s q))\<rparr> \<and>
        (st = state (ptable s q) \<or> state (ptable s q) = SLEEPING \<and> st = RUNNABLE)" for q
  proof -
    obtain st where st: "ptable ?u q = (ptable s q)\<lparr>state := st,
          parent := (if q < n \<and> parent (ptable s q) = Some p then initproc s else parent (ptable s q))\<rparr>"
      "st = state (ptable s q) \<or> state (ptable s q) = SLEEPING \<and> st = RUNNABLE"
      using Suc unfolding adopted_def by blast
    have i: "initproc ?u = initproc s" using Suc by (simp add: adopted_def)
    obtain st' where "ptable ?t q = (ptable ?u q)\<lparr>state := st', parent := (if q = n \<and> parent (ptable ?u n) = Some p then initproc s
        else parent (ptable ?u q))\<rparr>" "st' = state (ptable ?u q) \<or> state (ptable ?u q) = SLEEPING \<and> st' = RUNNABLE"
      using abandon_step [of p n ?u q] unfolding t i by blast
    moreover have "q < Suc n \<longleftrightarrow> q < n \<or> q = n" by auto
    ultimately show ?thesis using st by (intro exI [of _ st']) (cases "q = n"; auto)
  qed
  moreover have "initproc ?t = initproc s" using Suc unfolding t by (simp only: adopted_def abandon_init)
  ultimately show ?case unfolding adopted_def by blast
qed

text \<open>What \<open>exit_last\<close> does to the others: wakeups, and the children of \<open>p\<close> go to init.\<close>

lemma exit_last_effect:
  "state (ptable (exit_last p s) p) = ZOMBIE" "pid (ptable (exit_last p s) p) = pid (ptable s p)"
  "ofile (ptable (exit_last p s) q) = ofile (ptable s q)"
  "parent (ptable (exit_last p s) q) = (if q < NPROC \<and> parent (ptable s q) = Some p then initproc s else parent (ptable s q))"
  "q \<noteq> p \<Longrightarrow> state (ptable (exit_last p s) q) = state (ptable s q) \<or>
     state (ptable s q) = SLEEPING \<and> state (ptable (exit_last p s) q) = RUNNABLE"
  "q \<noteq> p \<Longrightarrow> q < NPROC \<Longrightarrow> parent (ptable s p) = Some q \<Longrightarrow> chan (ptable s q) = Some (ChProc q) \<Longrightarrow>
     state (ptable (exit_last p s) q) \<noteq> SLEEPING"
proof -
  define u where "u = upd_proc p (\<lambda>q. q\<lparr>cwd := None, npath := (npath q)(0 := 0)\<rparr>) s"
  define c where "c = map_option ChProc (parent (ptable u p))"
  define v where "v = wakeup1 c u"
  define w where "w = fold (abandon p) [0..<NPROC] v"
  have x: "exit_last p s = upd_proc p (\<lambda>q. q\<lparr>state := ZOMBIE\<rparr>) w"
    by (simp add: exit_last_def Let_def u_def v_def w_def c_def)
  have uf: "pid (ptable u q) = pid (ptable s q)" "ofile (ptable u q) = ofile (ptable s q)" "parent (ptable u q) = parent (ptable s q)"
    "state (ptable u q) = state (ptable s q)" "chan (ptable u q) = chan (ptable s q)" "initproc v = initproc s" for q
    by (simp_all add: u_def upd_proc_def v_def wakeup1_def)
  have v: "\<exists>st. ptable v q = (ptable u q)\<lparr>state := st\<rparr> \<and> (st = state (ptable u q) \<or> state (ptable u q) = SLEEPING \<and> st = RUNNABLE)" for q
    unfolding v_def by (rule woken_up1)
  have w: "\<exists>st. ptable w q = (ptable v q)\<lparr>state := st,
          parent := (if q < NPROC \<and> parent (ptable v q) = Some p then initproc v else parent (ptable v q))\<rparr> \<and>
        (st = state (ptable v q) \<or> state (ptable v q) = SLEEPING \<and> st = RUNNABLE)" for q
    using abandon_all [of NPROC p v] unfolding adopted_def w_def by blast
  have vw: "pid (ptable w q) = pid (ptable s q)" "ofile (ptable w q) = ofile (ptable s q)"
    "parent (ptable w q) = (if q < NPROC \<and> parent (ptable s q) = Some p then initproc s else parent (ptable s q))"
    "state (ptable w q) = state (ptable s q) \<or> state (ptable s q) = SLEEPING \<and> state (ptable w q) = RUNNABLE"
    "state (ptable v q) \<noteq> SLEEPING \<Longrightarrow> state (ptable w q) \<noteq> SLEEPING" for q
  proof -
    obtain a where a: "ptable v q = (ptable u q)\<lparr>state := a\<rparr>" "a = state (ptable u q) \<or> state (ptable u q) = SLEEPING \<and> a = RUNNABLE"
      using v [of q] by blast
    obtain b where b: "ptable w q = (ptable v q)\<lparr>state := b,
          parent := (if q < NPROC \<and> parent (ptable v q) = Some p then initproc v else parent (ptable v q))\<rparr>"
        "b = state (ptable v q) \<or> state (ptable v q) = SLEEPING \<and> b = RUNNABLE" using w [of q] by blast
    show "pid (ptable w q) = pid (ptable s q)" "ofile (ptable w q) = ofile (ptable s q)"
      "parent (ptable w q) = (if q < NPROC \<and> parent (ptable s q) = Some p then initproc s else parent (ptable s q))"
      using a(1) b(1) uf by simp_all
    show "state (ptable w q) = state (ptable s q) \<or> state (ptable s q) = SLEEPING \<and> state (ptable w q) = RUNNABLE"
      using a b(2) uf(4) [of q] unfolding b(1) by (elim disjE conjE) simp_all
    show "state (ptable v q) \<noteq> SLEEPING \<Longrightarrow> state (ptable w q) \<noteq> SLEEPING" using b(2) unfolding b(1) by auto
  qed
  show "state (ptable (exit_last p s) p) = ZOMBIE" "pid (ptable (exit_last p s) p) = pid (ptable s p)"
    "ofile (ptable (exit_last p s) q) = ofile (ptable s q)"
    "parent (ptable (exit_last p s) q) = (if q < NPROC \<and> parent (ptable s q) = Some p then initproc s else parent (ptable s q))"
    "q \<noteq> p \<Longrightarrow> state (ptable (exit_last p s) q) = state (ptable s q) \<or>
       state (ptable s q) = SLEEPING \<and> state (ptable (exit_last p s) q) = RUNNABLE"
    using vw by (simp_all add: x upd_proc_def)
  assume a: "q \<noteq> p" "q < NPROC" "parent (ptable s p) = Some q" "chan (ptable s q) = Some (ChProc q)"
  then have "state (ptable v q) \<noteq> SLEEPING" using uf by (auto simp: v_def wakeup1_def c_def)
  then show "state (ptable (exit_last p s) q) \<noteq> SLEEPING" using vw(5) a(1) by (simp add: x upd_proc_def)
qed

lemma exit_last_ftable: "ftable (exit_last p s) = ftable s"
proof -
  have "ftable (fold (abandon p) xs u) = ftable u" for xs and u :: "'a ft_state_scheme"
    by (induction xs arbitrary: u) (simp_all add: abandon_def Let_def upd_proc_def wakeup1_def)
  then show ?thesis by (simp add: exit_last_def Let_def upd_proc_def wakeup1_def)
qed

lemma exit_last_refs:
  assumes "ref_inv s" "state (ptable s p) \<noteq> UNUSED"
  shows "ref_inv (exit_last p s)"
proof -
  note e = exit_last_effect [where p = p and s = s]
  have u: "state (ptable (exit_last p s) q) = UNUSED \<Longrightarrow> state (ptable s q) = UNUSED" for q
    using e(1) e(5) [of q] by (cases "q = p") auto
  have f: "ftable (exit_last p s) = ftable s" by (simp add: exit_last_ftable)
  have "refs (exit_last p s) g = refs s g" for g by (rule refs_cong) (simp add: e(3))
  then show ?thesis using assms(1) u f e(3) by (simp add: ref_inv_def)
qed

lemma exit_effect:
  assumes "exit s = Inr t" "cur s = Some p" "p < NPROC" "ref_inv s"
  obtains v where "procs_kept p s v" "ref_inv v" "\<forall>fd<NOFILE. ofile (ptable v p) fd = None" "t = exit_last p v" "initproc s \<noteq> Some p"
proof -
  obtain u v c where u: "kfold (close_fd p) [0..<NOFILE] s = Inr u" and i: "iput c u = Inr v" and t: "t = exit_last p v"
    and n: "initproc s \<noteq> Some p"
    using assms(1,2) by (auto simp: exit_def myproc_def kbind_returns split: if_splits option.splits)
  have k: "procs_kept p s u" "ref_inv u" "\<forall>fd<NOFILE. ofile (ptable u p) fd = None"
    using close_fds [OF u order_refl assms(3,4)] by auto
  have f: "woken u v" "cur v = cur u" "initproc v = initproc u" "ftable v = ftable u"
    using iput_fskeep [OF i] fskeep_ft(1) [OF iput_fskeep [OF i]] by (simp_all add: fskeep_def)
  show ?thesis
  proof (rule that)
    show "procs_kept p s v" by (rule procs_kept_trans [OF k(1) woken_kept [OF f(1-3)]])
    show "ref_inv v" using k(2) f(4) woken_refs [OF f(1)] woken_unused [OF f(1)] woken_ofile [OF f(1)] by (simp add: ref_inv_def)
    show "\<forall>fd<NOFILE. ofile (ptable v p) fd = None" using k(3) woken_ofile [OF f(1)] by simp
  qed (use t n in simp_all)
qed

lemma kept_fields:
  assumes "procs_kept p s t"
  shows "parent (ptable t q) = parent (ptable s q)" "pid (ptable t q) = pid (ptable s q)" "chan (ptable t q) = chan (ptable s q)"
    "initproc t = initproc s" "state (ptable t q) = state (ptable s q) \<or> state (ptable s q) = SLEEPING \<and> state (ptable t q) = RUNNABLE"
proof -
  obtain st f where "ptable t q = (ptable s q)\<lparr>state := st, ofile := f\<rparr>"
    "st = state (ptable s q) \<or> state (ptable s q) = SLEEPING \<and> st = RUNNABLE" using assms unfolding procs_kept_def by blast
  then show "parent (ptable t q) = parent (ptable s q)" "pid (ptable t q) = pid (ptable s q)" "chan (ptable t q) = chan (ptable s q)"
    "state (ptable t q) = state (ptable s q) \<or> state (ptable s q) = SLEEPING \<and> state (ptable t q) = RUNNABLE" by auto
  show "initproc t = initproc s" using assms by (simp add: procs_kept_def)
qed

text \<open>Freeing memory panics or returns, but does not sleep.\<close>

lemma kfree_no_sleep: "kfree v s \<noteq> Inl (Sleep c)"
  by (simp add: kfree_def Let_def)

lemma deallocuvm_from_no_sleep: "deallocuvm_from dir a oldsz s \<noteq> Inl (Sleep c)"
proof (induction "oldsz - a" arbitrary: a s rule: less_induct)
  case less
  obtain p u where w: "walkpgdir dir (of_nat a) False s = (p, u)" by fastforce
  have ih: "deallocuvm_from dir (a + n) oldsz v \<noteq> Inl (Sleep c)" if "0 < n" "a < oldsz" for n and v :: "'a kmem_state_scheme"
    using less [of "a + n" v] that by simp
  have n: "0 < unat PGSIZE" "0 < unat ((NPTENTRIES - 1) * PGSIZE) + unat PGSIZE" by (simp_all add: PGSIZE_def)
  show ?case using ih [OF n(1)] ih [OF n(2)]
    by (subst deallocuvm_from.simps) (auto simp: Let_def w kbind_stops add.assoc kfree_no_sleep)
qed

lemma freevm_no_sleep: "freevm dir s \<noteq> Inl (Sleep c)"
proof -
  have f: "kfold (free_table dir) js u \<noteq> Inl (Sleep c)" for js and u :: "'a kmem_state_scheme"
    by (induction js arbitrary: u) (auto simp: kbind_stops free_table_def Let_def kfree_no_sleep)
  show ?thesis
    by (auto simp: freevm_def deallocuvm_def kbind_stops kbind_assoc deallocuvm_from_no_sleep f kfree_no_sleep split: if_splits)
qed

lemma wait_reaps:
  assumes c: "cur s = Some q" and z: "z < NPROC" "parent (ptable s z) = Some q" "state (ptable s z) = ZOMBIE"
  shows "wait s \<noteq> Inl (Sleep ch)" "wait s = Inr (r, t) \<Longrightarrow> \<exists>k<NPROC. parent (ptable s k) = Some q \<and>
    state (ptable s k) = ZOMBIE \<and> r = sint (pid (ptable s k)) \<and> state (ptable t k) = UNUSED \<and> pid (ptable t k) = 0 \<and>
    (\<forall>j. j \<noteq> k \<longrightarrow> ptable t j = ptable s j)"
proof -
  let ?P = "\<lambda>p. parent (ptable s p) = Some q \<and> state (ptable s p) = ZOMBIE"
  have "List.find ?P [0..<NPROC] \<noteq> None" using z by (auto simp: find_None_iff)
  then obtain k where f: "List.find ?P [0..<NPROC] = Some k" by blast
  then have k: "k < NPROC" "?P k" by (auto simp: find_upt_Some)
  have w: "wait s = kbind (kfree (kstack (ptable s k)) s) (\<lambda>s.
      kbind (freevm (pgdir (ptable s k)) (upd_proc k (\<lambda>q. q\<lparr>kstack := 0\<rparr>) s)) (\<lambda>s.
      Inr (sint (pid (ptable s k)),
           upd_proc k (\<lambda>q. q\<lparr>state := UNUSED, pid := 0, parent := None, pname := (pname q)(0 := 0), killed := False\<rparr>) s)))"
    by (simp add: wait_def myproc_def c f)
  show "wait s \<noteq> Inl (Sleep ch)" unfolding w by (auto simp: kbind_stops kfree_no_sleep freevm_no_sleep)
  assume "wait s = Inr (r, t)"
  then obtain u v where u: "kfree (kstack (ptable s k)) s = Inr u"
    and v: "freevm (pgdir (ptable u k)) (upd_proc k (\<lambda>q. q\<lparr>kstack := 0\<rparr>) u) = Inr v"
    and t: "r = sint (pid (ptable v k))"
      "t = upd_proc k (\<lambda>q. q\<lparr>state := UNUSED, pid := 0, parent := None, pname := (pname q)(0 := 0), killed := False\<rparr>) v"
    unfolding w by (auto simp: kbind_returns)
  have "ptable v = (ptable s)(k := (ptable s k)\<lparr>kstack := 0\<rparr>)"
    using mem_only_proc(1) [OF freevm_only [OF v]] mem_only_proc(1) [OF kfree_only [OF u]] by (simp add: upd_proc_def)
  then show "\<exists>k<NPROC. parent (ptable s k) = Some q \<and>
    state (ptable s k) = ZOMBIE \<and> r = sint (pid (ptable s k)) \<and> state (ptable t k) = UNUSED \<and> pid (ptable t k) = 0 \<and>
    (\<forall>j. j \<noteq> k \<longrightarrow> ptable t j = ptable s j)"
    using k t by (intro exI [of _ k]) (simp add: upd_proc_def)
qed

section \<open>The life of a process\<close>

text \<open>Init asleep in \<open>wait\<close>, and a child of it running, with no page left to allocate.\<close>

definition ex_life :: ft_state where
  "ex_life = (ex_ft (\<lambda>_. ex_file_rec) ())\<lparr>
     ptable := (\<lambda>p. if p = 0 then ex_proc\<lparr>state := SLEEPING, chan := Some (ChProc 0), pid := 1, cwd := Some 0\<rparr>
       else if p = 1 then ex_proc\<lparr>state := RUNNING, pid := 2, parent := Some 0, cwd := Some 0\<rparr> else ex_proc),
     nextpid := 3, initproc := Some 0, cur := Some 1, freelist := 0,
     inodes := (\<lambda>_. ex_dir_inode\<lparr>i_ref := 3\<rparr>)\<rparr>"

lemma ex_life_ok: "ref_inv ex_life" "cur ex_life = Some 1" "state (ptable ex_life 1) = RUNNING" "initproc ex_life = Some 0"
  "parent (ptable ex_life 1) = Some 0" "chan (ptable ex_life 0) = Some (ChProc 0)"
  by (simp_all add: ref_inv_def refs_def fds_none ex_life_def ex_proc_def ex_ft_fields ex_file_rec_def)




text \<open>
  C7: A process that has run \<open>exit\<close> is a zombie with no open file, the reference counts of the open files
  stay exact, its children belong to init, nobody else changes state except by being woken, and a parent
  asleep in \<open>wait\<close> is woken.
\<close>

theorem exit_zombie:
  assumes "exit s = Inr t" "cur s = Some p" "p < NPROC" "state (ptable s p) = RUNNING" "ref_inv s"
  shows "state (ptable t p) = ZOMBIE \<and> pid (ptable t p) = pid (ptable s p) \<and>
    (\<forall>fd<NOFILE. ofile (ptable t p) fd = None) \<and> ref_inv t \<and> initproc s \<noteq> Some p \<and>
    (\<forall>q<NPROC. parent (ptable s q) = Some p \<longrightarrow> parent (ptable t q) = initproc s) \<and>
    (\<forall>q. q \<noteq> p \<longrightarrow> state (ptable t q) = state (ptable s q) \<or>
       state (ptable s q) = SLEEPING \<and> state (ptable t q) = RUNNABLE) \<and>
    (\<forall>q<NPROC. q \<noteq> p \<longrightarrow> parent (ptable s p) = Some q \<longrightarrow> chan (ptable s q) = Some (ChProc q) \<longrightarrow>
       state (ptable t q) \<noteq> SLEEPING)"
proof -
  obtain v where v: "procs_kept p s v" "ref_inv v" "\<forall>fd<NOFILE. ofile (ptable v p) fd = None" "t = exit_last p v" "initproc s \<noteq> Some p"
    using exit_effect [OF assms(1,2,3,5)] .
  note k = kept_fields [OF v(1)] and e = exit_last_effect
  have "state (ptable v p) \<noteq> UNUSED" using k(5) [of p] assms(4) by auto
  then have r: "ref_inv t" unfolding v(4) by (rule exit_last_refs [OF v(2)])
  have st: "state (ptable t q) = state (ptable s q) \<or> state (ptable s q) = SLEEPING \<and> state (ptable t q) = RUNNABLE" if "q \<noteq> p" for q
    using e(5) [OF that, where s = v] k(5) [of q] unfolding v(4) by auto
  show ?thesis using r st v(3,5) k(1,2,3,4) e(1,2,3,4,6) [where p = p and s = v] unfolding v(4) by simp
qed


lemma ex_life_exit: "\<exists>t. exit ex_life = Inr t"
proof -
  have "kfold (close_fd 1) xs ex_life = Inr ex_life" for xs
    by (induction xs) (simp_all add: close_fd_def ex_life_def ex_proc_def)
  then show ?thesis
    by (simp add: exit_def myproc_def ex_life_ok) (simp add: ex_life_def ex_proc_def iput_def)
qed

theorem exit_zombie_witness: "\<exists>t. exit ex_life = Inr t \<and> state (ptable t 1) = ZOMBIE \<and> state (ptable t 0) \<noteq> SLEEPING"
proof -
  obtain t where t: "exit ex_life = Inr t" using ex_life_exit by blast
  show ?thesis using exit_zombie [OF t ex_life_ok(2) _ ex_life_ok(3,1)] t ex_life_ok by (simp add: NPROC_def)
qed


end
