(* ===== verification/Spinlock.thy ===== *)
theory Spinlock
  imports Prelude
begin

text \<open>
  Spin locks (spinlock.c, spinlock.h) on a machine with several CPUs. A step is one access to shared
  memory or one local action; the accesses of different CPUs interleave in any order. A CPU that
  calls \<open>acquire\<close> or \<open>release\<close> goes through the positions of the code one by one.
\<close>

section \<open>Data\<close>

record spinlock =
  locked :: u32
  lk_cpu :: "nat option"     \<comment> \<open>the CPU that holds the lock, for \<open>holding\<close>\<close>

record cpu =
  ncli :: int
  intena :: bool
  iflag :: bool              \<comment> \<open>\<open>FL_IF\<close> in the flags of the processor\<close>

text \<open>The positions of a CPU in the code of the two functions, and the end in a panic.\<close>

datatype lpc =
    Out
  | Acq_push nat | Acq_locked nat | Acq_cpu nat | Acq_xchg nat | Acq_set nat
  | Rel_locked nat | Rel_cpu nat | Rel_clear nat | Rel_xchg nat | Rel_pop
  | Panicked string

record lock_state =
  locks :: "nat \<Rightarrow> spinlock"
  cpus :: "nat \<Rightarrow> cpu"
  pc :: "nat \<Rightarrow> lpc"
  held :: "nat \<Rightarrow> nat list"     \<comment> \<open>the locks a CPU has acquired and not yet begun to release\<close>

section \<open>The code\<close>

definition initlock :: "spinlock" where
  "initlock = \<lparr>locked = 0, lk_cpu = None\<rparr>"

definition pushcli :: "cpu \<Rightarrow> cpu" where
  "pushcli k = k\<lparr>iflag := False, intena := (if ncli k = 0 then iflag k else intena k), ncli := ncli k + 1\<rparr>"

definition popcli :: "cpu \<Rightarrow> string + cpu" where
  "popcli k =
     (if iflag k then Inl ''popcli - interruptible''
      else if ncli k - 1 < 0 then Inl ''popcli''
      else Inr (k\<lparr>ncli := ncli k - 1, iflag := (ncli k - 1 = 0 \<and> intena k)\<rparr>))"

definition goto :: "nat \<Rightarrow> lpc \<Rightarrow> lock_state \<Rightarrow> lock_state" where
  "goto c q s = s\<lparr>pc := (pc s)(c := q)\<rparr>"

definition upd_lock :: "nat \<Rightarrow> (spinlock \<Rightarrow> spinlock) \<Rightarrow> lock_state \<Rightarrow> lock_state" where
  "upd_lock l f s = s\<lparr>locks := (locks s)(l := f (locks s l))\<rparr>"

definition upd_cpu :: "nat \<Rightarrow> cpu \<Rightarrow> lock_state \<Rightarrow> lock_state" where
  "upd_cpu c k s = s\<lparr>cpus := (cpus s)(c := k)\<rparr>"

text \<open>
  The next step of CPU \<open>c\<close> in \<open>acquire\<close>: \<open>holding\<close> reads the two fields of the lock one after the other,
  and the atomic exchange is repeated until it finds the lock free.
\<close>

fun acquire_step :: "nat \<Rightarrow> lpc \<Rightarrow> lock_state \<Rightarrow> lock_state" where
  "acquire_step c (Acq_push l) s = goto c (Acq_locked l) (upd_cpu c (pushcli (cpus s c)) s)"
| "acquire_step c (Acq_locked l) s = goto c (if locked (locks s l) \<noteq> 0 then Acq_cpu l else Acq_xchg l) s"
| "acquire_step c (Acq_cpu l) s = goto c (if lk_cpu (locks s l) = Some c then Panicked ''acquire'' else Acq_xchg l) s"
| "acquire_step c (Acq_xchg l) s =
     (let old = locked (locks s l); s = upd_lock l (\<lambda>k. k\<lparr>locked := 1\<rparr>) s
      in if old \<noteq> 0 then s else goto c (Acq_set l) s)"
| "acquire_step c (Acq_set l) s =
     (let s = goto c Out (upd_lock l (\<lambda>k. k\<lparr>lk_cpu := Some c\<rparr>) s) in s\<lparr>held := (held s)(c := l # held s c)\<rparr>)"
| "acquire_step c _ s = s"

text \<open>The next step of CPU \<open>c\<close> in \<open>release\<close>.\<close>

fun release_step :: "nat \<Rightarrow> lpc \<Rightarrow> lock_state \<Rightarrow> lock_state" where
  "release_step c (Rel_locked l) s = goto c (if locked (locks s l) \<noteq> 0 then Rel_cpu l else Panicked ''release'') s"
| "release_step c (Rel_cpu l) s = goto c (if lk_cpu (locks s l) = Some c then Rel_clear l else Panicked ''release'') s"
| "release_step c (Rel_clear l) s = goto c (Rel_xchg l) (upd_lock l (\<lambda>k. k\<lparr>lk_cpu := None\<rparr>) s)"
| "release_step c (Rel_xchg l) s = goto c Rel_pop (upd_lock l (\<lambda>k. k\<lparr>locked := 0\<rparr>) s)"
| "release_step c Rel_pop s =
     (case popcli (cpus s c) of Inl m \<Rightarrow> goto c (Panicked m) s | Inr k \<Rightarrow> goto c Out (upd_cpu c k s))"
| "release_step c _ s = s"

text \<open>
  The machine: a CPU between calls may acquire any lock it does not hold and release any lock it
  holds; otherwise it goes on with the call it is in.
\<close>

inductive lock_step :: "lock_state \<Rightarrow> lock_state \<Rightarrow> bool" where
  call_acquire: "pc s c = Out \<Longrightarrow> l \<notin> set (held s c) \<Longrightarrow> lock_step s (goto c (Acq_push l) s)"
| call_release: "pc s c = Out \<Longrightarrow> l \<in> set (held s c) \<Longrightarrow>
    lock_step s ((goto c (Rel_locked l) s)\<lparr>held := (held s)(c := remove1 l (held s c))\<rparr>)"
| in_acquire: "lock_step s (acquire_step c (pc s c) s)"
| in_release: "lock_step s (release_step c (pc s c) s)"

text \<open>The state after the initialisation of the locks: CPU \<open>c\<close> has interrupts on if \<open>F c\<close> and holds nothing.\<close>

definition lock_start :: "(nat \<Rightarrow> bool) \<Rightarrow> lock_state \<Rightarrow> bool" where
  "lock_start F s \<longleftrightarrow> (\<forall>l. locks s l = initlock) \<and>
     (\<forall>c. pc s c = Out \<and> held s c = [] \<and> ncli (cpus s c) = 0 \<and> iflag (cpus s c) = F c)"

inductive lock_reachable :: "(nat \<Rightarrow> bool) \<Rightarrow> lock_state \<Rightarrow> bool" for F where
  start: "lock_start F s \<Longrightarrow> lock_reachable F s"
| step: "lock_reachable F s \<Longrightarrow> lock_step s t \<Longrightarrow> lock_reachable F t"

section \<open>Mutual exclusion\<close>

text \<open>The CPU is past the exchange that took the lock, and before the one that frees it.\<close>

definition owns :: "lock_state \<Rightarrow> nat \<Rightarrow> nat \<Rightarrow> bool" where
  "owns s c l \<longleftrightarrow> l \<in> set (held s c) \<or> pc s c \<in> {Acq_set l, Rel_locked l, Rel_cpu l, Rel_clear l, Rel_xchg l}"

text \<open>The lock names the CPU that owns it.\<close>

definition named :: "lock_state \<Rightarrow> nat \<Rightarrow> nat \<Rightarrow> bool" where
  "named s c l \<longleftrightarrow> l \<in> set (held s c) \<or> pc s c \<in> {Rel_locked l, Rel_cpu l, Rel_clear l}"

text \<open>The lock a call in progress has already disabled interrupts for.\<close>

fun pending :: "lpc \<Rightarrow> nat" where
  "pending Out = 0"
| "pending (Acq_push l) = 0"
| "pending (Panicked m) = 0"
| "pending _ = 1"

fun acquiring :: "lpc \<Rightarrow> nat \<Rightarrow> bool" where
  "acquiring (Acq_push l) k \<longleftrightarrow> k = l"
| "acquiring (Acq_locked l) k \<longleftrightarrow> k = l"
| "acquiring (Acq_cpu l) k \<longleftrightarrow> k = l"
| "acquiring (Acq_xchg l) k \<longleftrightarrow> k = l"
| "acquiring (Acq_set l) k \<longleftrightarrow> k = l"
| "acquiring _ k \<longleftrightarrow> False"

fun releasing :: "lpc \<Rightarrow> nat \<Rightarrow> bool" where
  "releasing (Rel_locked l) k \<longleftrightarrow> k = l"
| "releasing (Rel_cpu l) k \<longleftrightarrow> k = l"
| "releasing (Rel_clear l) k \<longleftrightarrow> k = l"
| "releasing (Rel_xchg l) k \<longleftrightarrow> k = l"
| "releasing _ k \<longleftrightarrow> False"

definition cpu_inv :: "(nat \<Rightarrow> bool) \<Rightarrow> lock_state \<Rightarrow> nat \<Rightarrow> bool" where
  "cpu_inv F s c \<longleftrightarrow>
     distinct (held s c) \<and> (\<forall>l. acquiring (pc s c) l \<or> releasing (pc s c) l \<longrightarrow> l \<notin> set (held s c)) \<and>
     (\<forall>m. pc s c \<noteq> Panicked m) \<and>
     ncli (cpus s c) = int (length (held s c) + pending (pc s c)) \<and>
     (if ncli (cpus s c) = 0 then iflag (cpus s c) = F c else \<not> iflag (cpus s c) \<and> intena (cpus s c) = F c)"

definition lock_inv :: "lock_state \<Rightarrow> nat \<Rightarrow> bool" where
  "lock_inv s l \<longleftrightarrow>
     (locked (locks s l) \<noteq> 0 \<longleftrightarrow> (\<exists>c. owns s c l)) \<and>
     (\<forall>c d. owns s c l \<longrightarrow> owns s d l \<longrightarrow> c = d) \<and>
     (\<forall>c. lk_cpu (locks s l) = Some c \<longleftrightarrow> named s c l)"

lemmas lock_defs = goto_def upd_lock_def upd_cpu_def owns_def named_def

definition machine_inv :: "(nat \<Rightarrow> bool) \<Rightarrow> lock_state \<Rightarrow> bool" where
  "machine_inv F s \<longleftrightarrow> (\<forall>c. cpu_inv F s c) \<and> (\<forall>l. lock_inv s l)"

lemma start_inv: "lock_start F s \<Longrightarrow> machine_inv F s"
  by (simp add: machine_inv_def lock_start_def cpu_inv_def lock_inv_def lock_defs initlock_def)

lemma machine_invD:
  assumes "machine_inv F s" shows "cpu_inv F s c" "lock_inv s l"
  using assms by (simp_all add: machine_inv_def)

text \<open>What a CPU does to itself: the invariant of the others is untouched.\<close>

lemma acquire_cpu_inv:
  assumes "machine_inv F s" shows "cpu_inv F (acquire_step c (pc s c) s) d"
proof (cases "d = c")
  case False
  then show ?thesis using machine_invD(1) [OF assms, of d]
    by (cases "pc s c") (simp_all add: cpu_inv_def lock_defs Let_def)
next
  case True
  note i = machine_invD(1) [OF assms, of c]
  show ?thesis
  proof (cases "pc s c")
    case (Acq_cpu l)
    then have "l \<notin> set (held s c)" using i by (simp add: cpu_inv_def)
    then have "\<not> named s c l" using Acq_cpu by (simp add: named_def)
    then have "lk_cpu (locks s l) \<noteq> Some c" using machine_invD(2) [OF assms, of l] by (simp add: lock_inv_def)
    then show ?thesis using True i Acq_cpu by (simp add: cpu_inv_def lock_defs)
  qed (use True i in \<open>simp_all add: cpu_inv_def lock_defs Let_def pushcli_def\<close>)
qed

lemma release_cpu_inv:
  assumes "machine_inv F s" shows "cpu_inv F (release_step c (pc s c) s) d"
proof (cases "d = c")
  case False
  then show ?thesis using machine_invD(1) [OF assms, of d]
    by (cases "pc s c") (simp_all add: cpu_inv_def lock_defs Let_def split: sum.split)
next
  case True
  note i = machine_invD(1) [OF assms, of c]
  show ?thesis
  proof (cases "pc s c")
    case (Rel_locked l)
    then have "owns s c l" by (simp add: owns_def)
    then have "locked (locks s l) \<noteq> 0" using machine_invD(2) [OF assms, of l] by (auto simp: lock_inv_def)
    then show ?thesis using True i Rel_locked by (simp add: cpu_inv_def lock_defs)
  next
    case (Rel_cpu l)
    then have "named s c l" by (simp add: named_def)
    then have "lk_cpu (locks s l) = Some c" using machine_invD(2) [OF assms, of l] by (simp add: lock_inv_def)
    then show ?thesis using True i Rel_cpu by (simp add: cpu_inv_def lock_defs)
  qed (use True i in \<open>simp_all add: cpu_inv_def lock_defs popcli_def\<close>)
qed

text \<open>A step that does not change who owns a lock, and the four steps that do.\<close>

lemma lock_inv_same:
  assumes "lock_inv s k" "locks t k = locks s k" "\<And>d. owns t d k = owns s d k" "\<And>d. named t d k = named s d k"
  shows "lock_inv t k"
  using assms by (simp add: lock_inv_def)

lemma lock_inv_spin:
  assumes "lock_inv s k" "locks t k = (locks s k)\<lparr>locked := 1\<rparr>" "locked (locks s k) \<noteq> 0"
    "\<And>d. owns t d k = owns s d k" "\<And>d. named t d k = named s d k"
  shows "lock_inv t k"
  using assms by (simp add: lock_inv_def)

lemma lock_inv_take:
  assumes "lock_inv s k" "locks t k = (locks s k)\<lparr>locked := 1\<rparr>" "locked (locks s k) = 0"
    "\<And>d. owns t d k \<longleftrightarrow> d = c" "\<And>d. named t d k = named s d k"
  shows "lock_inv t k"
  using assms by (simp add: lock_inv_def)

lemma lock_inv_name:
  assumes "lock_inv s k" "locks t k = (locks s k)\<lparr>lk_cpu := n\<rparr>"
    "\<And>d. owns t d k = owns s d k" "\<And>d. named t d k \<longleftrightarrow> n = Some d"
  shows "lock_inv t k"
  using assms by (auto simp: lock_inv_def)

lemma lock_inv_free:
  assumes "lock_inv s k" "locks t k = (locks s k)\<lparr>locked := 0\<rparr>"
    "\<And>d. \<not> owns t d k" "\<And>d. named t d k = named s d k"
  shows "lock_inv t k"
  using assms by (simp add: lock_inv_def)

lemma owns_only: "lock_inv s k \<Longrightarrow> owns s c k \<Longrightarrow> owns s d k \<Longrightarrow> d = c"
  by (simp add: lock_inv_def)

lemma acquire_lock_inv:
  assumes "machine_inv F s" shows "lock_inv (acquire_step c (pc s c) s) k"
proof -
  note i = machine_invD(2) [OF assms, of k] and j = machine_invD(1) [OF assms, of c]
  show ?thesis
  proof (cases "pc s c")
    case (Acq_push l) then show ?thesis by (intro lock_inv_same [OF i]) (auto simp: lock_defs)
  next
    case (Acq_locked l) then show ?thesis by (intro lock_inv_same [OF i]) (auto simp: lock_defs)
  next
    case (Acq_cpu l) then show ?thesis by (intro lock_inv_same [OF i]) (auto simp: lock_defs)
  next
    case (Acq_xchg l)
    show ?thesis
    proof (cases "l = k \<and> locked (locks s l) = 0")
      case True
      then have "\<not> owns s d k" for d using i by (auto simp: lock_inv_def)
      then show ?thesis using True Acq_xchg by (intro lock_inv_take [OF i]) (auto simp: lock_defs Let_def)
    next
      case False
      show ?thesis
      proof (cases "l = k")
        case True
        then show ?thesis using False Acq_xchg by (intro lock_inv_spin [OF i]) (auto simp: lock_defs Let_def)
      next
        case False
        then show ?thesis using Acq_xchg by (intro lock_inv_same [OF i]) (auto simp: lock_defs Let_def)
      qed
    qed
  next
    case (Acq_set l)
    show ?thesis
    proof (cases "l = k")
      case True
      then have o: "owns s c k" using Acq_set by (simp add: owns_def)
      have "d = c" if "named s d k" for d
        using owns_only [OF i o, of d] that by (auto simp: owns_def named_def)
      then show ?thesis using True Acq_set o
        by (intro lock_inv_name [OF i, where n = "Some c"]) (auto simp: lock_defs Let_def)
    next
      case False
      then show ?thesis using Acq_set by (intro lock_inv_same [OF i]) (auto simp: lock_defs Let_def)
    qed
  qed (use i in simp_all)
qed

lemma release_lock_inv:
  assumes "machine_inv F s" shows "lock_inv (release_step c (pc s c) s) k"
proof -
  note i = machine_invD(2) [OF assms, of k] and j = machine_invD(1) [OF assms, of c]
  show ?thesis
  proof (cases "pc s c")
    case (Rel_locked l)
    then have "owns s c l" by (simp add: owns_def)
    then have "locked (locks s l) \<noteq> 0" using machine_invD(2) [OF assms, of l] by (auto simp: lock_inv_def)
    with Rel_locked show ?thesis by (intro lock_inv_same [OF i]) (auto simp: lock_defs)
  next
    case (Rel_cpu l)
    then have "named s c l" by (simp add: named_def)
    then have "lk_cpu (locks s l) = Some c" using machine_invD(2) [OF assms, of l] by (simp add: lock_inv_def)
    with Rel_cpu show ?thesis by (intro lock_inv_same [OF i]) (auto simp: lock_defs)
  next
    case (Rel_clear l)
    show ?thesis
    proof (cases "l = k")
      case True
      then have n: "named s c k" and h: "k \<notin> set (held s c)" using Rel_clear j by (auto simp: named_def cpu_inv_def)
      then have "d = c" if "named s d k" for d using i that by (metis lock_inv_def option.inject)
      then show ?thesis using True Rel_clear h
        by (intro lock_inv_name [OF i, where n = None]) (auto simp: lock_defs)
    next
      case False
      then show ?thesis using Rel_clear by (intro lock_inv_same [OF i]) (auto simp: lock_defs)
    qed
  next
    case (Rel_xchg l)
    show ?thesis
    proof (cases "l = k")
      case True
      then have o: "owns s c k" and h: "k \<notin> set (held s c)" using Rel_xchg j by (auto simp: owns_def cpu_inv_def)
      have "d = c" if "owns s d k" for d by (rule owns_only [OF i o that])
      then show ?thesis using True Rel_xchg h
        by (intro lock_inv_free [OF i]) (auto simp: lock_defs)
    next
      case False
      then show ?thesis using Rel_xchg by (intro lock_inv_same [OF i]) (auto simp: lock_defs)
    qed
  next
    case Rel_pop
    then show ?thesis by (cases "popcli (cpus s c)") (intro lock_inv_same [OF i]; auto simp: lock_defs)+
  qed (use i in simp_all)
qed

lemma step_inv:
  assumes "machine_inv F s" "lock_step s t" shows "machine_inv F t"
  using assms(2)
proof cases
  case (call_acquire c l)
  have "cpu_inv F t d" for d
    using machine_invD(1) [OF assms(1), of d] call_acquire by (cases "d = c") (auto simp: cpu_inv_def lock_defs)
  moreover have "lock_inv t k" for k
    using call_acquire by (intro lock_inv_same [OF machine_invD(2) [OF assms(1)]]) (auto simp: lock_defs)
  ultimately show ?thesis by (simp add: machine_inv_def)
next
  case (call_release c l)
  have "cpu_inv F t d" for d
  proof (cases "d = c")
    case True
    have "0 < length (held s c)" using call_release by (cases "held s c") auto
    then show ?thesis using machine_invD(1) [OF assms(1), of c] call_release True
      by (auto simp: cpu_inv_def lock_defs length_remove1)
  next
    case False
    then show ?thesis using machine_invD(1) [OF assms(1), of d] call_release by (simp add: cpu_inv_def lock_defs)
  qed
  moreover have "lock_inv t k" for k
  proof -
    have "distinct (held s c)" using machine_invD(1) [OF assms(1), of c] by (simp add: cpu_inv_def)
    then show ?thesis
      using call_release by (intro lock_inv_same [OF machine_invD(2) [OF assms(1)]]) (auto simp: lock_defs)
  qed
  ultimately show ?thesis by (simp add: machine_inv_def)
next
  case (in_acquire c)
  then show ?thesis using acquire_cpu_inv [OF assms(1)] acquire_lock_inv [OF assms(1)] by (simp add: machine_inv_def)
next
  case (in_release c)
  then show ?thesis using release_cpu_inv [OF assms(1)] release_lock_inv [OF assms(1)] by (simp add: machine_inv_def)
qed

lemma reachable_inv: "lock_reachable F s \<Longrightarrow> machine_inv F s"
  by (induction rule: lock_reachable.induct) (auto intro: start_inv step_inv)

text \<open>
  C5: Spin locks give mutual exclusion: however the memory accesses of the CPUs interleave, no two CPUs
  hold the same lock, no CPU panics in \<open>acquire\<close> or \<open>release\<close>, a CPU that holds a lock has
  interrupts off, and one that holds none has them as it had them at the start. A CPU that spins on a
  lock nobody owns gets it with its next two steps.
\<close>

theorem mutual_exclusion:
  assumes "lock_reachable F s"
  shows "(l \<in> set (held s c) \<and> l \<in> set (held s d) \<longrightarrow> c = d) \<and> (\<forall>m. pc s c \<noteq> Panicked m)
    \<and> (held s c \<noteq> [] \<longrightarrow> \<not> iflag (cpus s c)) \<and> (held s c = [] \<and> pc s c = Out \<longrightarrow> iflag (cpus s c) = F c)
    \<and> (pc s c = Acq_xchg l \<and> (\<forall>d. \<not> owns s d l) \<longrightarrow>
         (let t = acquire_step c (Acq_set l) (acquire_step c (pc s c) s) in l \<in> set (held t c) \<and> pc t c = Out))"
proof -
  note i = machine_invD(1) [OF reachable_inv [OF assms], of c] and j = machine_invD(2) [OF reachable_inv [OF assms], of l]
  have "l \<in> set (held s c) \<and> l \<in> set (held s d) \<longrightarrow> c = d"
    using owns_only [OF j, of d c] by (auto simp: owns_def)
  moreover have "held s c \<noteq> [] \<longrightarrow> \<not> iflag (cpus s c)"
    using i by (cases "held s c") (auto simp: cpu_inv_def split: if_splits)
  moreover have "locked (locks s l) = 0" if "\<forall>d. \<not> owns s d l" using j that by (simp add: lock_inv_def)
  ultimately show ?thesis using i by (auto simp: cpu_inv_def lock_defs Let_def)
qed

definition ex_locks :: lock_state where
  "ex_locks = \<lparr>locks = (\<lambda>_. initlock), cpus = (\<lambda>_. \<lparr>ncli = 0, intena = False, iflag = True\<rparr>), pc = (\<lambda>_. Out), held = (\<lambda>_. [])\<rparr>"

lemma ex_locks_acquired:
  "\<exists>s. lock_reachable (\<lambda>_. True) s \<and> held s 0 = [7]"
proof -
  let ?t = "\<lambda>s. acquire_step 0 (pc s 0) s"
  have "lock_reachable (\<lambda>_. True) ex_locks"
    by (rule lock_reachable.start) (simp add: ex_locks_def lock_start_def)
  then have "lock_reachable (\<lambda>_. True) (goto 0 (Acq_push 7) ex_locks)"
    by (rule lock_reachable.step) (rule call_acquire, simp_all add: ex_locks_def)
  then have "lock_reachable (\<lambda>_. True) (?t (?t (?t (?t (goto 0 (Acq_push 7) ex_locks)))))"
    by (intro lock_reachable.step [OF _ in_acquire])
  moreover have "held (?t (?t (?t (?t (goto 0 (Acq_push 7) ex_locks))))) 0 = [7]"
    by (simp add: ex_locks_def lock_defs Let_def initlock_def pushcli_def)
  ultimately show ?thesis by blast
qed

theorem mutual_exclusion_witness:
  "\<exists>s. lock_reachable (\<lambda>_. True) s \<and> 7 \<in> set (held s 0) \<and> 7 \<notin> set (held s 1) \<and> \<not> iflag (cpus s 0)"
proof -
  obtain s where s: "lock_reachable (\<lambda>_. True) s" "held s 0 = [7]" using ex_locks_acquired by blast
  then have "7 \<notin> set (held s 1)" using mutual_exclusion [OF s(1), of 7 0 1] by auto
  moreover have "\<not> iflag (cpus s 0)" using mutual_exclusion [OF s(1), of 7 0 0] s(2) by simp
  ultimately show ?thesis using s by (intro exI [of _ s]) simp
qed

end
