(* ===== verification/Sched.thy ===== *)
theory Sched
  imports Life Spinlock
begin

text \<open>
  The scheduler on a machine with several CPUs (proc.c): \<open>scheduler\<close>, \<open>sched\<close>, \<open>yield\<close>, \<open>sleep\<close>, \<open>wakeup\<close>,
  and the critical sections of \<open>allocproc\<close>, \<open>kill\<close>, \<open>exit\<close> and \<open>wait\<close>, as the steps of a machine in which
  every CPU has a position in the code and every process that is not running a saved one. A lock is taken
  in one step, which the theory of spin locks justifies; \<open>switchuvm\<close> and \<open>switchkvm\<close>, which do not touch the
  process table, are in the theory of virtual memory. The machine is shown to be safe, and the protocol of
  \<open>sleep\<close> and \<open>wakeup\<close> to lose no wakeup.
\<close>

section \<open>The machine\<close>

text \<open>
  The positions of a CPU in the code. \<open>Lock\<close> and \<open>Unlock\<close> are calls of \<open>acquire\<close> and \<open>release\<close> with what
  follows; lock 0 is \<open>ptable.lock\<close>. \<open>Top\<close>, \<open>Scan\<close> and \<open>Back\<close> are in \<open>scheduler\<close>, \<open>Sched\<close> and \<open>Sched_ret\<close>
  before and after the switch in \<open>sched\<close>, with what follows in the function that called it, and \<open>Run\<close> is
  all other code that a process runs.
\<close>

datatype pos =
    Top | Scan nat | Back nat
  | Run
  | Lock nat pos | Unlock nat pos
  | Yield | Sleep_set chan nat pos | Tidy nat pos | Wake chan | Kill u32 | Alloc | Forkret
  | Exit | Zombie_exit | Wait
  | Sched pos | Sched_ret bool pos
  | Panicked string

text \<open>
  \<open>proc_of\<close> is the per-CPU variable \<open>proc\<close>; \<open>saved\<close> is where the context of a process that is not running
  resumes, \<open>spos\<close> where the one of the scheduler does. \<open>flag\<close> is a condition processes wait for.
\<close>

record smp =
  kern :: proc_state
  owner :: "nat \<Rightarrow> nat option"
  cpu_of :: "nat \<Rightarrow> cpu"
  proc_of :: "nat \<Rightarrow> nat option"
  cpos :: "nat \<Rightarrow> pos"
  saved :: "nat \<Rightarrow> pos"
  spos :: "nat \<Rightarrow> pos"
  flag :: bool

definition enter :: "nat \<Rightarrow> pos \<Rightarrow> smp \<Rightarrow> smp" where
  "enter c k s = s\<lparr>cpos := (cpos s)(c := k)\<rparr>"

text \<open>A lock is taken in one step when it is free, and waited for otherwise.\<close>

definition take_lock :: "nat \<Rightarrow> nat \<Rightarrow> pos \<Rightarrow> smp \<Rightarrow> smp" where
  "take_lock c l k s =
     (if owner s l = Some c then enter c (Panicked ''acquire'') s
      else if owner s l = None then
        enter c k (s\<lparr>owner := (owner s)(l := Some c), cpu_of := (cpu_of s)(c := pushcli (cpu_of s c))\<rparr>)
      else s)"

definition drop_lock :: "nat \<Rightarrow> nat \<Rightarrow> pos \<Rightarrow> smp \<Rightarrow> smp" where
  "drop_lock c l k s =
     (if owner s l \<noteq> Some c then enter c (Panicked ''release'') s
      else case popcli (cpu_of s c) of
             Inl m \<Rightarrow> enter c (Panicked m) s
           | Inr x \<Rightarrow> enter c k (s\<lparr>owner := (owner s)(l := None), cpu_of := (cpu_of s)(c := x)\<rparr>))"

text \<open>A function of the kernel runs on CPU \<open>c\<close>.\<close>

definition run_kern :: "nat \<Rightarrow> (proc_state \<Rightarrow> proc_state kres) \<Rightarrow> pos \<Rightarrow> smp \<Rightarrow> smp" where
  "run_kern c f k s =
     (case f ((kern s)\<lparr>cur := proc_of s c\<rparr>) of
        Inl e \<Rightarrow> enter c (Panicked (case e of Panic m \<Rightarrow> m | _ \<Rightarrow> ''trap'')) s
      | Inr t \<Rightarrow> enter c k (s\<lparr>kern := t\<rparr>))"

definition pick :: "nat \<Rightarrow> nat \<Rightarrow> smp \<Rightarrow> smp" where
  "pick c i s =
     (if i < NPROC then
        if state (ptable (kern s) i) \<noteq> RUNNABLE then enter c (Scan (Suc i)) s
        else enter c (saved s i)
               (s\<lparr>kern := upd_proc i (\<lambda>q. q\<lparr>state := RUNNING\<rparr>) (kern s), proc_of := (proc_of s)(c := Some i),
                  spos := (spos s)(c := Back i)\<rparr>)
      else enter c (Unlock 0 Top) s)"

definition sched :: "nat \<Rightarrow> pos \<Rightarrow> smp \<Rightarrow> smp" where
  "sched c k s =
     (case proc_of s c of
        None \<Rightarrow> enter c (Panicked ''trap'') s
      | Some p \<Rightarrow>
          if owner s 0 \<noteq> Some c then enter c (Panicked ''sched ptable.lock'') s
          else if ncli (cpu_of s c) \<noteq> 1 then enter c (Panicked ''sched locks'') s
          else if state (ptable (kern s) p) = RUNNING then enter c (Panicked ''sched running'') s
          else if iflag (cpu_of s c) then enter c (Panicked ''sched interruptible'') s
          else enter c (spos s c) (s\<lparr>saved := (saved s)(p := Sched_ret (intena (cpu_of s c)) k)\<rparr>))"

definition alloc :: "nat \<Rightarrow> smp \<Rightarrow> smp" where
  "alloc c s =
     (let (r, t) = allocproc (kern s)
      in enter c (Unlock 0 Run) (s\<lparr>kern := t, saved := (case r of None \<Rightarrow> saved s | Some p \<Rightarrow> (saved s)(p := Forkret))\<rparr>))"

text \<open>The next step of CPU \<open>c\<close>.\<close>

fun cpu_step :: "nat \<Rightarrow> pos \<Rightarrow> smp \<Rightarrow> smp" where
  "cpu_step c Top s = enter c (Lock 0 (Scan 0)) (s\<lparr>cpu_of := (cpu_of s)(c := (cpu_of s c)\<lparr>iflag := True\<rparr>)\<rparr>)"
| "cpu_step c (Scan i) s = pick c i s"
| "cpu_step c (Back i) s = enter c (Scan (Suc i)) (s\<lparr>proc_of := (proc_of s)(c := None)\<rparr>)"
| "cpu_step c (Lock l k) s = take_lock c l k s"
| "cpu_step c (Unlock l k) s = drop_lock c l k s"
| "cpu_step c Yield s = run_kern c yield_enter (Sched (Unlock 0 Run)) s"
| "cpu_step c (Sleep_set ch l k) s = run_kern c (sleep_enter ch) (Sched (Tidy l k)) s"
| "cpu_step c (Tidy l k) s = run_kern c sleep_leave (if l \<noteq> 0 then Unlock 0 (Lock l k) else k) s"
| "cpu_step c (Wake ch) s = run_kern c (\<lambda>k. Inr (wakeup ch k)) (Unlock 0 Run) s"
| "cpu_step c (Kill n) s = run_kern c (\<lambda>k. Inr (snd (kill n k))) (Unlock 0 Run) s"
| "cpu_step c Alloc s = alloc c s"
| "cpu_step c Forkret s = enter c (Unlock 0 Run) s"
| "cpu_step c Exit s = run_kern c (\<lambda>k. kbind (myproc k) (\<lambda>p. Inr (exit_last p k))) (Sched Zombie_exit) s"
| "cpu_step c Zombie_exit s = enter c (Panicked ''zombie exit'') s"
| "cpu_step c (Sched k) s = sched c k s"
| "cpu_step c (Sched_ret i k) s = enter c k (s\<lparr>cpu_of := (cpu_of s)(c := (cpu_of s c)\<lparr>intena := i\<rparr>)\<rparr>)"
| "cpu_step c _ s = s"

definition sleep_at :: "chan \<Rightarrow> nat \<Rightarrow> pos \<Rightarrow> pos" where
  "sleep_at ch l k = (if l \<noteq> 0 then Lock 0 (Unlock l (Sleep_set ch l k)) else Sleep_set ch l k)"

definition wakeup_at :: "chan \<Rightarrow> pos" where "wakeup_at ch = Lock 0 (Wake ch)"

text \<open>The locks a CPU holds.\<close>

definition lks :: "smp \<Rightarrow> nat \<Rightarrow> nat set" where
  "lks s c = {l. owner s l = Some c}"

text \<open>
  The steps of the machine. What a process may call: it gives up the CPU, exits or waits without a
  lock, and sleeps with the lock it passes to \<open>sleep\<close> only. The flag is protected by lock \<open>L\<close>: who sets it
  calls \<open>wakeup C\<close> next, and who sleeps on \<open>C\<close> has seen it unset while holding \<open>L\<close>. The slot of a new process
  is made runnable, or freed after a failure, without \<open>ptable.lock\<close>.
\<close>

inductive smp_step :: "chan \<Rightarrow> nat \<Rightarrow> smp \<Rightarrow> smp \<Rightarrow> bool" for C L where
  next_step: "smp_step C L s (cpu_step c (cpos s c) s)"
| wait_returns: "cpos s c = Wait \<Longrightarrow> Process.wait ((kern s)\<lparr>cur := proc_of s c\<rparr>) = Inr (r, t) \<Longrightarrow>
    smp_step C L s (enter c (Unlock 0 Run) (s\<lparr>kern := t\<rparr>))"
| wait_sleeps: "cpos s c = Wait \<Longrightarrow> Process.wait ((kern s)\<lparr>cur := proc_of s c\<rparr>) = Inl (Sleep ch) \<Longrightarrow>
    smp_step C L s (enter c (sleep_at ch 0 Wait) s)"
| call_acquire: "cpos s c = Run \<Longrightarrow> l \<noteq> 0 \<Longrightarrow> l \<notin> lks s c \<Longrightarrow> smp_step C L s (enter c (Lock l Run) s)"
| call_release: "cpos s c = Run \<Longrightarrow> l \<in> lks s c \<Longrightarrow> smp_step C L s (enter c (Unlock l Run) s)"
| call_cli: "cpos s c = Run \<Longrightarrow> lks s c = {} \<Longrightarrow>
    smp_step C L s (s\<lparr>cpu_of := (cpu_of s)(c := (cpu_of s c)\<lparr>iflag := b\<rparr>)\<rparr>)"
| call_locked: "cpos s c = Run \<Longrightarrow> lks s c = {} \<Longrightarrow> k \<in> {Yield, Exit, Wait} \<Longrightarrow> smp_step C L s (enter c (Lock 0 k) s)"
| call_table: "cpos s c = Run \<Longrightarrow> k \<in> {Kill n, Alloc} \<Longrightarrow> smp_step C L s (enter c (Lock 0 k) s)"
| call_wakeup: "cpos s c = Run \<Longrightarrow> smp_step C L s (enter c (wakeup_at ch) s)"
| call_sleep: "cpos s c = Run \<Longrightarrow> lks s c = {l} \<Longrightarrow> ch \<noteq> C \<Longrightarrow> smp_step C L s (enter c (sleep_at ch l Run) s)"
| sleep_flag: "cpos s c = Run \<Longrightarrow> lks s c = {L} \<Longrightarrow> \<not> flag s \<Longrightarrow> smp_step C L s (enter c (sleep_at C L Run) s)"
| set_flag: "cpos s c = Run \<Longrightarrow> L \<in> lks s c \<Longrightarrow> smp_step C L s (enter c (wakeup_at C) (s\<lparr>flag := True\<rparr>))"
| clear_flag: "cpos s c = Run \<Longrightarrow> L \<in> lks s c \<Longrightarrow> smp_step C L s (s\<lparr>flag := False\<rparr>)"
| new_child: "cpos s c = Run \<Longrightarrow> state (ptable (kern s) p) = EMBRYO \<Longrightarrow> st \<in> {RUNNABLE, UNUSED} \<Longrightarrow>
    smp_step C L s (s\<lparr>kern := upd_proc p (\<lambda>q. q\<lparr>state := st\<rparr>) (kern s)\<rparr>)"

text \<open>At the start every CPU enters the scheduler and the first process is runnable.\<close>

definition smp_start :: "smp \<Rightarrow> bool" where
  "smp_start s \<longleftrightarrow> (\<forall>c. cpos s c = Top \<and> proc_of s c = None \<and> ncli (cpu_of s c) = 0) \<and> (\<forall>l. owner s l = None) \<and>
     (\<forall>p. state (ptable (kern s) p) = RUNNABLE \<and> saved s p = Forkret \<or> state (ptable (kern s) p) = UNUSED)"

inductive smp_reach :: "chan \<Rightarrow> nat \<Rightarrow> smp \<Rightarrow> bool" for C L where
  start: "smp_start s \<Longrightarrow> smp_reach C L s"
| step: "smp_reach C L s \<Longrightarrow> smp_step C L s t \<Longrightarrow> smp_reach C L t"

section \<open>Invariant\<close>

text \<open>Positions of the scheduler, and positions on the way to falling asleep.\<close>

fun sch :: "pos \<Rightarrow> bool" where
  "sch Top = True" | "sch (Scan i) = True" | "sch (Back i) = True"
| "sch (Lock l k) = sch k" | "sch (Unlock l k) = sch k"
| "sch _ = False"

fun dozing :: "chan \<Rightarrow> pos \<Rightarrow> bool" where
  "dozing C (Sleep_set ch l k) = (ch = C)"
| "dozing C (Lock l k) = dozing C k" | "dozing C (Unlock l k) = dozing C k"
| "dozing C _ = False"

fun switching :: "pos \<Rightarrow> bool" where
  "switching (Sched k) = True" | "switching (Back i) = True" | "switching _ = False"

definition calm :: "pos \<Rightarrow> bool" where
  "calm k \<longleftrightarrow> \<not> sch k \<and> \<not> switching k \<and> (\<forall>C. \<not> dozing C k)"

text \<open>A position fits the locks that are held there, and so do the ones that follow.\<close>

fun fits :: "pos \<Rightarrow> nat set \<Rightarrow> bool" where
  "fits Top H = (H = {})"
| "fits (Scan i) H = (H = {0})"
| "fits (Back i) H = (H = {0})"
| "fits Run H = (0 \<notin> H)"
| "fits (Lock l k) H = (l \<notin> H \<and> \<not> switching k \<and> fits k (insert l H))"
| "fits (Unlock l k) H = (l \<in> H \<and> \<not> switching k \<and> fits k (H - {l}))"
| "fits (Sleep_set ch l k) H = (H = {0} \<and> calm k \<and> fits k {l})"
| "fits (Tidy l k) H = (H = {0} \<and> calm k \<and> fits k {l})"
| "fits (Sched k) H = (H = {0} \<and> (k = Zombie_exit \<or> calm k \<and> fits k {0}))"
| "fits (Sched_ret i k) H = (H = {0} \<and> calm k \<and> fits k {0})"
| "fits (Wake ch) H = (0 \<in> H)"
| "fits (Kill n) H = (0 \<in> H)"
| "fits Alloc H = (0 \<in> H)"
| "fits Zombie_exit H = False"
| "fits (Panicked m) H = False"
| "fits _ H = (H = {0})"

text \<open>The state of the process a CPU runs, by the position of the CPU.\<close>

fun fit_state :: "pos \<Rightarrow> procstate \<Rightarrow> bool" where
  "fit_state (Sched k) st = (st \<in> {RUNNABLE, SLEEPING, ZOMBIE} \<and> (st = ZOMBIE \<longleftrightarrow> k = Zombie_exit))"
| "fit_state (Back i) st = (st \<in> {RUNNABLE, SLEEPING, ZOMBIE})"
| "fit_state _ st = (st = RUNNING)"

abbreviation pst :: "smp \<Rightarrow> nat \<Rightarrow> procstate" where "pst s p \<equiv> state (ptable (kern s) p)"

definition cpu_ok :: "smp \<Rightarrow> nat \<Rightarrow> bool" where
  "cpu_ok s c \<longleftrightarrow> fits (cpos s c) (lks s c) \<and> finite (lks s c) \<and> ncli (cpu_of s c) = int (card (lks s c)) \<and>
     (lks s c \<noteq> {} \<longrightarrow> \<not> iflag (cpu_of s c)) \<and>
     (if sch (cpos s c) then proc_of s c = (case cpos s c of Back i \<Rightarrow> Some i | _ \<Rightarrow> None)
      else \<exists>p. proc_of s c = Some p \<and> spos s c = Back p) \<and>
     (\<forall>p. proc_of s c = Some p \<longrightarrow> fit_state (cpos s c) (pst s p))"

definition slot_ok :: "smp \<Rightarrow> nat \<Rightarrow> bool" where
  "slot_ok s p \<longleftrightarrow> (pst s p = RUNNING \<longrightarrow> (\<exists>c. proc_of s c = Some p)) \<and>
     (pst s p \<in> {EMBRYO, RUNNABLE, SLEEPING} \<longrightarrow> (\<forall>c. proc_of s c = Some p \<longrightarrow> cpos s c = Back p) \<longrightarrow>
      calm (saved s p) \<and> fits (saved s p) {0})"

definition smp_inv :: "smp \<Rightarrow> bool" where
  "smp_inv s \<longleftrightarrow> (\<forall>c. cpu_ok s c) \<and> (\<forall>p. slot_ok s p) \<and>
     (\<forall>c d p. proc_of s c = Some p \<longrightarrow> proc_of s d = Some p \<longrightarrow> c = d)"

lemma switching_lock: "fits k H \<Longrightarrow> switching k \<Longrightarrow> 0 \<in> H"
  by (cases k) auto

lemma owner_unique: "l \<in> lks s c \<Longrightarrow> l \<in> lks s d \<Longrightarrow> c = d"
  by (simp add: lks_def)

text \<open>The CPU that holds \<open>ptable.lock\<close> is the only one in the middle of a switch.\<close>

lemma alone: "smp_inv s \<Longrightarrow> 0 \<in> lks s c \<Longrightarrow> d \<noteq> c \<Longrightarrow> \<not> switching (cpos s d)"
  using switching_lock owner_unique by (metis cpu_ok_def smp_inv_def)

lemma calm_state [simp]: "\<not> switching k \<Longrightarrow> fit_state k st \<longleftrightarrow> st = RUNNING"
  by (cases k) auto

lemma slot_running: "proc_of t c = Some p \<Longrightarrow> cpos t c \<noteq> Back p \<Longrightarrow> slot_ok t p"
  unfolding slot_ok_def by blast

lemma slot_same:
  assumes "slot_ok s p" "pst t p = pst s p" "saved t p = saved s p"
    "\<And>d. proc_of t d = Some p \<longleftrightarrow> proc_of s d = Some p" "\<And>d. proc_of s d = Some p \<Longrightarrow> cpos t d = cpos s d"
  shows "slot_ok t p"
  using assms(1) unfolding slot_ok_def assms(2-4) using assms(5) by simp

lemma inv_step:
  assumes s: "smp_inv s" and o: "\<And>d. d \<noteq> c \<Longrightarrow> cpos t d = cpos s d \<and> cpu_of t d = cpu_of s d \<and>
      proc_of t d = proc_of s d \<and> spos t d = spos s d \<and> lks t d = lks s d"
    and k: "\<And>d p. d \<noteq> c \<Longrightarrow> proc_of s d = Some p \<Longrightarrow> fit_state (cpos s d) (pst t p)"
    and c: "cpu_ok t c" and u: "\<And>d p. d \<noteq> c \<Longrightarrow> proc_of t c = Some p \<Longrightarrow> proc_of s d \<noteq> Some p"
    and p: "\<And>p. slot_ok t p"
  shows "smp_inv t"
proof -
  have "cpu_ok t d" for d
  proof (cases "d = c")
    case False
    have "cpu_ok s d" using s by (simp add: smp_inv_def)
    then show ?thesis using o [OF False] k [OF False] by (simp add: cpu_ok_def)
  qed (use c in simp)
  moreover have "c' = d" if "proc_of t c' = Some q" "proc_of t d = Some q" for c' d q
    using that o u s by (metis smp_inv_def)
  ultimately show ?thesis using p by (simp add: smp_inv_def)
qed

text \<open>Table updates under the lock: a process is woken.\<close>

definition moved :: "nat option \<Rightarrow> smp \<Rightarrow> smp \<Rightarrow> bool" where
  "moved p s t \<longleftrightarrow> (\<forall>q. Some q \<noteq> p \<longrightarrow> pst t q = pst s q \<or> pst s q = SLEEPING \<and> pst t q = RUNNABLE \<or>
     pst s q = ZOMBIE \<and> pst t q = UNUSED)"

lemma movedD: "moved p s t \<Longrightarrow> Some q \<noteq> p \<Longrightarrow> pst t q = pst s q \<or> pst s q = SLEEPING \<and> pst t q = RUNNABLE \<or>
    pst s q = ZOMBIE \<and> pst t q = UNUSED"
  by (simp add: moved_def)

lemma not_back: "\<forall>i. k \<noteq> Back i \<Longrightarrow> (case k of Back i \<Rightarrow> Some i | _ \<Rightarrow> None) = None"
  by (cases k) auto

lemma switching_back: "\<not> switching k \<Longrightarrow> \<forall>i. k \<noteq> Back i"
  by auto

text \<open>A CPU goes on, with the process it runs.\<close>

lemma inv_stay:
  assumes s: "smp_inv s"
    and t: "cpos t = (cpos s)(c := k)" "cpu_of t = (cpu_of s)(c := x)" "proc_of t = proc_of s" "spos t = spos s"
      "\<And>d. d \<noteq> c \<Longrightarrow> lks t d = lks s d" "saved t = saved s"
    and k: "fits k (lks t c)" "finite (lks t c)" "ncli x = int (card (lks t c))" "lks t c \<noteq> {} \<Longrightarrow> \<not> iflag x"
    and m: "kern t = kern s \<or> 0 \<in> lks s c \<and> moved (proc_of s c) s t"
    and n: "\<not> switching (cpos s c)" "sch k = sch (cpos s c)" "\<forall>i. k \<noteq> Back i" "\<And>p. proc_of s c = Some p \<Longrightarrow> fit_state k (pst t p)"
  shows "smp_inv t"
proof (rule inv_step [OF s, of c])
  have c: "cpu_ok s c" and inj: "\<And>c d p. proc_of s c = Some p \<Longrightarrow> proc_of s d = Some p \<Longrightarrow> c = d"
    using s by (auto simp: smp_inv_def)
  show "cpos t d = cpos s d \<and> cpu_of t d = cpu_of s d \<and> proc_of t d = proc_of s d \<and> spos t d = spos s d \<and> lks t d = lks s d"
    if "d \<noteq> c" for d using that t by simp
  show f: "fit_state (cpos s d) (pst t p)" if d: "d \<noteq> c" "proc_of s d = Some p" for d p
  proof -
    have "fit_state (cpos s d) (pst s p)" using s d(2) by (simp add: smp_inv_def cpu_ok_def)
    moreover have "Some p \<noteq> proc_of s c" using d inj by metis
    ultimately show ?thesis using m alone [OF s _ d(1)] unfolding moved_def by fastforce
  qed
  show "proc_of s d \<noteq> Some p" if "d \<noteq> c" "proc_of t c = Some p" for d p using that inj t(3) by auto
  show "cpu_ok t c" using c t k n not_back [OF n(3)] not_back [OF switching_back [OF n(1)]]
    unfolding cpu_ok_def by (cases "sch k") simp_all
  fix p have o: "slot_ok s p" using s by (simp add: smp_inv_def)
  show "slot_ok t p"
  proof (cases "proc_of s c = Some p")
    case True
    then have "proc_of t c = Some p" "cpos t c \<noteq> Back p" using t n(3) by simp_all
    then show ?thesis by (rule slot_running)
  next
    case False
    then have "Some p \<noteq> proc_of s c" by simp
    then have "pst t p = pst s p \<or> pst s p = SLEEPING \<and> pst t p = RUNNABLE \<or> pst s p = ZOMBIE \<and> pst t p = UNUSED"
      using m movedD by (elim disjE conjE) (simp, blast)
    moreover have "(\<forall>d. proc_of t d = Some p \<longrightarrow> cpos t d = Back p) \<longleftrightarrow> (\<forall>d. proc_of s d = Some p \<longrightarrow> cpos s d = Back p)"
      using False t(1,3) by auto
    ultimately show ?thesis using o t(3,6) unfolding slot_ok_def by (elim disjE conjE) simp_all
  qed
qed


lemma lks_simps [simp]: "lks (enter c k s) d = lks s d" "lks (s\<lparr>cpu_of := X\<rparr>) d = lks s d" "lks (s\<lparr>kern := K\<rparr>) d = lks s d"
  "lks (s\<lparr>proc_of := P\<rparr>) d = lks s d" "lks (s\<lparr>saved := S\<rparr>) d = lks s d" "lks (s\<lparr>spos := S\<rparr>) d = lks s d"
  "lks (s\<lparr>cpos := S\<rparr>) d = lks s d" "lks (s\<lparr>flag := b\<rparr>) d = lks s d"
  by (simp_all add: lks_def enter_def)

text \<open>The steps that only change the position, and the ones that take or drop a lock.\<close>

lemma inv_enter:
  assumes "smp_inv s" "fits k (lks s c)" "\<not> switching (cpos s c)" "\<not> switching k" "sch k = sch (cpos s c)"
  shows "smp_inv (enter c k s)"
proof (rule inv_stay [OF assms(1), where c = c and k = k and x = "cpu_of s c"])
  have c: "cpu_ok s c" using assms(1) by (simp add: smp_inv_def)
  show "finite (lks (enter c k s) c)" "ncli (cpu_of s c) = int (card (lks (enter c k s) c))"
    "lks (enter c k s) c \<noteq> {} \<Longrightarrow> \<not> iflag (cpu_of s c)" using c by (simp_all add: cpu_ok_def)
  show "\<And>p. proc_of s c = Some p \<Longrightarrow> fit_state k (pst (enter c k s) p)"
    using c assms by (simp add: cpu_ok_def enter_def)
  show "\<forall>i. k \<noteq> Back i" using assms(4) by auto
qed (use assms in \<open>simp_all add: enter_def lks_def\<close>)

lemma inv_take:
  assumes s: "smp_inv s" and k: "cpos s c = Lock l k" shows "smp_inv (take_lock c l k s)"
proof (cases "owner s l = None")
  case True
  let ?t = "take_lock c l k s"
  have c: "cpu_ok s c" using s by (simp add: smp_inv_def)
  have t: "?t = enter c k (s\<lparr>owner := (owner s)(l := Some c), cpu_of := (cpu_of s)(c := pushcli (cpu_of s c))\<rparr>)"
    using True by (simp add: take_lock_def)
  have l: "lks ?t c = insert l (lks s c)" "\<And>d. d \<noteq> c \<Longrightarrow> lks ?t d = lks s d" "l \<notin> lks s c"
    using True unfolding t by (auto simp: lks_def enter_def)
  show ?thesis
    by (rule inv_stay [OF s, where c = c and k = k and x = "pushcli (cpu_of s c)"])
       (use c k l in \<open>auto simp: t enter_def cpu_ok_def pushcli_def\<close>)
next
  case False
  moreover have "owner s l \<noteq> Some c" using s k by (auto simp: smp_inv_def cpu_ok_def lks_def dest: spec [of _ c])
  ultimately have "take_lock c l k s = s" by (simp only: take_lock_def if_False)
  then show ?thesis using s by simp
qed

lemma inv_drop:
  assumes s: "smp_inv s" and k: "cpos s c = Unlock l k" shows "smp_inv (drop_lock c l k s)"
proof -
  let ?t = "drop_lock c l k s"
  have c: "cpu_ok s c" using s by (simp add: smp_inv_def)
  then have l: "owner s l = Some c" "l \<in> lks s c" using k by (simp_all add: cpu_ok_def lks_def)
  have n: "card (lks s c) \<ge> 1" using c l(2) by (metis One_nat_def Suc_leI card_gt_0_iff cpu_ok_def empty_iff)
  have "\<not> iflag (cpu_of s c)" "\<not> ncli (cpu_of s c) - 1 < 0" using c l(2) n by (auto simp: cpu_ok_def)
  then obtain x where x: "popcli (cpu_of s c) = Inr x" "ncli x = ncli (cpu_of s c) - 1" "ncli x \<noteq> 0 \<Longrightarrow> \<not> iflag x"
    by (simp add: popcli_def)
  have t: "?t = enter c k (s\<lparr>owner := (owner s)(l := None), cpu_of := (cpu_of s)(c := x)\<rparr>)"
    using l x by (simp add: drop_lock_def)
  have h: "lks ?t c = lks s c - {l}" "\<And>d. d \<noteq> c \<Longrightarrow> lks ?t d = lks s d"
    using l unfolding t by (auto simp: lks_def enter_def)
  have m: "int (card (lks s c - {l})) = int (card (lks s c)) - 1" using l(2) c n by (simp add: cpu_ok_def of_nat_diff)
  show ?thesis
  proof (rule inv_stay [OF s, where c = c and k = k and x = x])
    show "lks ?t c \<noteq> {} \<Longrightarrow> \<not> iflag x" using x(2,3) c m unfolding h(1) cpu_ok_def by (metis card_0_eq finite_Diff of_nat_0_eq_iff)
  qed (use c k l h m x(2) in \<open>auto simp: t enter_def cpu_ok_def\<close>)
qed

text \<open>A kernel function runs under the lock and leaves the processes other than the running one as they are, or woken.\<close>

lemma inv_kern:
  assumes s: "smp_inv s" and f: "f ((kern s)\<lparr>cur := proc_of s c\<rparr>) = Inr t" and l: "0 \<in> lks s c"
    and m: "moved (proc_of s c) s (s\<lparr>kern := t\<rparr>)" and k: "fits k (lks s c)"
    and n: "\<not> switching (cpos s c)" "sch k = sch (cpos s c)" "\<forall>i. k \<noteq> Back i"
      "\<And>p. proc_of s c = Some p \<Longrightarrow> fit_state k (state (ptable t p))"
  shows "smp_inv (run_kern c f k s)"
proof -
  have t: "run_kern c f k s = enter c k (s\<lparr>kern := t\<rparr>)" using f by (simp add: run_kern_def)
  have h: "lks (run_kern c f k s) d = lks s d" for d by (simp add: t lks_def enter_def)
  have c: "cpu_ok s c" using s by (simp add: smp_inv_def)
  have e: "kern (run_kern c f k s) = t" "cpos (run_kern c f k s) = (cpos s)(c := k)"
    "cpu_of (run_kern c f k s) = cpu_of s" "proc_of (run_kern c f k s) = proc_of s" "spos (run_kern c f k s) = spos s"
    "saved (run_kern c f k s) = saved s" by (simp_all add: t enter_def)
  have "moved (proc_of s c) s (run_kern c f k s)" using m by (simp add: moved_def e(1))
  then show ?thesis using c k l n
    by (intro inv_stay [OF s, where c = c and k = k and x = "cpu_of s c"]) (simp_all add: h e cpu_ok_def)
qed

lemma inv_sch:
  assumes "smp_inv s" "sch (cpos s c)" "\<not> switching (cpos s c)" shows "proc_of s c = None"
  using assms not_back [OF switching_back [OF assms(3)]] by (simp add: smp_inv_def cpu_ok_def)

lemma inv_proc:
  assumes "smp_inv s" "\<not> sch (cpos s c)"
  obtains p where "proc_of s c = Some p" "spos s c = Back p" "fit_state (cpos s c) (pst s p)"
proof -
  have "cpu_ok s c" using assms(1) by (simp add: smp_inv_def)
  then show ?thesis using assms(2) that unfolding cpu_ok_def by (simp only: if_False) blast
qed

lemma inv_fits: "smp_inv s \<Longrightarrow> fits (cpos s c) (lks s c)"
  by (simp add: smp_inv_def cpu_ok_def)

lemma inv_state: "smp_inv s \<Longrightarrow> proc_of s d = Some p \<Longrightarrow> fit_state (cpos s d) (pst s p)"
  by (simp add: smp_inv_def cpu_ok_def)

lemma inv_unique: "smp_inv s \<Longrightarrow> proc_of s c = Some p \<Longrightarrow> proc_of s d = Some p \<Longrightarrow> c = d"
  by (simp add: smp_inv_def)

text \<open>The scheduler switches to a process: it resumes where its context was saved.\<close>

lemma inv_pick:
  assumes s: "smp_inv s" and k: "cpos s c = Scan i" shows "smp_inv (pick c i s)"
proof (cases "i < NPROC \<and> pst s i = RUNNABLE")
  case False
  have "lks s c = {0}" using inv_fits [OF s, of c] k by simp
  then show ?thesis using False inv_enter [OF s, of "Scan (Suc i)" c] inv_enter [OF s, of "Unlock 0 Top" c] k
    by (auto simp: pick_def)
next
  case True
  let ?t = "enter c (saved s i) (s\<lparr>kern := upd_proc i (\<lambda>q. q\<lparr>state := RUNNING\<rparr>) (kern s),
    proc_of := (proc_of s)(c := Some i), spos := (spos s)(c := Back i)\<rparr>)"
  have t: "pick c i s = ?t" using True by (simp add: pick_def)
  have l: "lks s c = {0}" using inv_fits [OF s, of c] k by simp
  have h: "lks ?t d = lks s d" for d by (simp add: lks_def enter_def)
  have c: "cpu_ok s c" and sl: "slot_ok s p" for p using s by (auto simp: smp_inv_def)
  have n: "proc_of s c = None" using inv_sch [OF s] k by simp
  have d: "proc_of s d \<noteq> Some i" for d
  proof
    assume a: "proc_of s d = Some i"
    then have "fit_state (cpos s d) RUNNABLE" using inv_state [OF s a] True by simp
    moreover have "d \<noteq> c" using a n by auto
    ultimately show False using alone [OF s, of c d] l by simp
  qed
  have r: "calm (saved s i)" "fits (saved s i) {0}" using sl [of i] True d by (auto simp: slot_ok_def)
  have ps: "pst ?t q = (if q = i then RUNNING else pst s q)" for q by (simp add: enter_def upd_proc_def)
  show ?thesis unfolding t
  proof (rule inv_step [OF s, of c])
    show "cpu_ok ?t c" using c r l h ps unfolding cpu_ok_def by (simp add: enter_def calm_def)
    show "fit_state (cpos s d) (pst ?t p)" if "d \<noteq> c" "proc_of s d = Some p" for d p
      using inv_state [OF s that(2)] that(2) \<open>\<And>d. proc_of s d \<noteq> Some i\<close> [of d] ps [of p] by auto
    show "slot_ok ?t p" for p
    proof (cases "p = i")
      case True
      then show ?thesis using r by (intro slot_running [where c = c]) (auto simp: enter_def calm_def)
    next
      case False
      then show ?thesis using n by (intro slot_same [OF sl [of p]]) (auto simp: ps, auto simp: enter_def split: if_splits)
    qed
  qed (use h d in \<open>auto simp: enter_def\<close>)
qed

lemma inv_back:
  assumes s: "smp_inv s" and k: "cpos s c = Back i"
  shows "smp_inv (enter c (Scan (Suc i)) (s\<lparr>proc_of := (proc_of s)(c := None)\<rparr>))" (is "smp_inv ?t")
proof (rule inv_step [OF s, of c])
  have c: "cpu_ok s c" and sl: "slot_ok s p" for p using s by (auto simp: smp_inv_def)
  have h: "lks ?t d = lks s d" for d by (simp add: lks_def enter_def)
  show "cpu_ok ?t c" using c k h unfolding cpu_ok_def by (simp add: enter_def)
  have i: "proc_of s c = Some i" "pst s i \<noteq> RUNNING" using c k by (auto simp: cpu_ok_def)
  show "slot_ok ?t p" for p
  proof (cases "p = i")
    case True
    have "calm (saved s i) \<and> fits (saved s i) {0}" if "pst s i \<in> {EMBRYO, RUNNABLE, SLEEPING}"
      using sl [of i] that i k inv_unique [OF s i(1)] unfolding slot_ok_def by blast
    then show ?thesis using True i unfolding slot_ok_def by (simp add: enter_def)
  next
    case False
    then show ?thesis using i(1) by (intro slot_same [OF sl [of p]]) (auto simp: enter_def split: if_splits)
  qed
  show "cpos ?t d = cpos s d \<and> cpu_of ?t d = cpu_of s d \<and> proc_of ?t d = proc_of s d \<and> spos ?t d = spos s d \<and> lks ?t d = lks s d"
    if "d \<noteq> c" for d using that h by (simp add: enter_def)
qed (use inv_state [OF s] inv_unique [OF s] in \<open>auto simp: enter_def\<close>)

text \<open>The way out of a process: the checks of \<open>sched\<close> hold, and the context is saved.\<close>

lemma inv_sched:
  assumes s: "smp_inv s" and k: "cpos s c = Sched k" shows "smp_inv (sched c k s)"
proof -
  obtain p where p: "proc_of s c = Some p" "spos s c = Back p" "fit_state (Sched k) (pst s p)"
    using inv_proc [OF s, of c] k by auto
  have c: "cpu_ok s c" and sl: "slot_ok s q" for q using s by (auto simp: smp_inv_def)
  have l: "lks s c = {0}" and r: "k = Zombie_exit \<or> calm k \<and> fits k {0}" using c k by (auto simp: cpu_ok_def)
  let ?t = "enter c (Back p) (s\<lparr>saved := (saved s)(p := Sched_ret (intena (cpu_of s c)) k)\<rparr>)"
  have "0 \<in> lks s c" "ncli (cpu_of s c) = 1" "\<not> iflag (cpu_of s c)" "pst s p \<noteq> RUNNING" using c l p(3) by (auto simp: cpu_ok_def)
  then have t: "sched c k s = ?t" by (simp add: sched_def p lks_def)
  have h: "lks ?t d = lks s d" for d by (simp add: lks_def enter_def)
  show ?thesis unfolding t
  proof (rule inv_step [OF s, of c])
    show "cpu_ok ?t c" using c l h p unfolding cpu_ok_def by (simp add: enter_def) blast
    show "slot_ok ?t q" for q
    proof (cases "q = p")
      case True
      then show ?thesis using p r unfolding slot_ok_def by (auto simp: enter_def calm_def)
    next
      case False
      then show ?thesis using p(1) by (intro slot_same [OF sl [of q]]) (auto simp: enter_def split: if_splits)
    qed
  qed (use h inv_state [OF s] inv_unique [OF s] in \<open>auto simp: enter_def\<close>)
qed

text \<open>What the functions that run under the lock do to the states of processes.\<close>

lemma wakeup_moved: "moved p s (s\<lparr>kern := wakeup ch ((kern s)\<lparr>cur := x\<rparr>)\<rparr>)"
  by (simp add: moved_def wakeup_def wakeup1_def)

lemma kill_moved: "moved p s (s\<lparr>kern := snd (kill n ((kern s)\<lparr>cur := x\<rparr>))\<rparr>)"
  by (auto simp: moved_def kill_def upd_proc_def split: option.splits)

lemma exit_moved: "moved (Some p) s (s\<lparr>kern := exit_last p ((kern s)\<lparr>cur := x\<rparr>)\<rparr>)"
  unfolding moved_def using exit_last_effect(5) [of _ p "(kern s)\<lparr>cur := x\<rparr>"] by auto

lemma upd_moved: "moved (Some p) s (s\<lparr>kern := upd_proc p f ((kern s)\<lparr>cur := x\<rparr>)\<rparr>)"
  by (simp add: moved_def upd_proc_def)

lemma wait_moved:
  assumes "Process.wait k = Inr (r, t)"
  shows "(\<forall>j. state (ptable t j) = state (ptable k j) \<or> state (ptable k j) = ZOMBIE \<and> state (ptable t j) = UNUSED) \<and>
    (\<forall>j. state (ptable t j) = SLEEPING \<longrightarrow> ptable t j = ptable k j)"
proof (cases "\<exists>q z. cur k = Some q \<and> z < NPROC \<and> parent (ptable k z) = Some q \<and> state (ptable k z) = ZOMBIE")
  case True
  then obtain q z where z: "cur k = Some q" "z < NPROC" "parent (ptable k z) = Some q" "state (ptable k z) = ZOMBIE" by blast
  obtain i where i: "state (ptable k i) = ZOMBIE" "state (ptable t i) = UNUSED" "\<forall>j. j \<noteq> i \<longrightarrow> ptable t j = ptable k j"
    using wait_reaps(2) [OF z assms] by blast
  have "state (ptable t j) = state (ptable k j) \<or> state (ptable k j) = ZOMBIE \<and> state (ptable t j) = UNUSED" for j
    using i by (cases "j = i") simp_all
  moreover have "state (ptable t j) = SLEEPING \<Longrightarrow> ptable t j = ptable k j" for j using i by (cases "j = i") simp_all
  ultimately show ?thesis by blast
next
  case False
  then have "t = k" using assms
    by (auto simp: Process.wait_def myproc_def kbind_returns find_upt_Some split: option.splits if_splits)
  then show ?thesis by simp
qed

lemma allocproc_states:
  assumes "allocproc k = (r, t)"
  shows "case r of None \<Rightarrow> \<forall>q. state (ptable t q) = state (ptable k q)
     | Some np \<Rightarrow> state (ptable k np) = UNUSED \<and> (\<forall>q. state (ptable t q) = (if q = np then EMBRYO else state (ptable k q)))"
  using assms by (auto simp: allocproc_def Let_def upd_proc_def find_upt_Some kalloc_def split: option.splits if_splits)

lemma inv_alloc:
  assumes s: "smp_inv s" and k: "cpos s c = Alloc" shows "smp_inv (alloc c s)"
proof -
  obtain r t where rt: "allocproc (kern s) = (r, t)" by fastforce
  let ?t = "alloc c s"
  have t: "?t = enter c (Unlock 0 Run) (s\<lparr>kern := t, saved := (case r of None \<Rightarrow> saved s | Some p \<Rightarrow> (saved s)(p := Forkret))\<rparr>)"
    by (simp add: alloc_def rt)
  have h: "lks ?t d = lks s d" for d by (simp add: t lks_def enter_def)
  have f: "kern ?t = t" "cpos ?t = (cpos s)(c := Unlock 0 Run)" "cpu_of ?t = cpu_of s" "proc_of ?t = proc_of s" "spos ?t = spos s"
    by (simp_all add: t enter_def)
  have st: "pst ?t q = pst s q \<or> r = Some q \<and> pst s q = UNUSED \<and> pst ?t q = EMBRYO" for q
    using allocproc_states [OF rt] by (auto simp: f split: option.splits)
  have ok: "fit_state j (pst ?t q)" if "fit_state j (pst s q)" for j q using st [of q] that by (cases j) auto
  have c: "cpu_ok s c" using s by (simp add: smp_inv_def)
  obtain p where p: "proc_of s c = Some p" "spos s c = Back p" "pst s p = RUNNING" using inv_proc [OF s, of c] k by auto
  show ?thesis
  proof (rule inv_step [OF s, of c])
    show "cpu_ok ?t c" using c k p h f ok [of "Unlock 0 Run"] unfolding cpu_ok_def by simp
    show "slot_ok ?t q" for q
    proof (cases "proc_of s c = Some q")
      case True
      then show ?thesis by (intro slot_running [of _ c]) (simp_all add: f)
    next
      case False
      have o: "slot_ok s q" using s by (simp add: smp_inv_def)
      show ?thesis
      proof (cases "r = Some q \<and> pst s q = UNUSED")
        case True
        then have "saved ?t q = Forkret" by (simp add: t enter_def)
        moreover have "pst ?t q = EMBRYO" using True allocproc_states [OF rt] by (simp add: f)
        ultimately show ?thesis by (simp add: slot_ok_def calm_def)
      next
        case F: False
        then have "pst ?t q = pst s q" using st by blast
        moreover have "saved ?t q = saved s q"
          using F allocproc_states [OF rt] by (auto simp: t enter_def split: option.splits)
        ultimately show ?thesis using False by (intro slot_same [OF o]) (auto simp: f)
      qed
    qed
  qed (use h f ok inv_state [OF s] inv_unique [OF s] in auto)
qed

text \<open>A process runs a function of the kernel under the lock.\<close>

lemma inv_run:
  assumes s: "smp_inv s" and n: "\<not> sch (cpos s c)" "\<not> switching (cpos s c)" "\<not> sch k" and k: "0 \<in> lks s c" "fits k (lks s c)"
    and f: "\<And>p. proc_of s c = Some p \<Longrightarrow> pst s p = RUNNING \<Longrightarrow> \<exists>t. f ((kern s)\<lparr>cur := Some p\<rparr>) = Inr t \<and>
      moved (Some p) s (s\<lparr>kern := t\<rparr>) \<and> fit_state k (state (ptable t p))"
  shows "smp_inv (run_kern c f k s)"
proof -
  obtain p where p: "proc_of s c = Some p" "fit_state (cpos s c) (pst s p)" using inv_proc [OF s n(1)] .
  then obtain t where t: "f ((kern s)\<lparr>cur := proc_of s c\<rparr>) = Inr t" "moved (proc_of s c) s (s\<lparr>kern := t\<rparr>)"
    "fit_state k (state (ptable t p))" using f [of p] n(2) by auto
  show ?thesis using n k t p by (intro inv_kern [where f = f and t = t, OF s]) auto
qed

lemmas at_step = myproc_def upd_moved exit_moved wakeup_moved kill_moved exit_last_effect(1) calm_def

text \<open>Every step of a CPU keeps the invariant.\<close>

lemma inv_top:
  assumes s: "smp_inv s" and k: "cpos s c = Top" shows "smp_inv (cpu_step c Top s)"
proof -
  have "lks s c = {}" "cpu_ok s c" using inv_fits [OF s, of c] k s by (simp_all add: smp_inv_def)
  then show ?thesis using k
    by (intro inv_stay [OF s, where c = c and k = "Lock 0 (Scan 0)" and x = "(cpu_of s c)\<lparr>iflag := True\<rparr>"])
       (simp_all add: enter_def cpu_ok_def)
qed

lemma inv_sched_ret:
  assumes s: "smp_inv s" and k: "cpos s c = Sched_ret i k" shows "smp_inv (cpu_step c (Sched_ret i k) s)"
proof -
  obtain p where "proc_of s c = Some p" "pst s p = RUNNING" using inv_proc [OF s, of c] k by auto
  moreover have "cpu_ok s c" using s by (simp add: smp_inv_def)
  ultimately show ?thesis using k inv_fits [OF s, of c]
    by (intro inv_stay [OF s, where c = c and k = k and x = "(cpu_of s c)\<lparr>intena := i\<rparr>"])
       (simp_all add: enter_def cpu_ok_def calm_def switching_back)
qed

lemma inv_cpu_step:
  assumes s: "smp_inv s" shows "smp_inv (cpu_step c (cpos s c) s)"
proof -
  note F = inv_fits [OF s, of c]
  show ?thesis
  proof (cases "cpos s c")
    case Yield
    show ?thesis using F unfolding Yield cpu_step.simps
      by (intro inv_run [OF s]) (simp_all add: Yield at_step yield_enter_def, simp add: upd_proc_def)
  next
    case (Sleep_set ch l k)
    show ?thesis using F unfolding Sleep_set cpu_step.simps
      by (intro inv_run [OF s]) (simp_all add: Sleep_set at_step sleep_enter_def, simp_all add: upd_proc_def)
  next
    case (Tidy l k)
    show ?thesis using F unfolding Tidy cpu_step.simps
      by (intro inv_run [OF s]) (auto simp: Tidy at_step sleep_leave_def, simp_all add: upd_proc_def)
  next
    case Exit
    show ?thesis using F unfolding Exit cpu_step.simps
      by (intro inv_run [OF s]) (simp_all add: Exit at_step)
  next
    case (Wake ch)
    show ?thesis using F unfolding Wake cpu_step.simps
      by (intro inv_run [OF s]) (simp_all add: Wake at_step, simp add: wakeup_def wakeup1_def)
  next
    case (Kill n)
    show ?thesis using F unfolding Kill cpu_step.simps
      by (intro inv_run [OF s]) (simp_all add: Kill at_step, simp add: kill_def upd_proc_def split: option.splits)
  next
    case Forkret
    then show ?thesis using F by (simp add: inv_enter [OF s])
  qed (use s F inv_top inv_sched_ret in \<open>simp_all add: inv_pick inv_back inv_take inv_drop inv_sched inv_alloc\<close>)
qed

lemma inv_wait:
  assumes s: "smp_inv s" and k: "cpos s c = Wait" and w: "Process.wait ((kern s)\<lparr>cur := proc_of s c\<rparr>) = Inr (r, t)"
  shows "smp_inv (enter c (Unlock 0 Run) (s\<lparr>kern := t\<rparr>))"
proof -
  have m: "state (ptable t j) = pst s j \<or> pst s j = ZOMBIE \<and> state (ptable t j) = UNUSED" for j using wait_moved [OF w] by simp
  have "smp_inv (run_kern c (\<lambda>_. Inr t) (Unlock 0 Run) s)" using inv_fits [OF s, of c] k m
    by (intro inv_run [OF s]) (simp_all add: moved_def, metis procstate.distinct)
  then show ?thesis by (simp add: run_kern_def)
qed

lemma inv_child:
  assumes s: "smp_inv s" and e: "pst s p = EMBRYO" "st \<in> {RUNNABLE, UNUSED}" and k: "cpos s c = Run"
  shows "smp_inv (s\<lparr>kern := upd_proc p (\<lambda>q. q\<lparr>state := st\<rparr>) (kern s)\<rparr>)" (is "smp_inv ?t")
proof (rule inv_step [OF s, of c])
  have d: "proc_of s d \<noteq> Some p" for d
  proof
    assume "proc_of s d = Some p"
    from inv_state [OF s this] show False using e by (cases "cpos s d") auto
  qed
  show f: "fit_state (cpos s d) (pst ?t q)" if "proc_of s d = Some q" for d q using inv_state [OF s that] d [of d] that by (simp add: upd_proc_def)
  have "cpu_ok s c" using s by (simp add: smp_inv_def)
  then show "cpu_ok ?t c" using f [of c] unfolding cpu_ok_def by simp
  have o: "slot_ok s q" for q using s by (simp add: smp_inv_def)
  show "slot_ok ?t q" for q
  proof (cases "q = p")
    case True
    then show ?thesis using o [of p] e d unfolding slot_ok_def by (auto simp: upd_proc_def)
  qed (intro slot_same [OF o [of q]], simp_all add: upd_proc_def)
qed (use inv_unique [OF s] in auto)

lemma inv_flag [simp]: "smp_inv (s\<lparr>flag := b\<rparr>) = smp_inv s"
  by (simp add: smp_inv_def cpu_ok_def slot_ok_def)

lemma inv_call:
  assumes "smp_inv s" "cpos s c = Run" "fits k (lks s c)" "\<not> switching k" "\<not> sch k"
  shows "smp_inv (enter c k s)"
  using assms by (intro inv_enter) simp_all

lemma inv_smp_step:
  assumes "smp_step C L s t" "smp_inv s" "L \<noteq> 0"
  shows "smp_inv t"
  using assms(1)
proof (cases rule: smp_step.cases)
  case (call_cli c b)
  have "cpu_ok s c" using assms(2) by (simp add: smp_inv_def)
  then show ?thesis using call_cli
    by (intro inv_stay [OF assms(2), where c = c and k = Run and x = "(cpu_of s c)\<lparr>iflag := b\<rparr>"]) (auto simp: cpu_ok_def)
next
  case (wait_sleeps c ch)
  then show ?thesis using inv_fits [OF assms(2), of c] by (simp add: inv_enter [OF assms(2)] sleep_at_def calm_def)
next
  case (set_flag c)
  have s: "smp_inv (s\<lparr>flag := True\<rparr>)" using assms(2) by simp
  show ?thesis using set_flag inv_fits [OF assms(2), of c] by (simp add: inv_call [OF s] wakeup_at_def)
next
  case (call_release c l)
  then show ?thesis using inv_fits [OF assms(2), of c] by (simp add: inv_call [OF assms(2)])
next
  case (call_locked c k)
  then show ?thesis using inv_fits [OF assms(2), of c] by (auto simp: inv_call [OF assms(2)])
next
  case (call_table c k n)
  then show ?thesis using inv_fits [OF assms(2), of c] by (auto simp: inv_call [OF assms(2)])
next
  case (call_sleep c l ch)
  then show ?thesis using inv_fits [OF assms(2), of c] by (auto simp: inv_call [OF assms(2)] sleep_at_def calm_def insert_Diff_if)
next
  case (sleep_flag c)
  then show ?thesis using inv_fits [OF assms(2), of c] by (auto simp: inv_call [OF assms(2)] sleep_at_def calm_def insert_Diff_if)
next
  case (call_wakeup c ch)
  then show ?thesis using inv_fits [OF assms(2), of c] by (simp add: inv_call [OF assms(2)] wakeup_at_def)
next
  case (call_acquire c l)
  then show ?thesis using inv_fits [OF assms(2), of c] by (simp add: inv_call [OF assms(2)])
qed (use assms(2) in \<open>auto simp: inv_cpu_step inv_wait inv_child\<close>)

lemma smp_inv_start:
  assumes s: "smp_start s" shows "smp_inv s"
proof -
  have "slot_ok s p" for p
  proof -
    have "pst s p = RUNNABLE \<and> saved s p = Forkret \<or> pst s p = UNUSED" using s by (simp add: smp_start_def)
    then show ?thesis by (auto simp: slot_ok_def calm_def)
  qed
  then show ?thesis using s by (simp add: smp_inv_def smp_start_def cpu_ok_def lks_def)
qed

lemma smp_inv_reach: "smp_reach C L s \<Longrightarrow> L \<noteq> 0 \<Longrightarrow> smp_inv s"
  by (induction rule: smp_reach.induct) (auto simp: smp_inv_start inv_smp_step)

section \<open>No wakeup is lost\<close>

definition waking :: "chan \<Rightarrow> pos \<Rightarrow> bool" where
  "waking C k \<longleftrightarrow> k \<in> {wakeup_at C, Wake C}"

definition wake_inv :: "chan \<Rightarrow> nat \<Rightarrow> smp \<Rightarrow> bool" where
  "wake_inv C L s \<longleftrightarrow>
     (flag s \<longrightarrow> (\<forall>p<NPROC. pst s p = SLEEPING \<longrightarrow> chan (ptable (kern s) p) = Some C \<longrightarrow> (\<exists>c. waking C (cpos s c)))) \<and>
     (\<forall>c. dozing C (cpos s c) \<longrightarrow> cpos s c \<in> {Lock 0 (Unlock L (Sleep_set C L Run)), Unlock L (Sleep_set C L Run)} \<and> \<not> flag s \<or>
        cpos s c = Sleep_set C L Run \<and> (flag s \<longrightarrow> (\<exists>c. waking C (cpos s c))))"

lemma wake_dozing:
  assumes "wake_inv C L s" "dozing C (cpos s c)"
  shows "cpos s c \<in> {Lock 0 (Unlock L (Sleep_set C L Run)), Unlock L (Sleep_set C L Run)} \<and> \<not> flag s \<or>
    cpos s c = Sleep_set C L Run \<and> (flag s \<longrightarrow> (\<exists>c. waking C (cpos s c)))"
  using assms unfolding wake_inv_def by blast

text \<open>Steps that put no process to sleep on the channel and are not the end of a wakeup of it.\<close>

lemma wake_other:
  assumes "wake_inv C L s" "\<And>d. d \<noteq> c \<Longrightarrow> cpos t d = cpos s d" "flag t = flag s"
    "\<And>p. p < NPROC \<Longrightarrow> pst t p = SLEEPING \<Longrightarrow> chan (ptable (kern t) p) = Some C \<Longrightarrow>
      pst s p = SLEEPING \<and> chan (ptable (kern s) p) = Some C"
    "waking C (cpos s c) \<Longrightarrow> waking C (cpos t c)" "\<not> dozing C (cpos t c)"
  shows "wake_inv C L t"
proof -
  have w: "\<exists>d. waking C (cpos t d)" if "\<exists>d. waking C (cpos s d)" using that assms(2,5) by metis
  have "dozing C (cpos s d) \<and> cpos t d = cpos s d" if "dozing C (cpos t d)" for d using that assms(2,6) by (cases "d = c") auto
  then show ?thesis using assms(1,3,4) w unfolding wake_inv_def by metis
qed

text \<open>A CPU that goes to sleep on the channel holds \<open>ptable.lock\<close> from before it lets go of the other lock.\<close>

lemma wake_sleeper:
  assumes "wake_inv C L s" "\<And>d. d \<noteq> c \<Longrightarrow> cpos t d = cpos s d" "flag t = flag s"
    "\<And>p. ptable (kern t) p = ptable (kern s) p"
    "dozing C (cpos s c)" "cpos t c \<in> {Lock 0 (Unlock L (Sleep_set C L Run)), Unlock L (Sleep_set C L Run)} \<or>
      cpos t c = Sleep_set C L Run \<and> \<not> flag s"
    "\<not> waking C (cpos s c)" "cpos s c \<noteq> Sleep_set C L Run"
  shows "wake_inv C L t"
proof -
  have w: "\<exists>d. waking C (cpos t d)" if "\<exists>d. waking C (cpos s d)" using that assms(2,7) by metis
  have f: "\<not> flag s" using assms(1,5,8) unfolding wake_inv_def by blast
  show ?thesis unfolding wake_inv_def using assms(1,2,3,4,5,6,8) w f unfolding wake_inv_def by metis
qed

lemma sleep_set_holds:
  assumes "smp_inv s" "cpos s c = Sleep_set C L k" "0 \<in> lks s d" shows "c = d"
  using inv_fits [OF assms(1), of c] assms(2,3) owner_unique [of 0 s c d] by simp

lemma wake_done:
  assumes w: "wake_inv C L s" and s: "smp_inv s" and k: "cpos s c = Wake C"
  shows "wake_inv C L (cpu_step c (Wake C) s)" (is "wake_inv C L ?t")
proof -
  have l: "0 \<in> lks s c" using inv_fits [OF s, of c] k by simp
  have t: "cpos ?t = (cpos s)(c := Unlock 0 Run)" "flag ?t = flag s" by (simp_all add: run_kern_def enter_def)
  have "\<not> (pst ?t p = SLEEPING \<and> chan (ptable (kern ?t) p) = Some C)" if "p < NPROC" for p
    using that by (simp add: run_kern_def enter_def wakeup_def wakeup1_def)
  moreover have "cpos s d \<noteq> Sleep_set C L Run" for d using sleep_set_holds [OF s _ l, of d] k by auto
  ultimately show ?thesis using w unfolding wake_inv_def t by auto
qed

lemma wake_asleep:
  assumes w: "wake_inv C L s" and s: "smp_inv s" and k: "cpos s c = Sleep_set C L Run"
  shows "wake_inv C L (cpu_step c (Sleep_set C L Run) s)" (is "wake_inv C L ?t")
proof -
  have l: "0 \<in> lks s c" using inv_fits [OF s, of c] k by simp
  obtain p where p: "proc_of s c = Some p" using inv_proc [OF s, of c] k by auto
  have t: "cpos ?t = (cpos s)(c := Sched (Tidy L Run))" "flag ?t = flag s"
    by (simp_all add: run_kern_def enter_def sleep_enter_def p)
  have "\<exists>d. waking C (cpos s d)" if "flag s" using wake_dozing [OF w, of c] that k by simp
  then have f: "\<exists>d. waking C (cpos ?t d)" if "flag s" using that k unfolding t by (metis fun_upd_apply pos.distinct waking_def wakeup_at_def empty_iff insert_iff)
  have "cpos s d \<noteq> Sleep_set C L Run" if "d \<noteq> c" for d using sleep_set_holds [OF s _ l, of d] that by auto
  then show ?thesis using w f unfolding wake_inv_def t by auto
qed

lemmas step_defs = enter_def take_lock_def drop_lock_def run_kern_def pick_def sched_def alloc_def

lemma step_frame:
  "d \<noteq> c \<Longrightarrow> cpos (cpu_step c k s) d = cpos s d" "flag (cpu_step c k s) = flag s"
  by (cases k; simp add: step_defs split: sum.splits option.splits prod.splits)+

lemma exit_last_chan: "chan (ptable (exit_last p s) q) = chan (ptable s q)"
proof -
  have "chan (ptable (fold (abandon p) xs u) q) = chan (ptable u q)" for xs q and u :: "'a proc_state_scheme"
    by (induction xs arbitrary: u) (simp_all add: abandon_def Let_def upd_proc_def wakeup1_def)
  then show ?thesis by (simp add: exit_last_def Let_def upd_proc_def wakeup1_def)
qed

lemma allocproc_chan: "allocproc k = (r, t) \<Longrightarrow> chan (ptable t q) = chan (ptable k q)"
  by (auto simp: allocproc_def Let_def upd_proc_def kalloc_def split: option.splits if_splits)

text \<open>No process falls asleep on the channel in a step from another position.\<close>

lemma step_sleepers:
  assumes s: "smp_inv s" and n: "\<not> dozing C (cpos s c)"
    and t: "pst (cpu_step c (cpos s c) s) p = SLEEPING" "chan (ptable (kern (cpu_step c (cpos s c) s)) p) = Some C"
  shows "pst s p = SLEEPING \<and> chan (ptable (kern s) p) = Some C"
proof (cases "cpos s c")
  case Alloc
  obtain r k where k: "allocproc (kern s) = (r, k)" by fastforce
  show ?thesis using t allocproc_states [OF k] allocproc_chan [OF k, of p] unfolding Alloc
    by (auto simp: alloc_def k enter_def split: option.splits if_splits)
next
  case Exit
  obtain q where q: "proc_of s c = Some q" "pst s q = RUNNING" using inv_proc [OF s, of c] Exit by auto
  show ?thesis using t exit_last_effect(1) [of q "(kern s)\<lparr>cur := Some q\<rparr>"]
      exit_last_effect(5) [of p q "(kern s)\<lparr>cur := Some q\<rparr>"] unfolding Exit
    by (cases "p = q") (auto simp: run_kern_def myproc_def q exit_last_chan enter_def)
qed (use t n in \<open>auto simp: step_defs upd_proc_def yield_enter_def sleep_enter_def sleep_leave_def myproc_def wakeup_def wakeup1_def
       kill_def split: sum.splits option.splits if_splits\<close>)

lemma step_awake:
  assumes s: "smp_inv s" and n: "\<not> dozing C (cpos s c)"
  shows "\<not> dozing C (cpos (cpu_step c (cpos s c) s) c)"
proof (cases "cpos s c")
  case (Scan i)
  have "calm (saved s i)" if "pst s i = RUNNABLE"
  proof -
    have "switching (cpos s d)" if "proc_of s d = Some i" for d
      using inv_state [OF s that] \<open>pst s i = RUNNABLE\<close> by (cases "cpos s d") auto
    moreover have "proc_of s c = None" using inv_sch [OF s] Scan by simp
    ultimately have "proc_of s d \<noteq> Some i" for d using alone [OF s, of c d] inv_fits [OF s, of c] Scan by (cases "d = c") auto
    moreover have "slot_ok s i" using s by (simp add: smp_inv_def)
    ultimately show ?thesis using that by (simp add: slot_ok_def)
  qed
  then show ?thesis using Scan by (simp add: pick_def enter_def calm_def)
next
  case (Sched k)
  obtain p where p: "proc_of s c = Some p" "spos s c = Back p" using inv_proc [OF s, of c] Sched by auto
  show ?thesis using Sched p by (simp add: sched_def enter_def)
qed (use n inv_fits [OF s, of c] in \<open>auto simp: step_defs calm_def split: sum.splits option.splits prod.splits\<close>)

lemma lock_cases:
  "cpos (take_lock c l k s) c \<in> {cpos s c, k, Panicked ''acquire''}"
  "cpos (drop_lock c l k s) c = k \<or> (\<exists>m. cpos (drop_lock c l k s) c = Panicked m)"
  "kern (take_lock c l k s) = kern s" "kern (drop_lock c l k s) = kern s"
  "d \<noteq> c \<Longrightarrow> cpos (take_lock c l k s) d = cpos s d" "flag (take_lock c l k s) = flag s"
  "d \<noteq> c \<Longrightarrow> cpos (drop_lock c l k s) d = cpos s d" "flag (drop_lock c l k s) = flag s"
  by (auto simp: take_lock_def drop_lock_def enter_def split: sum.splits)

lemma wake_cpu_step:
  assumes w: "wake_inv C L s" and s: "smp_inv s" and L: "L \<noteq> 0"
  shows "wake_inv C L (cpu_step c (cpos s c) s)" (is "wake_inv C L ?t")
proof (cases "dozing C (cpos s c)")
  case True
  have np: "cpos ?t c \<noteq> Panicked m" for m using inv_fits [OF inv_cpu_step [OF s, of c], of c] by auto
  consider "cpos s c = Sleep_set C L Run" | "cpos s c = Lock 0 (Unlock L (Sleep_set C L Run))" | "cpos s c = Unlock L (Sleep_set C L Run)"
    using wake_dozing [OF w True] by auto
  then show ?thesis
  proof cases
    case 1
    then show ?thesis using wake_asleep [OF w s] by simp
  next
    case 2
    then have "cpos ?t c = cpos s c \<or> cpos ?t c = Unlock L (Sleep_set C L Run)" using lock_cases(1) [of c 0 _ s] np [of "''acquire''"] by auto
    then show ?thesis using True 2
      by (intro wake_sleeper [OF w, of c]) (auto simp: lock_cases(3-8) waking_def wakeup_at_def)
  next
    case 3
    then have "cpos ?t c = Sleep_set C L Run" using lock_cases(2) [of c L _ s] np by auto
    then show ?thesis using True wake_dozing [OF w True] 3
      by (intro wake_sleeper [OF w, of c]) (auto simp: lock_cases(3-8) waking_def wakeup_at_def)
  qed
next
  case False
  show ?thesis
  proof (cases "cpos s c = Wake C")
    case True
    then show ?thesis using wake_done [OF w s] by simp
  next
    case F: False
    have "waking C (cpos ?t c)" if "waking C (cpos s c)" using that F inv_fits [OF s, of c]
      by (auto simp: waking_def wakeup_at_def take_lock_def enter_def lks_def)
    then show ?thesis using step_sleepers [OF s False] step_awake [OF s False]
      by (intro wake_other [OF w, of c]) (auto simp: step_frame)
  qed
qed

text \<open>A call from \<open>Run\<close> that is not the one of a sleeper.\<close>

lemma wake_call:
  assumes "wake_inv C L s" "cpos s c = Run" "\<not> dozing C k" shows "wake_inv C L (enter c k s)"
  using assms by (intro wake_other [OF assms(1), of c]) (auto simp: enter_def waking_def wakeup_at_def)

lemma wake_step:
  assumes t: "smp_step C L s t" and w: "wake_inv C L s" and s: "smp_inv s" and L: "L \<noteq> 0" and C: "\<And>q. C \<noteq> ChProc q"
  shows "wake_inv C L t"
  using t
proof (cases rule: smp_step.cases)
  case (next_step c)
  then show ?thesis using wake_cpu_step [OF w s L] by simp
next
  case (wait_returns c r k)
  have m: "ptable k j = ptable (kern s) j" if "state (ptable k j) = SLEEPING" for j using wait_moved [OF wait_returns(3)] that by simp
  show ?thesis using wait_returns(1,2) m by (intro wake_other [OF w, of c]) (simp_all add: enter_def waking_def wakeup_at_def)
next
  case (wait_sleeps c ch)
  have "\<exists>q. ch = ChProc q" using wait_sleeps(3)
    by (auto simp: Process.wait_def myproc_def kbind_stops kfree_no_sleep freevm_no_sleep split: option.splits if_splits)
  then show ?thesis using wait_sleeps C by (intro wake_other [OF w, of c]) (auto simp: enter_def sleep_at_def waking_def wakeup_at_def)
next
  case (sleep_flag c)
  then show ?thesis using w L unfolding wake_inv_def by (auto simp: enter_def sleep_at_def waking_def wakeup_at_def)
next
  case (set_flag c)
  have l: "d = c" if "dozing C (cpos s d)" "cpos s d \<noteq> Sleep_set C L Run" for d
  proof -
    have "L \<in> lks s d" using wake_dozing [OF w that(1)] that(2) inv_fits [OF s, of d] L by auto
    then show ?thesis using owner_unique set_flag(3) by blast
  qed
  have "waking C (cpos t c)" using set_flag(1) by (simp add: enter_def waking_def)
  moreover have "cpos t d = Sleep_set C L Run" if "dozing C (cpos t d)" for d
    using l [of d] that set_flag(1,2) wake_dozing [OF w, of d] by (cases "d = c") (auto simp: enter_def wakeup_at_def)
  ultimately show ?thesis unfolding wake_inv_def by blast
next
  case (clear_flag c)
  then show ?thesis using w unfolding wake_inv_def by auto
next
  case (call_cli c b)
  then show ?thesis by (intro wake_other [OF w, of c]) auto
next
  case (new_child c p st)
  then show ?thesis by (intro wake_other [OF w, of c]) (auto simp: upd_proc_def split: if_splits)
next
  case (call_sleep c l ch)
  then show ?thesis using wake_call [OF w] by (simp add: sleep_at_def)
qed (use wake_call [OF w] in \<open>auto simp: wakeup_at_def\<close>)

lemma wake_start:
  assumes s: "smp_start s" shows "wake_inv C L s"
proof -
  have "pst s p \<noteq> SLEEPING" for p
  proof -
    have "pst s p = RUNNABLE \<or> pst s p = UNUSED" using s by (auto simp: smp_start_def)
    then show ?thesis by auto
  qed
  then show ?thesis using s by (simp add: wake_inv_def smp_start_def)
qed

lemma wake_reach: "smp_reach C L s \<Longrightarrow> L \<noteq> 0 \<Longrightarrow> (\<And>q. C \<noteq> ChProc q) \<Longrightarrow> wake_inv C L s"
proof (induction rule: smp_reach.induct)
  case (step s t)
  then show ?case using wake_step smp_inv_reach by blast
qed (simp add: wake_start)

section \<open>What holds in every run\<close>

text \<open>
  C9: However the CPUs interleave, the scheduler is safe: none of the checks of \<open>sched\<close>, \<open>acquire\<close>,
  \<open>release\<close>, \<open>popcli\<close> and \<open>sleep\<close> fails, no zombie runs again, a process is on at most one CPU, and
  whenever \<open>ptable.lock\<close> is free the running processes are exactly the ones the CPUs run. A CPU with a
  lock has interrupts off, and counts its locks in \<open>ncli\<close>.
\<close>

theorem scheduler_safe:
  assumes "smp_reach C L s" "L \<noteq> 0"
  shows "(\<forall>c m. cpos s c \<noteq> Panicked m) \<and>
    (\<forall>c d p. proc_of s c = Some p \<longrightarrow> proc_of s d = Some p \<longrightarrow> c = d) \<and>
    (owner s 0 = None \<longrightarrow> (\<forall>p. state (ptable (kern s) p) = RUNNING \<longleftrightarrow> (\<exists>c. proc_of s c = Some p))) \<and>
    (\<forall>c. ncli (cpu_of s c) = int (card {l. owner s l = Some c}) \<and> (\<forall>l. owner s l = Some c \<longrightarrow> \<not> iflag (cpu_of s c)))"
proof -
  have s: "smp_inv s" by (rule smp_inv_reach [OF assms])
  have np: "cpos s c \<noteq> Panicked m" for c m using inv_fits [OF s, of c] by auto
  have run: "pst s p = RUNNING \<longleftrightarrow> (\<exists>c. proc_of s c = Some p)" if "owner s 0 = None" for p
  proof
    show "\<exists>c. proc_of s c = Some p" if "pst s p = RUNNING" using s that by (simp add: smp_inv_def slot_ok_def)
    assume "\<exists>c. proc_of s c = Some p"
    then obtain c where c: "proc_of s c = Some p" by blast
    have "\<not> switching (cpos s c)" using switching_lock [OF inv_fits [OF s, of c]] that by (auto simp: lks_def)
    then show "pst s p = RUNNING" using inv_state [OF s c] by simp
  qed
  have "cpu_ok s c" for c using s by (simp add: smp_inv_def)
  then have "ncli (cpu_of s c) = int (card {l. owner s l = Some c})" "owner s l = Some c \<Longrightarrow> \<not> iflag (cpu_of s c)" for c l
    by (auto simp: cpu_ok_def lks_def)
  then show ?thesis using np run inv_unique [OF s] by blast
qed

text \<open>Two processes, both ready to run, and CPU 0 at position \<open>k\<close>.\<close>

definition ex_smp :: "proc \<Rightarrow> proc \<Rightarrow> nat option \<Rightarrow> nat option \<Rightarrow> nat option \<Rightarrow> cpu \<Rightarrow> nat option \<Rightarrow> pos \<Rightarrow> pos \<Rightarrow> pos \<Rightarrow> bool \<Rightarrow> smp" where
  "ex_smp a b cu o0 o1 x pr k sa sp f =
     \<lparr>kern = \<lparr>mem = (\<lambda>_. 0), kernel_end = 0x80110000, use_lock = True, freelist = 0,
       ptable = (\<lambda>p. if p = 0 then a else if p = 1 then b else ex_proc), nextpid = 3, initproc = Some 0, cur = cu,
       trapret_addr = 0, forkret_addr = 0\<rparr>,
      owner = (\<lambda>l. if l = 0 then o0 else if l = 1 then o1 else None),
      cpu_of = (\<lambda>c. if c = 0 then x else \<lparr>ncli = 0, intena = False, iflag = False\<rparr>),
      proc_of = (\<lambda>c. if c = 0 then pr else None), cpos = (\<lambda>c. if c = 0 then k else Top),
      saved = (\<lambda>p. if p = 0 then sa else Forkret), spos = (\<lambda>c. if c = 0 then sp else Top), flag = f\<rparr>"

abbreviation ex_p :: "procstate \<Rightarrow> proc" where "ex_p st \<equiv> ex_proc\<lparr>state := st\<rparr>"
abbreviation ex_c :: "int \<Rightarrow> bool \<Rightarrow> bool \<Rightarrow> cpu" where "ex_c n i f \<equiv> \<lparr>ncli = n, intena = i, iflag = f\<rparr>"

definition ex_smp0 :: smp where
  "ex_smp0 = ex_smp (ex_p RUNNABLE) (ex_p RUNNABLE) None None None (ex_c 0 False False) None Top Forkret Top False"

lemma ex_smp_start: "smp_start ex_smp0"
  by (simp add: smp_start_def ex_smp0_def ex_smp_def ex_proc_def)

theorem scheduler_safe_witness: "smp_reach ChTicks 1 ex_smp0 \<and> (\<forall>c m. cpos ex_smp0 c \<noteq> Panicked m)"
  using scheduler_safe [of ChTicks 1 ex_smp0] smp_reach.start [OF ex_smp_start] by simp

text \<open>
  C10: No wakeup is lost: a condition is set under the lock \<open>L\<close> and then \<open>wakeup C\<close> is called, and a process
  that has found it unset under \<open>L\<close> calls \<open>sleep C L\<close>. If a process is asleep on \<open>C\<close> although the condition
  holds, some CPU is in \<open>wakeup C\<close> and has not reached the scan of the table yet, which makes the process runnable.
\<close>

theorem no_lost_wakeup:
  assumes "smp_reach C L s" "L \<noteq> 0" "\<And>q. C \<noteq> ChProc q" "flag s"
    "p < NPROC" "state (ptable (kern s) p) = SLEEPING" "chan (ptable (kern s) p) = Some C"
  shows "\<exists>c. cpos s c = wakeup_at C \<or>
    cpos s c = Wake C \<and> state (ptable (kern (cpu_step c (cpos s c) s)) p) = RUNNABLE"
proof -
  obtain c where "waking C (cpos s c)" using wake_reach [OF assms(1-3)] assms(4-7) unfolding wake_inv_def by blast
  moreover have "state (ptable (kern (cpu_step c (Wake C) s)) p) = RUNNABLE"
    using assms(5-7) by (simp add: run_kern_def enter_def wakeup_def wakeup1_def)
  ultimately show ?thesis by (intro exI [of _ c]) (auto simp: waking_def)
qed

lemma smp_next: "smp_reach C L s \<Longrightarrow> cpu_step c (cpos s c) s = t \<Longrightarrow> smp_reach C L t"
  using smp_reach.step smp_step.next_step by blast

lemmas ex_run = ex_smp_def step_defs fun_eq_iff pushcli_def popcli_def NPROC_def upd_proc_def sleep_enter_def myproc_def

lemma ex_first_steps: "smp_reach ChTicks 1 (ex_smp (ex_p RUNNING) (ex_p RUNNABLE) None None None (ex_c 0 True True) (Some 0) Run Forkret (Back 0) False)"
proof -
  have "smp_reach ChTicks 1 ex_smp0" by (rule smp_reach.start [OF ex_smp_start])
  then have "smp_reach ChTicks 1 (ex_smp (ex_p RUNNABLE) (ex_p RUNNABLE) None None None (ex_c 0 False True) None (Lock 0 (Scan 0)) Forkret Top False)"
    by (rule smp_next [where c = 0]) (auto simp: ex_run ex_smp0_def)
  then have "smp_reach ChTicks 1 (ex_smp (ex_p RUNNABLE) (ex_p RUNNABLE) None (Some 0) None (ex_c 1 True False) None (Scan 0) Forkret Top False)"
    by (rule smp_next [where c = 0]) (auto simp: ex_run)
  then have "smp_reach ChTicks 1 (ex_smp (ex_p RUNNING) (ex_p RUNNABLE) None (Some 0) None (ex_c 1 True False) (Some 0) Forkret Forkret (Back 0) False)"
    by (rule smp_next [where c = 0]) (auto simp: ex_run)
  then have "smp_reach ChTicks 1 (ex_smp (ex_p RUNNING) (ex_p RUNNABLE) None (Some 0) None (ex_c 1 True False) (Some 0) (Unlock 0 Run) Forkret (Back 0) False)"
    by (rule smp_next [where c = 0]) (auto simp: ex_run)
  then show ?thesis by (rule smp_next [where c = 0]) (auto simp: ex_run)
qed

text \<open>The first process goes to sleep on the channel.\<close>

lemma ex_asleep:
  defines "a \<equiv> (ex_p SLEEPING)\<lparr>chan := Some ChTicks\<rparr>" and "sa \<equiv> Sched_ret True (Tidy 1 Run)"
  shows "smp_reach ChTicks 1 (ex_smp a (ex_p RUNNABLE) (Some 0) (Some 0) None (ex_c 1 True False) (Some 0) (Back 0) sa (Back 0) False)"
proof -
  let ?s = "\<lambda>o0 o1 n k. ex_smp (ex_p RUNNING) (ex_p RUNNABLE) None o0 o1 (ex_c n True (n = 0)) (Some 0) k Forkret (Back 0) False"
  have "smp_reach ChTicks 1 (?s None None 0 Run)" using ex_first_steps by simp
  then have "smp_reach ChTicks 1 (enter 0 (Lock 1 Run) (?s None None 0 Run))"
    by (rule smp_reach.step) (rule smp_step.call_acquire, simp_all add: ex_smp_def lks_def)
  then have "smp_reach ChTicks 1 (?s None (Some 0) 1 Run)" by (rule smp_next [where c = 0]) (auto simp: ex_run)
  then have "smp_reach ChTicks 1 (enter 0 (sleep_at ChTicks 1 Run) (?s None (Some 0) 1 Run))"
    by (rule smp_reach.step) (rule smp_step.sleep_flag, auto simp: ex_smp_def lks_def split: if_splits)
  then have "smp_reach ChTicks 1 (?s (Some 0) (Some 0) 2 (Unlock 1 (Sleep_set ChTicks 1 Run)))"
    by (rule smp_next [where c = 0]) (auto simp: ex_run sleep_at_def)
  then have "smp_reach ChTicks 1 (?s (Some 0) None 1 (Sleep_set ChTicks 1 Run))"
    by (rule smp_next [where c = 0]) (auto simp: ex_run)
  then have "smp_reach ChTicks 1 (ex_smp a (ex_p RUNNABLE) (Some 0) (Some 0) None (ex_c 1 True False) (Some 0) (Sched (Tidy 1 Run)) Forkret (Back 0) False)"
    by (rule smp_next [where c = 0]) (auto simp: ex_run a_def)
  then show ?thesis by (rule smp_next [where c = 0]) (auto simp: ex_run a_def sa_def)
qed

text \<open>The second one sets the condition and is about to wake it up.\<close>

lemma ex_waking:
  defines "a \<equiv> (ex_p SLEEPING)\<lparr>chan := Some ChTicks\<rparr>" and "sa \<equiv> Sched_ret True (Tidy 1 Run)"
  shows "\<exists>s. smp_reach ChTicks 1 s \<and> flag s \<and> ptable (kern s) 0 = a"
proof -
  let ?s = "\<lambda>o0 o1 n k. ex_smp a (ex_p RUNNING) (Some 0) o0 o1 (ex_c n True (n = 0)) (Some 1) k sa (Back 1) False"
  have "smp_reach ChTicks 1 (ex_smp a (ex_p RUNNABLE) (Some 0) (Some 0) None (ex_c 1 True False) None (Scan 1) sa (Back 0) False)"
    using ex_asleep by (rule smp_next [where c = 0]) (auto simp: ex_run a_def sa_def)
  then have "smp_reach ChTicks 1 (?s (Some 0) None 1 Forkret)" by (rule smp_next [where c = 0]) (auto simp: ex_run)
  then have "smp_reach ChTicks 1 (?s (Some 0) None 1 (Unlock 0 Run))" by (rule smp_next [where c = 0]) (auto simp: ex_run)
  then have "smp_reach ChTicks 1 (?s None None 0 Run)" by (rule smp_next [where c = 0]) (auto simp: ex_run)
  then have "smp_reach ChTicks 1 (enter 0 (Lock 1 Run) (?s None None 0 Run))"
    by (rule smp_reach.step) (rule smp_step.call_acquire, simp_all add: ex_smp_def lks_def)
  then have "smp_reach ChTicks 1 (?s None (Some 0) 1 Run)" by (rule smp_next [where c = 0]) (auto simp: ex_run)
  then have "smp_reach ChTicks 1 (enter 0 (wakeup_at ChTicks) ((?s None (Some 0) 1 Run)\<lparr>flag := True\<rparr>))"
    by (rule smp_reach.step) (rule smp_step.set_flag, simp_all add: ex_smp_def lks_def)
  then show ?thesis
    by (intro exI [of _ "enter 0 (wakeup_at ChTicks) ((?s None (Some 0) 1 Run)\<lparr>flag := True\<rparr>)"] conjI) (simp_all add: enter_def ex_smp_def)
qed

theorem no_lost_wakeup_witness:
  "\<exists>s c. smp_reach ChTicks 1 s \<and> flag s \<and> state (ptable (kern s) 0) = SLEEPING \<and> (cpos s c = wakeup_at ChTicks \<or> cpos s c = Wake ChTicks)"
proof -
  obtain s where s: "smp_reach ChTicks 1 s" "flag s" "ptable (kern s) 0 = (ex_p SLEEPING)\<lparr>chan := Some ChTicks\<rparr>"
    using ex_waking by blast
  show ?thesis using no_lost_wakeup [OF s(1) _ _ s(2), of 0] s by (auto simp: NPROC_def)
qed

end
