(* ===== verification/Grep.thy ===== *)
theory Grep
  imports Fs
begin

text \<open>
  The program grep (grep.c): the regular expression matcher, shown to decide the language of its
  patterns, and the loop that reads a file into a buffer and prints the lines that match. The file is
  the sequence of results of \<open>read\<close>, the output the bytes passed to \<open>write\<close>.
\<close>

section \<open>The matcher\<close>

text \<open>Pattern and text are strings without their terminating zero byte; \<open>^ $ . *\<close> are 94, 36, 46 and 42.\<close>

function matchhere :: "cstring \<Rightarrow> cstring \<Rightarrow> bool" and matchstar :: "u8 \<Rightarrow> cstring \<Rightarrow> cstring \<Rightarrow> bool" where
  "matchhere re text =
     (if re = [] then True
      else if take 1 (tl re) = [42] then matchstar (hd re) (drop 2 re) text
      else if hd re = 36 \<and> tl re = [] then text = []
      else if text \<noteq> [] \<and> (hd re = 46 \<or> hd re = hd text) then matchhere (tl re) (tl text)
      else False)"
| "matchstar c re text =
     (if matchhere re text then True
      else if text \<noteq> [] \<and> (hd text = c \<or> c = 46) then matchstar c re (tl text)
      else False)"
  by pat_completeness auto
termination
  by (relation "measures [\<lambda>x. case x of Inl (re, text) \<Rightarrow> length re | Inr (c, re, text) \<Rightarrow> length re,
        \<lambda>x. case x of Inl (re, text) \<Rightarrow> length text | Inr (c, re, text) \<Rightarrow> length text,
        \<lambda>x. case x of Inl _ \<Rightarrow> 0 | Inr _ \<Rightarrow> 1]") auto

declare matchhere.simps [simp del] matchstar.simps [simp del]

fun match_from :: "cstring \<Rightarrow> cstring \<Rightarrow> bool" where
  "match_from re text = (if matchhere re text then True else case text of [] \<Rightarrow> False | _ # text \<Rightarrow> match_from re text)"

definition match :: "cstring \<Rightarrow> cstring \<Rightarrow> bool" where
  "match re text = (if take 1 re = [94] then matchhere (tl re) text else match_from re text)"

declare match_from.simps [simp del]

section \<open>The language of a pattern\<close>

text \<open>A pattern is a sequence of single characters and starred ones, with a mark for the end of the text.\<close>

datatype item = Chr u8 | Many u8 | Eot

fun items :: "cstring \<Rightarrow> item list" where
  "items [] = []"
| "items (c # re) =
     (case re of d # re' \<Rightarrow> if d = 42 then Many c # items re' else Chr c # items re
      | [] \<Rightarrow> [if c = 36 then Eot else Chr c])"

definition agrees :: "u8 \<Rightarrow> u8 \<Rightarrow> bool" where "agrees c t \<longleftrightarrow> c = 46 \<or> c = t"

text \<open>The texts that begin with a word for each item in turn.\<close>

inductive begins :: "item list \<Rightarrow> cstring \<Rightarrow> bool" where
  begins_nil: "begins [] rest"
| begins_eot: "begins [Eot] []"
| begins_chr: "agrees c t \<Longrightarrow> begins xs rest \<Longrightarrow> begins (Chr c # xs) (t # rest)"
| begins_many: "\<forall>t\<in>set w. agrees c t \<Longrightarrow> begins xs rest \<Longrightarrow> begins (Many c # xs) (w @ rest)"

inductive_simps begins_simps [simp]: "begins [] text" "begins [Eot] text" "begins (Chr c # xs) text"
inductive_cases begins_manyE: "begins (Many c # xs) text"

lemma begins_many_iff: "begins (Many c # xs) text \<longleftrightarrow> begins xs text \<or> (\<exists>t ts. text = t # ts \<and> agrees c t \<and> begins (Many c # xs) ts)"
proof
  assume "begins (Many c # xs) text"
  then obtain w rest where "text = w @ rest" "\<forall>t\<in>set w. agrees c t" "begins xs rest" by (rule begins_manyE)
  then show "begins xs text \<or> (\<exists>t ts. text = t # ts \<and> agrees c t \<and> begins (Many c # xs) ts)"
    by (cases w) (auto intro: begins_many)
next
  assume "begins xs text \<or> (\<exists>t ts. text = t # ts \<and> agrees c t \<and> begins (Many c # xs) ts)"
  then show "begins (Many c # xs) text"
  proof (elim disjE exE conjE)
    show "begins (Many c # xs) text" if "begins xs text" using begins_many [of "[]"] that by simp
    fix t ts assume t: "text = t # ts" "agrees c t" and "begins (Many c # xs) ts"
    then obtain w rest where "ts = w @ rest" "\<forall>t\<in>set w. agrees c t" "begins xs rest" by (auto elim: begins_manyE)
    then show "begins (Many c # xs) text" using t begins_many [of "t # w" c xs rest] by simp
  qed
qed

lemma match_begins:
  "matchhere re text \<longleftrightarrow> begins (items re) text"
  "matchstar c re text \<longleftrightarrow> begins (Many c # items re) text"
proof (induction re "text" and c re "text" rule: matchhere_matchstar.induct)
  case (1 re x)
  show ?case unfolding matchhere.simps [of re x] using 1
    by (cases re; cases "tl re"; cases x) (auto simp: agrees_def)
next
  case (2 c re x)
  show ?case unfolding matchstar.simps [of c re x] begins_many_iff [of c _ x] using 2
    by (cases x) (auto simp: agrees_def)
qed

text \<open>
  C21: \<open>match\<close> decides the language of its pattern: a text matches exactly if some suffix of it, or the
  text itself when the pattern starts with a caret, begins with words for the items of the pattern in
  turn, where a dot stands for any character, a starred character for any number of them, and a final
  dollar sign for the end of the text.
\<close>

theorem match_language:
  "match re text \<longleftrightarrow> (if take 1 re = [94] then begins (items (tl re)) text
     else \<exists>pre post. text = pre @ post \<and> begins (items re) post)"
proof -
  have "match_from re text \<longleftrightarrow> (\<exists>pre post. text = pre @ post \<and> begins (items re) post)" for "text"
  proof (induction "text")
    case Nil
    show ?case by (subst match_from.simps) (simp add: match_begins)
  next
    case (Cons t x)
    have "(\<exists>pre post. t # x = pre @ post \<and> begins (items re) post) \<longleftrightarrow>
        begins (items re) (t # x) \<or> (\<exists>pre post. x = pre @ post \<and> begins (items re) post)"
      by (auto simp: Cons_eq_append_conv)
    then show ?case using Cons.IH by (subst match_from.simps) (simp add: match_begins)
  qed
  then show ?thesis by (simp add: match_def match_begins)
qed


section \<open>The lines of a file\<close>

definition BUFSIZE :: nat where "BUFSIZE = 1024"

text \<open>
  \<open>strchr (buf + p, '\n')\<close>: the search goes on until a newline or a zero byte, past the end of the data
  in the buffer, and is an overrun past the end of the buffer.
\<close>

definition line_end :: "block \<Rightarrow> nat \<Rightarrow> nat option kres" where
  "line_end buf p =
     (case List.find (\<lambda>i. buf i = 0 \<or> buf i = 10) [p..<BUFSIZE] of
        None \<Rightarrow> Inl (Overrun ''buf'')
      | Some q \<Rightarrow> Inr (if buf q = 10 then Some q else None))"

lemma find_from_Some: "List.find P [a..<n] = Some i \<Longrightarrow> a \<le> i \<and> i < n \<and> P i \<and> (\<forall>j. a \<le> j \<longrightarrow> j < i \<longrightarrow> \<not> P j)"
proof -
  assume "List.find P [a..<n] = Some i"
  then obtain k where k: "k < n - a" "P (a + k)" "i = a + k" "\<forall>j<k. \<not> P (a + j)" by (auto simp: find_Some_iff)
  have "\<not> P j" if "a \<le> j" "j < i" for j using k(4) [rule_format, of "j - a"] k(3) that by simp
  then show "a \<le> i \<and> i < n \<and> P i \<and> (\<forall>j. a \<le> j \<longrightarrow> j < i \<longrightarrow> \<not> P j)" using k by simp
qed

text \<open>
  The inner loop: the newline is replaced by a zero byte, and put back only if the line matches. The
  result is the position after the last line, the buffer and the output. A line takes at least one byte.
\<close>

function grep_lines :: "cstring \<Rightarrow> nat \<Rightarrow> block \<Rightarrow> u8 list \<Rightarrow> (nat \<times> block \<times> u8 list) kres" where
  "grep_lines re p buf out =
     kbind (line_end buf p) (\<lambda>r.
       case r of
         None \<Rightarrow> Inr (p, buf, out)
       | Some q \<Rightarrow>
           if match re (map buf [p..<q]) then grep_lines re (q + 1) buf (out @ map buf [p..<q + 1])
           else grep_lines re (q + 1) (buf(q := 0)) out)"
  by pat_completeness auto
termination
  by (relation "measure (\<lambda>(re, p, buf, out). BUFSIZE - p)") (auto simp: line_end_def split: option.splits if_splits dest!: find_from_Some)

declare grep_lines.simps [simp del]

text \<open>
  The outer loop over the results of \<open>read\<close>, which are not longer than it was asked for. When the last
  line found lies behind the data, the new \<open>m\<close> is negative and the next \<open>read\<close> stores in front of the buffer.
\<close>

fun grep :: "cstring \<Rightarrow> u8 list list \<Rightarrow> nat \<Rightarrow> block \<Rightarrow> u8 list \<Rightarrow> u8 list kres" where
  "grep re [] m buf out = Inr out"
| "grep re (c # cs) m buf out =
     (if length c > BUFSIZE - m then Inl (Overrun ''read'')
      else
        let m = m + length c
        in kbind (grep_lines re 0 (blit (m - length c) (length c) (arr c) buf) out) (\<lambda>(p, buf, out).
             if p = 0 then grep re cs 0 buf out
             else if p > m then (if cs = [] then Inr out else Inl (Overrun ''buf''))
             else grep re cs (m - p) (\<lambda>i. if i < m - p then buf (p + i) else buf i) out))"

section \<open>What is printed\<close>

text \<open>The complete lines of a text, and the ones a pattern selects, each with its newline.\<close>

function complete_lines :: "cstring \<Rightarrow> cstring list" where
  "complete_lines c =
     (case dropWhile (\<lambda>b. b \<noteq> 10) c of [] \<Rightarrow> [] | _ # rest \<Rightarrow> takeWhile (\<lambda>b. b \<noteq> 10) c # complete_lines rest)"
  by pat_completeness auto
termination
proof (relation "measure length", simp)
  show "\<And>c x21 x22. dropWhile (\<lambda>b. b \<noteq> 10) c = x21 # x22 \<Longrightarrow> (x22, c) \<in> measure length"
    by (metis Suc_le_lessD in_measure length_Cons length_dropWhile_le)
qed

declare complete_lines.simps [simp del]

definition selected :: "cstring \<Rightarrow> cstring \<Rightarrow> cstring" where
  "selected re c = concat (map (\<lambda>l. l @ [10]) (filter (match re) (complete_lines c)))"

lemma selected_none: "10 \<notin> set c \<Longrightarrow> selected re c = []"
proof -
  assume "10 \<notin> set c"
  then have "dropWhile (\<lambda>b. b \<noteq> 10) c = []" by (auto simp: dropWhile_eq_Nil_conv)
  then have "complete_lines c = []" by (subst complete_lines.simps) (simp only: list.case)
  then show ?thesis by (simp add: selected_def)
qed

lemma selected_line: "10 \<notin> set l \<Longrightarrow> selected re (l @ 10 # c) = (if match re l then l @ [10] else []) @ selected re c"
proof -
  assume n: "10 \<notin> set l"
  have "dropWhile (\<lambda>b. b \<noteq> 10) (l @ 10 # c) = 10 # c" "takeWhile (\<lambda>b. b \<noteq> 10) (l @ 10 # c) = l"
    using n by (induction l) auto
  then have "complete_lines (l @ 10 # c) = l # complete_lines c" by (subst complete_lines.simps) simp
  then show ?thesis by (simp add: selected_def)
qed

lemma line_end_data:
  assumes d: "\<And>i. i < length c \<Longrightarrow> buf (p + i) = c ! i" and z: "buf (p + length c) = 0" "p + length c < BUFSIZE" "0 \<notin> set c"
  shows "10 \<notin> set c \<Longrightarrow> line_end buf p = Inr None"
    "c = l @ 10 # r \<Longrightarrow> 10 \<notin> set l \<Longrightarrow> line_end buf p = Inr (Some (p + length l))"
proof -
  have f: "List.find P [p..<BUFSIZE] = Some (p + k)" if "P (p + k)" "k \<le> length c" "\<And>j. j < k \<Longrightarrow> \<not> P (p + j)" for P k
    using that z(2) by (auto simp: find_Some_iff intro!: exI [of _ k])
  show "line_end buf p = Inr None" if "10 \<notin> set c"
  proof -
    have "\<not> (buf (p + j) = 0 \<or> buf (p + j) = 10)" if "j < length c" for j using d [OF that] z(3) \<open>10 \<notin> set c\<close> nth_mem [OF that] by auto
    then show ?thesis using f [of "\<lambda>i. buf i = 0 \<or> buf i = 10" "length c"] z(1) by (simp add: line_end_def)
  qed
  show "line_end buf p = Inr (Some (p + length l))" if c: "c = l @ 10 # r" "10 \<notin> set l"
  proof -
    have "\<not> (buf (p + j) = 0 \<or> buf (p + j) = 10)" if "j < length l" for j
    proof -
      have "l ! j \<noteq> 0" "l ! j \<noteq> 10" using z(3) c nth_mem [OF that] by (metis Un_iff set_append, metis)
      then show ?thesis using d [of j] c that by (simp add: nth_append)
    qed
    moreover have "buf (p + length l) = 10" using d [of "length l"] c by simp
    ultimately show ?thesis using f [of "\<lambda>i. buf i = 0 \<or> buf i = 10" "length l"] c by (simp add: line_end_def)
  qed
qed

lemma grep_lines_data:
  assumes "\<And>i. i < length c \<Longrightarrow> buf (p + i) = c ! i" "buf (p + length c) = 0" "p + length c < BUFSIZE" "0 \<notin> set c"
  shows "\<exists>q buf'. grep_lines re p buf out = Inr (q, buf', out @ selected re c) \<and> p \<le> q \<and> q \<le> p + length c"
  using assms
proof (induction "length c" arbitrary: c p buf out rule: less_induct)
  case less
  have e: "10 \<notin> set c \<Longrightarrow> line_end buf p = Inr None"
    "\<And>l r. c = l @ 10 # r \<Longrightarrow> 10 \<notin> set l \<Longrightarrow> line_end buf p = Inr (Some (p + length l))"
    using line_end_data [of c buf p] less.prems by blast+
  show ?case
  proof (cases "10 \<in> set c")
    case False
    then show ?thesis using e(1) by (subst grep_lines.simps) (simp add: selected_none)
  next
    case True
    then obtain l r where c: "c = l @ 10 # r" "10 \<notin> set l" using split_list_first by metis
    let ?q = "p + length l"
    have t: "map buf [p..<?q] = l" using less.prems(1) c by (intro nth_equalityI) (simp_all add: nth_append)
    have q: "buf ?q = 10" using less.prems(1) [of "length l"] c by simp
    have r: "b (?q + 1 + i) = r ! i" if "i < length r" "\<And>i. i \<noteq> ?q \<Longrightarrow> b i = buf i" for b i
      using less.prems(1) [of "length l + 1 + i"] c that by (simp add: nth_append add.assoc)
    have z: "b (?q + 1 + length r) = 0" if "\<And>i. i \<noteq> ?q \<Longrightarrow> b i = buf i" for b using less.prems(2) c that by (simp add: add.assoc)
    have ih: "\<exists>q b'. grep_lines re (?q + 1) b o' = Inr (q, b', o' @ selected re r) \<and> ?q + 1 \<le> q \<and> q \<le> ?q + 1 + length r"
      if "\<And>i. i \<noteq> ?q \<Longrightarrow> b i = buf i" for b o'
      using less.hyps [where c = r and p = "?q + 1" and buf = b and out = o'] r [OF _ that] z [OF that] less.prems(3,4) c by simp
    have g: "grep_lines re p buf out =
        (if match re l then grep_lines re (?q + 1) buf (out @ l @ [10]) else grep_lines re (?q + 1) (buf(?q := 0)) out)"
      using e(2) [OF c] t q by (subst grep_lines.simps) simp
    show ?thesis
    proof (cases "match re l")
      case True
      then show ?thesis using g ih [of buf "out @ l @ [10]"] selected_line [OF c(2), of re r] c(1) by auto
    next
      case False
      then show ?thesis using g ih [of "buf(?q := 0)" out] selected_line [OF c(2), of re r] c(1) by auto
    qed
  qed
qed


text \<open>When the file comes in two pieces, as from a pipe, a line can be printed that is not in it: \<open>ba\<close> here.\<close>

lemma grep_stale: "grep [97] [[120, 97, 10], [98]] 0 (\<lambda>_. 0) [] = Inr [120, 97, 10, 98, 97, 10]"
proof -
  have g: "grep_lines [97] 0 b out = Inr (3, b, out @ [x, 97, 10])"
    if "b 0 = x" "b 1 = 97" "b 2 = 10" "b 3 = 0" "x \<notin> {0, 10}" for b out x
  proof -
    have s: "b (Suc (Suc 0)) = 10" "b (Suc (Suc (Suc 0))) = 0" using that(3,4) by (simp_all only: numeral_2_eq_2 numeral_3_eq_3)
    have "line_end b 0 = Inr (Some (0 + length [x, 97]))"
      by (rule line_end_data(2) [where c = "[x, 97, 10]" and r = "[]"]) (use that s in \<open>auto simp: BUFSIZE_def less_Suc_eq\<close>)
    then have "line_end b 0 = Inr (Some 2)" by simp
    moreover have "line_end b 3 = Inr None" by (rule line_end_data(1) [where c = "[]"]) (use that in \<open>auto simp: BUFSIZE_def\<close>)
    moreover have "match [97] [x, 97]" by (simp add: match_def match_from.simps matchhere.simps)
    moreover have "map b [0..<2] = [x, 97]" "map b [0..<3] = [x, 97, 10]" using that s by (simp_all add: upt_rec)
    moreover have "grep_lines [97] 3 b o' = Inr (3, b, o')" for o' using calculation(2) by (subst grep_lines.simps) simp
    ultimately show ?thesis by (subst grep_lines.simps) simp
  qed
  show ?thesis by (simp add: BUFSIZE_def g blit_def arr_def)
qed


end
