(* ===== verification/Shell.thy ===== *)
theory Shell
  imports Sysfile
begin

text \<open>
  The parser of the shell (sh.c): tokens, redirections, programs with their arguments, blocks, pipes,
  background commands and lists. A position is an offset into the line, a command a tree whose
  strings are ranges of the line. \<open>panic\<close> of the shell ends its process; memory for the tree is taken
  to be available, as in the code, which does not check the result of \<open>malloc\<close>. The parser is shown to
  end on every line and to return well-formed commands only.
\<close>

section \<open>Commands\<close>

definition MAXARGS :: nat where "MAXARGS = 10"

text \<open>A string of a command is a range of the line, from its start up to its end.\<close>

type_synonym range = "nat \<times> nat"

datatype cmd =
    EXEC "range list"
  | REDIR cmd range u32 nat     \<comment> \<open>the file, the mode and the descriptor\<close>
  | PIPE cmd cmd
  | LIST cmd cmd
  | BACK cmd

section \<open>Tokens\<close>

definition whitespace :: "u8 list" where "whitespace = [32, 9, 13, 10, 11]"
definition symbols :: "u8 list" where "symbols = [60, 124, 62, 38, 59, 40, 41]"     \<comment> \<open>\<open>< | > & ; ( )\<close>\<close>

text \<open>The line with its terminating zero byte; a position is a pointer into it.\<close>

definition char_at :: "cstring \<Rightarrow> nat \<Rightarrow> u8" where "char_at s i = (if i < length s then s ! i else 0)"

definition skip :: "cstring \<Rightarrow> nat \<Rightarrow> nat" where
  "skip s i = i + length (takeWhile (\<lambda>c. c \<in> set whitespace) (drop i s))"

definition word_end :: "cstring \<Rightarrow> nat \<Rightarrow> nat" where
  "word_end s i = i + length (takeWhile (\<lambda>c. c \<notin> set whitespace \<and> c \<notin> set symbols) (drop i s))"

text \<open>The switch of \<open>gettoken\<close>: the kind of the token at \<open>q\<close>, and its end.\<close>

definition token_at :: "cstring \<Rightarrow> nat \<Rightarrow> u8 \<times> nat" where
  "token_at s q =
     (let c = char_at s q
      in if c = 0 then (0, q)
         else if c \<in> {124, 40, 41, 59, 38, 60} then (c, q + 1)
         else if c = 62 then if char_at s (q + 1) = 62 then (43, q + 2) else (62, q + 1)
         else (97, word_end s q))"

text \<open>The kind of the token, its start, its end and the position after the white space behind it.\<close>

definition gettoken :: "cstring \<Rightarrow> nat \<Rightarrow> u8 \<times> nat \<times> nat \<times> nat" where
  "gettoken s i = (let q = skip s i; (ret, eq) = token_at s q in (ret, q, eq, skip s eq))"

definition peek :: "cstring \<Rightarrow> u8 list \<Rightarrow> nat \<Rightarrow> bool \<times> nat" where
  "peek s toks i = (let i = skip s i in (char_at s i \<noteq> 0 \<and> char_at s i \<in> set toks, i))"

section \<open>The parser\<close>

text \<open>The redirections at a position, in the order in which they wrap the command.\<close>

type_synonym redir = "range \<times> u32 \<times> nat"

definition redir_of :: "u8 \<Rightarrow> range \<Rightarrow> redir" where
  "redir_of tok r = (if tok = 60 then (r, O_RDONLY, 0) else (r, O_WRONLY OR O_CREATE, 1))"

definition redircmd :: "cmd \<Rightarrow> redir \<Rightarrow> cmd" where
  "redircmd c r = (case r of (f, mode, fd) \<Rightarrow> REDIR c f mode fd)"

lemma skip_ge: "i \<le> skip s i"
  by (simp add: skip_def)

lemma skip_le: "i \<le> length s \<Longrightarrow> skip s i \<le> length s"
  using length_takeWhile_le [of "\<lambda>c. c \<in> set whitespace" "drop i s"] by (simp add: skip_def)

lemma word_end_gt: "char_at s i \<noteq> 0 \<Longrightarrow> char_at s i \<notin> set whitespace \<Longrightarrow> char_at s i \<notin> set symbols \<Longrightarrow> i < word_end s i"
  by (auto simp: word_end_def char_at_def takeWhile_eq_Nil_iff hd_drop_conv_nth split: if_splits)

lemma word_end_le: "i \<le> length s \<Longrightarrow> word_end s i \<le> length s"
  using length_takeWhile_le [of "\<lambda>c. c \<notin> set whitespace \<and> c \<notin> set symbols" "drop i s"] by (simp add: word_end_def)

lemma skip_stop: "char_at s (skip s i) \<notin> set whitespace"
proof (cases "skip s i < length s")
  case True
  let ?n = "length (takeWhile (\<lambda>c. c \<in> set whitespace) (drop i s))"
  have "?n < length (drop i s)" using True by (simp add: skip_def)
  then have "drop i s ! ?n \<notin> set whitespace" using nth_length_takeWhile [of "\<lambda>c. c \<in> set whitespace" "drop i s"] by simp
  then show ?thesis using True by (simp add: char_at_def skip_def)
qed (simp add: char_at_def whitespace_def)


lemma skip_skip [simp]: "skip s (skip s i) = skip s i"
proof -
  have "char_at s (skip s i) \<notin> set whitespace" by (rule skip_stop)
  then have "takeWhile (\<lambda>c. c \<in> set whitespace) (drop (skip s i) s) = []"
    by (auto simp: takeWhile_eq_Nil_iff hd_drop_conv_nth char_at_def split: if_splits)
  then show ?thesis by (simp add: skip_def [of s "skip s i"])
qed

lemma token_bounds:
  assumes "token_at s q = (r, e)" "q \<le> length s" "char_at s q \<notin> set whitespace"
  shows "q \<le> e \<and> e \<le> length s \<and> (r \<noteq> 0 \<longrightarrow> q < e)"
proof (cases "char_at s q \<in> {0, 124, 40, 41, 59, 38, 60, 62}")
  case True
  then show ?thesis using assms(1,2) by (auto simp: token_at_def char_at_def Suc_le_eq split: if_splits)
next
  case False
  then have "r = 97" "e = word_end s q" using assms(1) by (auto simp: token_at_def Let_def)
  then show ?thesis using False assms(2,3) word_end_gt [of s q] word_end_le [of q s] by (auto simp: symbols_def)
qed

lemma gettoken_bounds:
  assumes "gettoken s i = (r, q, e, j)" "i \<le> length s"
  shows "i \<le> q \<and> q \<le> e \<and> e \<le> j \<and> j \<le> length s \<and> (r \<noteq> 0 \<longrightarrow> q < e)"
proof -
  have q: "q = skip s i" "token_at s q = (r, e)" "j = skip s e" using assms by (auto simp: gettoken_def Let_def split: prod.splits)
  then show ?thesis using token_bounds [OF q(2)] skip_stop [of s i] skip_ge [of i s] skip_le [OF assms(2)] skip_ge [of e s] skip_le [of e s]
    by auto
qed

lemma peek_bounds:
  assumes "peek s toks i = (b, j)" "i \<le> length s"
  shows "i \<le> j \<and> j \<le> length s \<and> skip s j = j \<and> (b \<longrightarrow> j < length s \<and> char_at s j \<in> set toks)"
proof -
  have j: "j = skip s i" "b \<longleftrightarrow> char_at s j \<noteq> 0 \<and> char_at s j \<in> set toks" using assms(1) by (auto simp: peek_def Let_def)
  then have "skip s j = j" by simp
  moreover have "b \<longrightarrow> j < length s" using j by (auto simp: char_at_def split: if_splits)
  ultimately show ?thesis using j skip_ge [of i s] skip_le [OF assms(2)] by simp
qed

text \<open>A token that \<open>peek\<close> has seen is consumed.\<close>

lemma peek_gettoken:
  assumes "peek s toks i = (True, j)" "gettoken s j = (r, q, e, k)"
  shows "i \<le> j \<and> j < k \<and> k \<le> length s"
proof -
  have "skip s i < length s" using assms(1) by (auto simp: peek_def Let_def char_at_def split: if_splits)
  then have "i \<le> length s" using skip_ge [of i s] by simp
  note p = peek_bounds [OF assms(1) this]
  have t: "token_at s j = (r, e)" using assms(2) p by (auto simp: gettoken_def Let_def split: prod.splits)
  have "char_at s j \<noteq> 0" using assms(1) by (auto simp: peek_def Let_def)
  then have "r \<noteq> 0" using t by (auto simp: token_at_def Let_def split: if_splits)
  then show ?thesis using p gettoken_bounds [OF assms(2)] by auto
qed


lemma consumed:
  assumes "peek s toks i = (True, j)" "gettoken s j = (r, q, e, k)" "gettoken s k = (r', q', e', l)"
  shows "length s - l < length s - i"
  using peek_gettoken [OF assms(1,2)] gettoken_bounds [OF assms(3)] by auto

function parseredirs :: "cstring \<Rightarrow> nat \<Rightarrow> (redir list \<times> nat) kres" where
  "parseredirs s i =
     (let (b, i) = peek s [60, 62] i
      in if b then
           let (tok, _, _, i) = gettoken s i;
               (t, q, eq, i) = gettoken s i
           in if t \<noteq> 97 then Inl (Panic ''missing file for redirection'')
              else kbind (parseredirs s i) (\<lambda>(rs, i). Inr (redir_of tok (q, eq) # rs, i))
         else Inr ([], i))"
  by pat_completeness auto
termination
  by (relation "measure (\<lambda>(s, i). length s - i)") (simp, auto, metis consumed)

declare parseredirs.simps [simp del]

lemma parseredirs_bounds: "parseredirs s i = Inr (rs, j) \<Longrightarrow> i \<le> length s \<Longrightarrow> i \<le> j \<and> j \<le> length s"
proof (induction "length s - i" arbitrary: i rs j rule: less_induct)
  case less
  obtain b i1 where p: "peek s [60, 62] i = (b, i1)" by fastforce
  obtain tok q0 e0 i2 where g: "gettoken s i1 = (tok, q0, e0, i2)" by (metis prod_cases4)
  obtain t q e i3 where h: "gettoken s i2 = (t, q, e, i3)" by (metis prod_cases4)
  note pb = peek_bounds [OF p less.prems(2)]
  have gb: "i2 \<le> i3 \<and> i3 \<le> length s \<and> i1 \<le> i2" using gettoken_bounds [OF g] gettoken_bounds [OF h] pb by auto
  show ?case
  proof (cases "b \<and> t = 97")
    case True
    then obtain rs' where "parseredirs s i3 = Inr (rs', j)"
      using less.prems(1) by (subst (asm) parseredirs.simps) (auto simp: p g h kres)
    moreover have "peek s [60, 62] i = (True, i1)" using p True by simp
    ultimately have "i3 \<le> j \<and> j \<le> length s" using less.hyps [OF consumed [OF _ g h]] gb by blast
    then show ?thesis using pb gb by linarith
  next
    case False
    then show ?thesis using less.prems(1) pb by (subst (asm) parseredirs.simps) (auto simp: p g h split: if_splits)
  qed
qed

lemma arg_consumed:
  assumes "peek s toks i = (b, j)" "gettoken s j = (97, q, e, k)" "parseredirs s k = Inr (r, n)"
  shows "length s - n < length s - i"
proof -
  have j: "j = skip s i" using assms(1) by (simp add: peek_def Let_def)
  have t: "token_at s j = (97, e)" using assms(2) j by (auto simp: gettoken_def Let_def split: prod.splits)
  have "j < length s"
  proof (rule ccontr)
    assume "\<not> j < length s"
    then show False using t by (simp add: token_at_def char_at_def)
  qed
  moreover have "i \<le> j" using j skip_ge by simp
  moreover have "j \<le> q \<and> q < e \<and> e \<le> k \<and> k \<le> length s" using gettoken_bounds [OF assms(2)] \<open>j < length s\<close> by simp
  ultimately show ?thesis using parseredirs_bounds [OF assms(3)] by linarith
qed

text \<open>The arguments of a command, and the redirections among them.\<close>

function parse_args :: "cstring \<Rightarrow> nat \<Rightarrow> range list \<Rightarrow> redir list \<Rightarrow> (range list \<times> redir list \<times> nat) kres" where
  "parse_args s i args rs =
     (let (b, i) = peek s [124, 41, 38, 59] i
      in if b then Inr (args, rs, i)
         else
           let (tok, q, eq, i) = gettoken s i
           in if tok = 0 then Inr (args, rs, i)
              else if tok \<noteq> 97 then Inl (Panic ''syntax'')
              else
                let args = args @ [(q, eq)]
                in if length args \<ge> MAXARGS then Inl (Panic ''too many args'')
                   else kbind (parseredirs s i) (\<lambda>(r, i). parse_args s i args (rs @ r)))"
  by pat_completeness auto
termination
  by (relation "measure (\<lambda>(s, i, args, rs). length s - i)", simp, auto, metis arg_consumed)


declare parse_args.simps [simp del]

text \<open>\<open>pl\<close> is \<open>parseline\<close>, which a block calls again.\<close>

type_synonym parser = "nat \<Rightarrow> (cmd \<times> nat) kres"

definition parseblock :: "parser \<Rightarrow> cstring \<Rightarrow> parser" where
  "parseblock pl s i =
     (let (b, i) = peek s [40] i
      in if \<not> b then Inl (Panic ''parseblock'')
         else
           let (_, _, _, i) = gettoken s i
           in kbind (pl i) (\<lambda>(c, i).
                let (b, i) = peek s [41] i
                in if \<not> b then Inl (Panic ''syntax - missing )'')
                   else
                     let (_, _, _, i) = gettoken s i
                     in kbind (parseredirs s i) (\<lambda>(rs, i). Inr (foldl redircmd c rs, i))))"

text \<open>The redirections wrap the command while its arguments are still being added.\<close>

definition parseexec :: "parser \<Rightarrow> cstring \<Rightarrow> parser" where
  "parseexec pl s i =
     (let (b, i) = peek s [40] i
      in if b then parseblock pl s i
         else
           kbind (parseredirs s i) (\<lambda>(rs, i).
           kbind (parse_args s i [] rs) (\<lambda>(args, rs, i).
           Inr (foldl redircmd (EXEC args) rs, i))))"

text \<open>The first argument bounds the depth of the recursion, as a line has only so many bytes.\<close>

fun parsepipe :: "nat \<Rightarrow> parser \<Rightarrow> cstring \<Rightarrow> parser" where
  "parsepipe 0 pl s i = Inl Diverge"
| "parsepipe (Suc n) pl s i =
     kbind (parseexec pl s i) (\<lambda>(c, i).
       let (b, i) = peek s [124] i
       in if b then
            let (_, _, _, i) = gettoken s i
            in kbind (parsepipe n pl s i) (\<lambda>(r, i). Inr (PIPE c r, i))
          else Inr (c, i))"

function backs :: "cstring \<Rightarrow> nat \<Rightarrow> cmd \<Rightarrow> cmd \<times> nat" where
  "backs s i c =
     (let (b, i) = peek s [38] i
      in if b then let (_, _, _, i) = gettoken s i in backs s i (BACK c) else (c, i))"
  by pat_completeness auto
termination
  by (relation "measure (\<lambda>(s, i, c). length s - i)", simp, auto) (metis diff_less_mono2 le_less_trans less_le_trans peek_gettoken)

declare backs.simps [simp del]

fun parseline :: "nat \<Rightarrow> cstring \<Rightarrow> parser" where
  "parseline 0 s i = Inl Diverge"
| "parseline (Suc n) s i =
     kbind (parsepipe (Suc (length s)) (parseline n s) s i) (\<lambda>(c, i).
       let (c, i) = backs s i c;
           (b, i) = peek s [59] i
       in if b then
            let (_, _, _, i) = gettoken s i
            in kbind (parseline n s i) (\<lambda>(r, i). Inr (LIST c r, i))
          else Inr (c, i))"

text \<open>The zero bytes that end the strings of a command in the line.\<close>

primrec nulterminate :: "cmd \<Rightarrow> block \<Rightarrow> block" where
  "nulterminate (EXEC args) buf = fold (\<lambda>(q, e) b. b(e := 0)) args buf"
| "nulterminate (REDIR c f mode fd) buf = (nulterminate c buf)(snd f := 0)"
| "nulterminate (PIPE l r) buf = nulterminate r (nulterminate l buf)"
| "nulterminate (LIST l r) buf = nulterminate r (nulterminate l buf)"
| "nulterminate (BACK c) buf = nulterminate c buf"

definition parsecmd :: "cstring \<Rightarrow> (cmd \<times> block) kres" where
  "parsecmd s =
     kbind (parseline (Suc (length s)) s 0) (\<lambda>(c, i).
       let (_, i) = peek s [] i
       in if i \<noteq> length s then Inl (Panic ''syntax'') else Inr (c, nulterminate c (char_at s)))"

section \<open>Well-formed commands\<close>

text \<open>A word of the line: it is not empty, contains no white space and no symbol, and ends before one.\<close>

definition separator :: "u8 \<Rightarrow> bool" where "separator c \<longleftrightarrow> c \<in> set whitespace \<or> c \<in> set symbols"

definition word_range :: "cstring \<Rightarrow> range \<Rightarrow> bool" where
  "word_range s r \<longleftrightarrow> fst r < snd r \<and> snd r \<le> length s \<and> (\<forall>i. fst r \<le> i \<longrightarrow> i < snd r \<longrightarrow> \<not> separator (s ! i)) \<and>
     (snd r < length s \<longrightarrow> separator (s ! snd r))"

definition redir_ok :: "u32 \<Rightarrow> nat \<Rightarrow> bool" where
  "redir_ok mode fd \<longleftrightarrow> (mode, fd) \<in> {(O_RDONLY, 0), (O_WRONLY OR O_CREATE, 1)}"

primrec well_formed :: "cstring \<Rightarrow> cmd \<Rightarrow> bool" where
  "well_formed s (EXEC args) \<longleftrightarrow> length args < MAXARGS \<and> (\<forall>r\<in>set args. word_range s r)"
| "well_formed s (REDIR c f mode fd) \<longleftrightarrow> well_formed s c \<and> word_range s f \<and> redir_ok mode fd"
| "well_formed s (PIPE l r) \<longleftrightarrow> well_formed s l \<and> well_formed s r"
| "well_formed s (LIST l r) \<longleftrightarrow> well_formed s l \<and> well_formed s r"
| "well_formed s (BACK c) \<longleftrightarrow> well_formed s c"

lemma gettoken_word:
  assumes "gettoken s i = (97, q, e, j)" "i \<le> length s"
  shows "word_range s (q, e)"
proof -
  have t: "token_at s q = (97, e)" "q = skip s i" using assms by (auto simp: gettoken_def Let_def split: prod.splits)
  have c: "char_at s q \<notin> {0, 124, 40, 41, 59, 38, 60, 62}" and e: "e = word_end s q"
    using t(1) by (auto simp: token_at_def Let_def split: if_splits)
  have q: "q < length s" using c by (auto simp: char_at_def split: if_splits)
  let ?P = "\<lambda>c. c \<notin> set whitespace \<and> c \<notin> set symbols"
  let ?w = "takeWhile ?P (drop q s)"
  have "q < e" using gettoken_bounds [OF assms] by simp
  moreover have l: "e \<le> length s" using word_end_le [of q s] q e by simp
  moreover have "\<not> separator (s ! k)" if k: "q \<le> k" "k < e" for k
  proof -
    have n: "k - q < length ?w" using k e by (simp add: word_end_def)
    have "?w ! (k - q) = s ! k" using takeWhile_nth [OF n] k q by simp
    then have "s ! k \<in> set ?w" using nth_mem [OF n] by simp
    then show ?thesis using set_takeWhileD [of "s ! k" ?P "drop q s"] by (simp add: separator_def)
  qed
  moreover have "separator (s ! e)" if "e < length s"
  proof -
    have "length ?w < length (drop q s)" using that e q by (simp add: word_end_def)
    then have "\<not> ?P (drop q s ! length ?w)" by (rule nth_length_takeWhile)
    then show ?thesis using e that by (auto simp: separator_def word_end_def)
  qed
  ultimately show ?thesis by (simp add: word_range_def)
qed

definition redirs_ok :: "cstring \<Rightarrow> redir list \<Rightarrow> bool" where
  "redirs_ok s rs \<longleftrightarrow> (\<forall>(f, mode, fd)\<in>set rs. word_range s f \<and> redir_ok mode fd)"

lemma parseredirs_good:
  "i \<le> length s \<Longrightarrow> parseredirs s i \<noteq> Inl Diverge \<and> (\<forall>rs j. parseredirs s i = Inr (rs, j) \<longrightarrow> redirs_ok s rs)"
proof (induction "length s - i" arbitrary: i rule: less_induct)
  case less
  obtain b i1 where p: "peek s [60, 62] i = (b, i1)" by fastforce
  obtain tok q0 e0 i2 where g: "gettoken s i1 = (tok, q0, e0, i2)" by (metis prod_cases4)
  obtain t q e i3 where h: "gettoken s i2 = (t, q, e, i3)" by (metis prod_cases4)
  have gb: "i2 \<le> length s" "i3 \<le> length s" using peek_bounds [OF p less.prems] gettoken_bounds [OF g] gettoken_bounds [OF h] by auto
  show ?case
  proof (cases "b \<and> t = 97")
    case True
    then have "peek s [60, 62] i = (True, i1)" using p by simp
    then have ih: "parseredirs s i3 \<noteq> Inl Diverge \<and> (\<forall>rs j. parseredirs s i3 = Inr (rs, j) \<longrightarrow> redirs_ok s rs)"
      using less.hyps [OF consumed [OF _ g h]] gb by blast
    have e: "parseredirs s i = kbind (parseredirs s i3) (\<lambda>(rs, i). Inr (redir_of tok (q, e) # rs, i))"
      using True by (subst parseredirs.simps) (simp add: p g h)
    have "word_range s (q, e)" using gettoken_word [of s i2] h True gb by simp
    then show ?thesis unfolding e using ih
      by (cases "parseredirs s i3") (auto simp: redirs_ok_def redir_of_def redir_ok_def)
  next
    case False
    then have "parseredirs s i = (if b then Inl (Panic ''missing file for redirection'') else Inr ([], i1))"
      by (subst parseredirs.simps) (auto simp: p g h)
    then show ?thesis by (simp add: redirs_ok_def)
  qed
qed

definition good :: "cstring \<Rightarrow> nat \<Rightarrow> (cmd \<times> nat) kres \<Rightarrow> bool" where
  "good s i r \<longleftrightarrow> r \<noteq> Inl Diverge \<and> (\<forall>c j. r = Inr (c, j) \<longrightarrow> i \<le> j \<and> j \<le> length s \<and> well_formed s c)"

lemma parse_args_good:
  assumes "i \<le> length s" "length args < MAXARGS" "\<forall>r\<in>set args. word_range s r" "redirs_ok s rs"
  shows "parse_args s i args rs \<noteq> Inl Diverge \<and> (\<forall>a r j. parse_args s i args rs = Inr (a, r, j) \<longrightarrow>
    i \<le> j \<and> j \<le> length s \<and> length a < MAXARGS \<and> (\<forall>r\<in>set a. word_range s r) \<and> redirs_ok s r)"
  using assms
proof (induction "length s - i" arbitrary: i args rs rule: less_induct)
  case less
  obtain b i1 where p: "peek s [124, 41, 38, 59] i = (b, i1)" by fastforce
  obtain tok q e i2 where g: "gettoken s i1 = (tok, q, e, i2)" by (metis prod_cases4)
  note pb = peek_bounds [OF p less.prems(1)]
  have gb: "i1 \<le> i2" "i2 \<le> length s" using pb gettoken_bounds [OF g] by auto
  show ?case
  proof (cases "\<not> b \<and> tok = 97 \<and> length args + 1 < MAXARGS")
    case False
    then have "parse_args s i args rs = (if b then Inr (args, rs, i1) else if tok = 0 then Inr (args, rs, i2)
        else if tok \<noteq> 97 then Inl (Panic ''syntax'') else Inl (Panic ''too many args''))"
      by (subst parse_args.simps) (auto simp: p g)
    then show ?thesis using less.prems pb gb by auto
  next
    case True
    let ?a = "args @ [(q, e)]"
    have e: "parse_args s i args rs = kbind (parseredirs s i2) (\<lambda>(r, i). parse_args s i ?a (rs @ r))"
      using True by (subst parse_args.simps) (simp add: p g)
    have g97: "gettoken s i1 = (97, q, e, i2)" using g True by simp
    have w: "word_range s (q, e)" using gettoken_word [OF g97] pb by simp
    note r = parseredirs_good [OF gb(2)]
    show ?thesis
    proof (cases "parseredirs s i2")
      case (Inl x)
      then show ?thesis using e r by simp
    next
      case (Inr y)
      obtain r' n where y: "y = (r', n)" by fastforce
      then have n: "i2 \<le> n \<and> n \<le> length s" "redirs_ok s r'" using parseredirs_bounds [of s i2 r' n] Inr gb r by auto
      have d: "length s - n < length s - i" using arg_consumed [OF p g97] Inr y by simp
      have "\<forall>r\<in>set ?a. word_range s r" "redirs_ok s (rs @ r')" "length ?a < MAXARGS" "n \<le> length s"
        using w n less.prems(3,4) True by (auto simp: redirs_ok_def)
      note ih = less.hyps [OF d this(4,3,1,2)]
      have x: "parse_args s i args rs = parse_args s n ?a (rs @ r')" using e Inr y by simp
      have "i \<le> n" using n pb gb by linarith
      then show ?thesis unfolding x using ih by (elim conjE, intro conjI allI impI) (assumption, fastforce+)
    qed
  qed
qed

lemma redircmds_good: "redirs_ok s rs \<Longrightarrow> well_formed s c \<Longrightarrow> well_formed s (foldl redircmd c rs)"
  by (induction rs arbitrary: c) (auto simp: redirs_ok_def redircmd_def)

lemma goodI: "r \<noteq> Inl Diverge \<Longrightarrow> (\<And>c j. r = Inr (c, j) \<Longrightarrow> i \<le> j \<and> j \<le> length s \<and> well_formed s c) \<Longrightarrow> good s i r"
  by (auto simp: good_def)

lemma goodD: "good s i (Inr (c, j)) \<Longrightarrow> i \<le> j \<and> j \<le> length s \<and> well_formed s c" "good s i r \<Longrightarrow> r \<noteq> Inl Diverge"
  by (auto simp: good_def)

lemma good_later: "good s j r \<Longrightarrow> i \<le> j \<Longrightarrow> good s i r"
  by (auto simp: good_def)

text \<open>What follows the redirections of a command.\<close>

lemma redirs_then:
  assumes "well_formed s c" "i \<le> length s"
  shows "good s i (kbind (parseredirs s i) (\<lambda>(rs, i). Inr (foldl redircmd c rs, i)))"
  using parseredirs_good [OF assms(2)] parseredirs_bounds [of s i _ _, OF _ assms(2)] assms(1)
  by (cases "parseredirs s i") (auto simp: good_def redircmds_good)

text \<open>A consumed token of one of the kinds.\<close>

lemma take_token:
  assumes "peek s toks i = (b, j)" "b" obtains r q e k where "gettoken s j = (r, q, e, k)" "i < k" "k \<le> length s"
proof -
  have p: "peek s toks i = (True, j)" using assms by simp
  obtain r q e k where g: "gettoken s j = (r, q, e, k)" by (metis prod_cases4)
  then show ?thesis using that [OF g] peek_gettoken [OF p g] by linarith
qed

lemma parseblock_good:
  assumes i: "i \<le> length s" and pl: "\<And>k. i < k \<Longrightarrow> k \<le> length s \<Longrightarrow> good s k (pl k)"
  shows "good s i (parseblock pl s i)"
proof (cases "fst (peek s [40] i)")
  case False
  then show ?thesis by (auto simp: parseblock_def good_def split: prod.splits)
next
  case True
  obtain i1 where p: "peek s [40] i = (True, i1)" using True by (cases "peek s [40] i") auto
  obtain r q e k where g: "gettoken s i1 = (r, q, e, k)" "i < k" "k \<le> length s" using take_token [OF p TrueI] .
  note G = pl [OF g(2,3)]
  show ?thesis
  proof (cases "pl k")
    case (Inl x)
    then show ?thesis using goodD(2) [OF G] by (simp add: parseblock_def p g good_def)
  next
    case (Inr y)
    obtain c j where y: "y = (c, j)" by fastforce
    have j: "k \<le> j" "j \<le> length s" "well_formed s c" using goodD(1) [of s k c j] G Inr y by auto
    show ?thesis
    proof (cases "fst (peek s [41] j)")
      case False
      then show ?thesis using Inr y by (auto simp: parseblock_def p g good_def split: prod.splits)
    next
      case True
      obtain j1 where p': "peek s [41] j = (True, j1)" using True by (cases "peek s [41] j") auto
      obtain r' q' e' k' where g': "gettoken s j1 = (r', q', e', k')" "j < k'" "k' \<le> length s" using take_token [OF p' TrueI] .
      have "parseblock pl s i = kbind (parseredirs s k') (\<lambda>(rs, i). Inr (foldl redircmd c rs, i))"
        using Inr y by (simp add: parseblock_def p g p' g')
      then show ?thesis using good_later [OF redirs_then [OF j(3) g'(3)], of i] g g' j by simp
    qed
  qed
qed

lemma parseexec_good:
  assumes i: "i \<le> length s" and pl: "\<And>k. i < k \<Longrightarrow> k \<le> length s \<Longrightarrow> good s k (pl k)"
  shows "good s i (parseexec pl s i)"
proof -
  obtain b i1 where p: "peek s [40] i = (b, i1)" by fastforce
  note pb = peek_bounds [OF p i]
  show ?thesis
  proof (cases b)
    case True
    have "good s i1 (parseblock pl s i1)" by (rule parseblock_good) (use pb pl in auto)
    then show ?thesis using True pb good_later [of s i1 _ i] by (simp add: parseexec_def p)
  next
    case False
    note r = parseredirs_good [of i1 s]
    show ?thesis
    proof (cases "parseredirs s i1")
      case (Inl x)
      then show ?thesis using r pb False by (auto simp: parseexec_def p good_def)
    next
      case (Inr y)
      obtain rs j where y: "y = (rs, j)" by fastforce
      have j: "i1 \<le> j" "j \<le> length s" "redirs_ok s rs" using parseredirs_bounds [of s i1 rs j] Inr y pb r by auto
      note a = parse_args_good [OF j(2) _ _ j(3), of "[]"]
      have "parseexec pl s i = kbind (parse_args s j [] rs) (\<lambda>(args, rs, i). Inr (foldl redircmd (EXEC args) rs, i))"
        using False Inr y by (simp add: parseexec_def p)
      then show ?thesis using a j pb
        by (cases "parse_args s j [] rs") (auto simp: good_def redircmds_good MAXARGS_def)
    qed
  qed
qed

lemma parsepipe_good:
  assumes "length s - i < n" "i \<le> length s" "\<And>k. i < k \<Longrightarrow> k \<le> length s \<Longrightarrow> good s k (pl k)"
  shows "good s i (parsepipe n pl s i)"
  using assms
proof (induction n arbitrary: i)
  case (Suc n)
  note G = parseexec_good [OF Suc.prems(2,3)]
  show ?case
  proof (cases "parseexec pl s i")
    case (Inl x)
    then show ?thesis using goodD(2) [OF G] by (simp add: good_def)
  next
    case (Inr y)
    obtain c j where y: "y = (c, j)" by fastforce
    have j: "i \<le> j" "j \<le> length s" "well_formed s c" using goodD(1) [of s i c j] G Inr y by auto
    obtain b j1 where p: "peek s [124] j = (b, j1)" by fastforce
    note pb = peek_bounds [OF p j(2)]
    show ?thesis
    proof (cases b)
      case False
      then show ?thesis using Inr y j pb by (simp add: p good_def)
    next
      case True
      obtain r q e k where g: "gettoken s j1 = (r, q, e, k)" "j < k" "k \<le> length s" using take_token [OF p True] .
      have "good s k (parsepipe n pl s k)" by (rule Suc.IH) (use Suc.prems g j in auto)
      moreover have "parsepipe (Suc n) pl s i = kbind (parsepipe n pl s k) (\<lambda>(r, i). Inr (PIPE c r, i))"
        using Inr y True by (simp add: p g)
      ultimately show ?thesis using j g by (cases "parsepipe n pl s k") (auto simp: good_def)
    qed
  qed
qed simp

lemma backs_good: "i \<le> length s \<Longrightarrow> well_formed s c \<Longrightarrow> backs s i c = (c', j) \<Longrightarrow> i \<le> j \<and> j \<le> length s \<and> well_formed s c'"
proof (induction "length s - i" arbitrary: i c rule: less_induct)
  case less
  obtain b i1 where p: "peek s [38] i = (b, i1)" by fastforce
  show ?case
  proof (cases b)
    case True
    obtain r q e k where g: "gettoken s i1 = (r, q, e, k)" "i < k" "k \<le> length s" using take_token [OF p True] .
    have "backs s k (BACK c) = (c', j)" using less.prems(3) True by (subst (asm) backs.simps) (simp add: p g)
    moreover have "length s - k < length s - i" using g by linarith
    ultimately have "k \<le> j \<and> j \<le> length s \<and> well_formed s c'" using less.hyps [of k "BACK c"] g less.prems(2) by simp
    then show ?thesis using g by linarith
  next
    case False
    then show ?thesis using less.prems peek_bounds [OF p less.prems(1)] by (subst (asm) backs.simps) (auto simp: p)
  qed
qed

lemma parseline_good: "length s - i < n \<Longrightarrow> i \<le> length s \<Longrightarrow> good s i (parseline n s i)"
proof (induction n arbitrary: i)
  case (Suc n)
  have G: "good s i (parsepipe (Suc (length s)) (parseline n s) s i)"
    by (rule parsepipe_good) (use Suc in auto)
  show ?case
  proof (cases "parsepipe (Suc (length s)) (parseline n s) s i")
    case (Inl x)
    then show ?thesis using goodD(2) [OF G] by (simp add: good_def)
  next
    case (Inr y)
    obtain c0 j0 where y: "y = (c0, j0)" by fastforce
    obtain c j where bk: "backs s j0 c0 = (c, j)" by fastforce
    have j: "i \<le> j" "j \<le> length s" "well_formed s c"
      using goodD(1) [of s i c0 j0] G Inr y backs_good [OF _ _ bk] by auto
    obtain b j1 where p: "peek s [59] j = (b, j1)" by fastforce
    note pb = peek_bounds [OF p j(2)]
    show ?thesis
    proof (cases b)
      case False
      then show ?thesis using Inr y j pb bk by (simp add: p good_def del: parsepipe.simps)
    next
      case True
      obtain r q e k where g: "gettoken s j1 = (r, q, e, k)" "j < k" "k \<le> length s" using take_token [OF p True] .
      have "good s k (parseline n s k)" by (rule Suc.IH) (use Suc.prems g j in auto)
      moreover have "parseline (Suc n) s i = kbind (parseline n s k) (\<lambda>(r, i). Inr (LIST c r, i))"
        using Inr y True bk by (simp add: p g del: parsepipe.simps)
      ultimately show ?thesis using j g by (cases "parseline n s k") (auto simp: good_def)
    qed
  qed
qed simp

text \<open>The strings of a command.\<close>

primrec ranges :: "cmd \<Rightarrow> range list" where
  "ranges (EXEC args) = args"
| "ranges (REDIR c f mode fd) = ranges c @ [f]"
| "ranges (PIPE l r) = ranges l @ ranges r"
| "ranges (LIST l r) = ranges l @ ranges r"
| "ranges (BACK c) = ranges c"

lemma nulterminate_ends: "nulterminate c buf i = (if i \<in> snd ` set (ranges c) then 0 else buf i)"
proof (induction c arbitrary: buf)
  case (EXEC args)
  have "fold (\<lambda>(q, e) b. b(e := 0)) args buf i = (if i \<in> snd ` set args then 0 else buf i)" for buf :: block
    by (induction args arbitrary: buf) auto
  then show ?case by simp
qed auto

lemma well_formed_ranges: "well_formed s c \<Longrightarrow> r \<in> set (ranges c) \<Longrightarrow> word_range s r"
  by (induction c) auto

text \<open>No string is cut short by the zero byte of another, because words end at separators.\<close>

lemma nulterminate_words:
  assumes z: "0 \<notin> set s" and c: "well_formed s c" "r \<in> set (ranges c)"
  shows "nulterminate c (char_at s) (snd r) = 0"
    "fst r \<le> i \<Longrightarrow> i < snd r \<Longrightarrow> nulterminate c (char_at s) i = s ! i \<and> s ! i \<noteq> 0"
proof -
  have w: "word_range s r" by (rule well_formed_ranges [OF c])
  show "nulterminate c (char_at s) (snd r) = 0" using c(2) by (simp add: nulterminate_ends)
  assume i: "fst r \<le> i" "i < snd r"
  then have l: "i < length s" using w by (simp add: word_range_def)
  have "i \<notin> snd ` set (ranges c)"
  proof
    assume "i \<in> snd ` set (ranges c)"
    then obtain r' where r': "r' \<in> set (ranges c)" "i = snd r'" by auto
    show False using well_formed_ranges [OF c(1) r'(1)] w i r'(2) l by (auto simp: word_range_def)
  qed
  moreover have "s ! i \<noteq> 0" using z nth_mem [OF l] by metis
  ultimately show "nulterminate c (char_at s) i = s ! i \<and> s ! i \<noteq> 0" using l by (simp add: nulterminate_ends char_at_def)
qed

text \<open>
  C23: The parser of the shell ends on every line, and the command it returns is well formed: every
  program has fewer than ten arguments, every redirection is to descriptor 0 or 1 with the mode that
  fits, and every argument and file name is a whole word of the line. After \<open>nulterminate\<close> each of them is
  a terminated string in the line with exactly the bytes of its word.
\<close>

theorem parsecmd_well_formed:
  assumes "0 \<notin> set s"
  shows "parsecmd s \<noteq> Inl Diverge \<and> (\<forall>c buf. parsecmd s = Inr (c, buf) \<longrightarrow> well_formed s c \<and>
    (\<forall>r\<in>set (ranges c). word_range s r \<and> buf (snd r) = 0 \<and> (\<forall>i. fst r \<le> i \<longrightarrow> i < snd r \<longrightarrow> buf i = s ! i \<and> s ! i \<noteq> 0)))"
proof -
  have G: "good s 0 (parseline (Suc (length s)) s 0)" by (rule parseline_good) auto
  have p: "well_formed s c \<and> buf = nulterminate c (char_at s)" if "parsecmd s = Inr (c, buf)" for c buf
    using that G by (auto simp: parsecmd_def good_def kres peek_def simp del: parseline.simps split: if_splits)
  have "parsecmd s \<noteq> Inl Diverge"
  proof (cases "parseline (Suc (length s)) s 0")
    case (Inl x)
    then show ?thesis using G by (simp add: parsecmd_def good_def del: parseline.simps)
  next
    case (Inr y)
    then show ?thesis by (cases y) (simp add: parsecmd_def peek_def Let_def del: parseline.simps)
  qed
  then show ?thesis
    using p nulterminate_words [OF assms] well_formed_ranges by (intro conjI allI impI ballI) simp_all
qed

theorem parsecmd_well_formed_witness:
  "\<exists>buf. parsecmd [97, 32, 98, 62, 99, 124, 100] = Inr (PIPE (REDIR (EXEC [(0, 1), (2, 3)]) (4, 5) 513 1) (EXEC [(6, 7)]), buf) \<and>
     buf 1 = 0 \<and> buf 2 = 98"
proof -
  let ?s = "[97, 32, 98, 62, 99, 124, 100] :: cstring"
  let ?c = "PIPE (REDIR (EXEC [(0, 1), (2, 3)]) (4, 5) 513 1) (EXEC [(6, 7)])"
  have "parseline (Suc (length ?s)) ?s 0 = Inr (?c, 7)" by code_simp
  then have p: "parsecmd ?s = Inr (?c, nulterminate ?c (char_at ?s))"
    by (simp add: parsecmd_def peek_def skip_def del: parseline.simps)
  have "\<forall>r\<in>set (ranges ?c). word_range ?s r \<and> nulterminate ?c (char_at ?s) (snd r) = 0 \<and>
      (\<forall>i. fst r \<le> i \<longrightarrow> i < snd r \<longrightarrow> nulterminate ?c (char_at ?s) i = ?s ! i \<and> ?s ! i \<noteq> 0)"
    using parsecmd_well_formed [of ?s] p by simp
  then show ?thesis using p by simp
qed

end
