(* ===== verification/Spec2Isabelle.thy ===== *)
theory Spec2Isabelle
  imports Trap Sched Grep Shell
begin

text \<open>
  A model of the kernel of Project-XV6, a variant of xv6 (src/xv6), and of two of its user programs, with the
  properties that make its parts correct. The kernel is C for a 32-bit x86. Words are \<open>u8\<close>, \<open>u16\<close> and \<open>u32\<close>, so arithmetic wraps as in C.

  \<^bold>\<open>How the code is modelled.\<close> The state of the kernel is a chain of extensible records, one per
  component, in the order the components build on each other: the page allocator (\<open>kmem_state\<close>), the process
  table (\<open>proc_state\<close>), the disk and the buffer cache (\<open>bio_state\<close>), the log (\<open>log_state\<close>), the inode cache
  (\<open>fs_state\<close>), the console (\<open>cons_state\<close>), the page tables (\<open>vm_state\<close>), open files and pipes
  (\<open>ft_state\<close>), the system calls (\<open>sys_state\<close>) and the keyboard (\<open>trap_state\<close>). Every operation is a function
  on the scheme of the record it needs, so that it applies to the whole state. A function that can fail
  returns \<open>kstop + 'a\<close>: it returns, calls \<open>panic\<close>, would \<open>sleep\<close> on a channel, loops for ever, or reads or
  writes past an object (\<open>Overrun\<close>). A function that sleeps stops there; what other processes do meanwhile is a
  matter of the step relations below.

  \<^bold>\<open>Theories and sources.\<close>
  \<^item> \<open>Prelude\<close>: types, results, little-endian encodings, table scans, linked lists with a sentinel.
  \<^item> \<open>Cstring\<close>: string.c. \<open>memmove\<close> on overlapping ranges, the two paths of \<open>memset\<close>, copies of strings.
  \<^item> \<open>Kalloc\<close>: kalloc.c. The free list threaded through the free pages; its invariant and what it hands out.
  \<^item> \<open>Proc\<close>: the process table of proc.h and the operations of proc.c on the table alone.
  \<^item> \<open>Bio\<close>: memide.c and bio.c. Coherence of the cache, write and read back, replacement of the least recently used.
  \<^item> \<open>Log\<close>: log.c. Atomicity of a transaction under a crash at any disk write, recovery that can be
    restarted, absorption, the initialisation of the log.
  \<^item> \<open>Inode\<close> and \<open>Fs\<close>: fs.c. Blocks, inodes, contents, directories, paths. What is written is read back,
    files do not interfere, a linked entry is found, errors and progress of writes.
  \<^item> \<open>Console\<close>: the output half of console.c and uart.c. Numerals, formatted text, the cells it may touch.
  \<^item> \<open>Vm\<close>: vm.c. Page tables in memory, the address spaces of processes, access to user memory.
  \<^item> \<open>Fifo\<close> and \<open>File\<close>: the contract of a bounded queue as a locale; file.c and pipe.c with the interpretation
    of the locale on the ring buffer of a pipe.
  \<^item> \<open>Process\<close> and \<open>Frame\<close>: the rest of proc.c; what memory and file system operations leave alone.
  \<^item> \<open>Life\<close>: \<open>fork\<close>, \<open>exit\<close> and \<open>wait\<close> of proc.c together. The reference counts of open files are exactly the
    descriptors that refer to them, children share the files of their parent, and a parent reaps its zombies.
  \<^item> \<open>Spinlock\<close>: spinlock.c as a machine of several CPUs whose steps are single memory accesses; mutual exclusion.
  \<^item> \<open>Sched\<close>: \<open>scheduler\<close>, \<open>sched\<close>, \<open>yield\<close>, \<open>sleep\<close> and \<open>wakeup\<close> of proc.c as a machine of several CPUs whose steps
    are critical sections. A process runs on one CPU at most, no check of \<open>sched\<close> fails, no wakeup is lost.
  \<^item> \<open>Consintr\<close> and \<open>Kbd\<close>: the input half of console.c, kbd.c, the receiver of uart.c.
  \<^item> \<open>Sysarg\<close>, \<open>Sysfile\<close>, \<open>Exec\<close>, \<open>Sysproc\<close>, \<open>Rtc\<close>: syscall.c, sysfile.c, exec.c, sysproc.c and the clock of lapic.c.
    The environment variables refine a map; the clock gives the date eight hours ahead in the Gregorian calendar.
  \<^item> \<open>Trap\<close>: trap.c and the dispatch of system calls. A killed process does not return to user mode.
  \<^item> \<open>Grep\<close> and \<open>Shell\<close>: grep.c and the parser of sh.c. The matcher decides the language of its patterns; the
    parser ends and returns well-formed commands.

  \<^bold>\<open>Bounds.\<close> Loops over tables and lists are recursive over the table or list. A search over a linked list of
  buffers has one step more than there are buffers, a scan over the screen 65536 steps, the loops of
  \<open>freerange\<close> one step per page of the address space: more than the code can take. The parser of the shell has one
  step more than the line has bytes for each recursion, and consumes a byte per step. The wait for a stable clock
  is a \<open>partial_function\<close> because it need not end.

  \<^bold>\<open>Parameters.\<close> The addresses the linker fixes, the program \<open>initcode\<close>, the scan codes and bytes that
  devices deliver, the registers of the clock and the number of the CPU are arguments.

  \<^bold>\<open>Not modelled.\<close> Boot code and assembly, the interrupt controllers, the timer chip and \<open>seginit\<close> write
  fixed values to hardware, and mp.c reads the tables of the firmware. ide.c is an alternative to memide.c. The
  test programs implement nothing. Of the user programs, cal.c has no defined meaning because its stacks are
  never returned to it; the editor, the game, the library of user space, the image builder mkfs.c and the
  programs that only make system calls and print are left out, as is the part of sh.c that runs commands.
\<close>

end
